(* ===== verification/CAF_Prelude.thy ===== *)
theory CAF_Prelude
  imports Main "HOL-Library.Word"
begin

text \<open>
  Shared vocabulary of the development: the machine integers of the C++ sources as word types,
  the collections of simplification rules that carry the component proofs, and the generic lemmas
  on lists, options and words that more than one component uses.
\<close>

unbundle bit_operations_syntax

section \<open>Machine integers\<close>

type_synonym u8 = "8 word"
type_synonym u16 = "16 word"
type_synonym u32 = "32 word"
type_synonym u64 = "64 word"

type_synonym bytes = "u8 list"

section \<open>Rule collections\<close>

named_theorems caf_defs \<open>unfolding of operations that are plain compositions\<close>

section \<open>Words as bit vectors\<close>

lemma word_eq_iff_bit:
  fixes v w :: "'a::len word"
  shows "v = w \<longleftrightarrow> (\<forall>n. bit v n = bit w n)"
  by (auto intro: bit_word_eqI)

lemma bit_imp_exp_le_unat:
  fixes w :: "'a::len word"
  assumes "bit w n"
  shows "2 ^ n \<le> unat w"
proof -
  from assms have "bit (unat w) n"
    by (simp add: bit_unsigned_iff)
  then have "unat w div 2 ^ n \<noteq> 0"
    by (metis bit_iff_odd even_zero)
  then show ?thesis
    by (simp add: div_eq_0_iff)
qed

lemma bit_less_exp:
  fixes w :: "'a::len word"
  assumes "bit w n" "unat w < 2 ^ k"
  shows "n < k"
proof -
  have "(2::nat) ^ n < 2 ^ k"
    using bit_imp_exp_le_unat [OF assms(1)] assms(2) by linarith
  then show ?thesis by simp
qed

lemma unat_less_exp: "unat (w :: 'a::len word) < 2 ^ LENGTH('a)"
  by (rule unsigned_less)

lemma and_0x7f: "(w :: 'a::len word) AND 0x7F = take_bit 7 w"
  by (simp add: take_bit_eq_mask mask_eq_exp_minus_1)

lemma and_0x80: "(w :: u8) AND 0x80 \<noteq> 0 \<longleftrightarrow> bit w 7"
  by (simp add: bit_iff_and_push_bit_not_eq_0)

lemma or_0x80: "(w :: u8) OR 0x80 = set_bit 7 w"
  by (simp add: set_bit_eq_or)

lemma bit_0x80: "bit (0x80 :: u8) i \<longleftrightarrow> i = 7"
proof -
  have eq: "(0x80 :: u8) = set_bit 7 0" using or_0x80 [of 0] by simp
  show ?thesis by (simp only: eq bit_set_bit_iff) auto
qed

lemma all_less_2: "(\<forall>n<2::nat. P n) \<longleftrightarrow> P 0 \<and> P 1"
  by (auto simp: less_2_cases_iff)

lemma sint_eq_0_iff [simp]: "sint (w :: 'a::len word) = 0 \<longleftrightarrow> w = 0"
  using signed_word_eqI [of w 0] by auto

section \<open>Lists\<close>

lemma append_split_le:
  "xs @ ys = zs @ ts \<Longrightarrow> length zs \<le> length xs \<Longrightarrow> \<exists>r. xs = zs @ r \<and> r @ ys = ts"
  by (auto simp: append_eq_append_conv2)

lemma take_append_same: "xs @ ys = zs @ ts \<Longrightarrow> n \<le> length xs \<Longrightarrow> n \<le> length zs \<Longrightarrow> take n xs = take n zs"
  by (auto simp: append_eq_append_conv2)

end
