(* ===== verification/Linked_List.thy ===== *)
theory Linked_List
  imports CAF_Prelude
begin

text \<open>
  The intrusive singly linked list (\<^verbatim>\<open>libcaf_core/caf/intrusive/linked_list.hpp\<close>) on an explicit
  store. Elements are addresses; every node carries one \<open>next\<close> pointer, each list object \<open>l\<close> owns the
  two dummy nodes \<open>Head l\<close> and \<open>Tail l\<close>, and \<open>Tail l\<close> points back to the last element. All lists
  share the store, since an element moves between lists by pointer updates only.
\<close>

section \<open>Model\<close>

type_synonym addr = nat

datatype node_ptr = Null | Head nat | Tail nat | Elem addr

record list_store =
  nxt :: "node_ptr \<Rightarrow> node_ptr"
  lsize :: "nat \<Rightarrow> nat"

definition set_next :: "node_ptr \<Rightarrow> node_ptr \<Rightarrow> list_store \<Rightarrow> list_store" where
  "set_next p q s = s\<lparr>nxt := (nxt s)(p := q)\<rparr>"

definition set_size :: "nat \<Rightarrow> nat \<Rightarrow> list_store \<Rightarrow> list_store" where
  "set_size l n s = s\<lparr>lsize := (lsize s)(l := n)\<rparr>"

definition ll_init :: "list_store \<Rightarrow> nat \<Rightarrow> list_store" where
  "ll_init s l = set_size l 0 (set_next (Tail l) (Head l) (set_next (Head l) (Tail l) s))"

definition ll_size :: "list_store \<Rightarrow> nat \<Rightarrow> nat" where
  "ll_size s l = lsize s l"

definition ll_empty :: "list_store \<Rightarrow> nat \<Rightarrow> bool" where
  "ll_empty s l \<longleftrightarrow> ll_size s l = 0"

definition ll_begin :: "list_store \<Rightarrow> nat \<Rightarrow> node_ptr" where
  "ll_begin s l = nxt s (Head l)"

definition ll_end :: "nat \<Rightarrow> node_ptr" where
  "ll_end l = Tail l"

definition ll_before_begin :: "nat \<Rightarrow> node_ptr" where
  "ll_before_begin l = Head l"

definition ll_before_end :: "list_store \<Rightarrow> nat \<Rightarrow> node_ptr" where
  "ll_before_end s l = nxt s (Tail l)"

definition ll_front :: "list_store \<Rightarrow> nat \<Rightarrow> node_ptr" where
  "ll_front s l = nxt s (Head l)"

definition ll_back :: "list_store \<Rightarrow> nat \<Rightarrow> node_ptr" where
  "ll_back s l = nxt s (Tail l)"

definition ll_peek :: "list_store \<Rightarrow> nat \<Rightarrow> node_ptr" where
  "ll_peek s l = (if lsize s l > 0 then ll_front s l else Null)"

definition ll_pop_front :: "list_store \<Rightarrow> nat \<Rightarrow> node_ptr \<times> list_store" where
  "ll_pop_front s l =
     (if \<not> ll_empty s l then
        let ptr = nxt s (Head l);
            s1 = set_next (Head l) (nxt s ptr) s;
            s2 = set_size l (lsize s1 l - 1) s1;
            s3 = (if lsize s2 l = 0 then set_next (Tail l) (Head l) s2 else s2)
        in (ptr, s3)
      else (Null, s))"

definition ll_push_back :: "list_store \<Rightarrow> nat \<Rightarrow> addr \<Rightarrow> list_store" where
  "ll_push_back s l x =
     (let s1 = set_next (nxt s (Tail l)) (Elem x) s;
          s2 = set_next (Tail l) (Elem x) s1;
          s3 = set_next (Elem x) (Tail l) s2
      in set_size l (lsize s3 l + 1) s3)"

definition ll_push_front :: "list_store \<Rightarrow> nat \<Rightarrow> addr \<Rightarrow> list_store" where
  "ll_push_front s l x =
     (if ll_empty s l then ll_push_back s l x
      else
        let s1 = set_next (Elem x) (nxt s (Head l)) s;
            s2 = set_next (Head l) (Elem x) s1
        in set_size l (lsize s2 l + 1) s2)"

definition ll_insert_after :: "list_store \<Rightarrow> nat \<Rightarrow> node_ptr \<Rightarrow> addr \<Rightarrow> list_store" where
  "ll_insert_after s l pos x =
     (let next = nxt s pos;
          s1 = set_next (Elem x) next s;
          s2 = set_next pos (Elem x) s1;
          s3 = (if next = Tail l then set_next (Tail l) (Elem x) s2 else s2)
      in set_size l (lsize s3 l + 1) s3)"

definition ll_splice :: "list_store \<Rightarrow> nat \<Rightarrow> nat \<Rightarrow> list_store" where
  "ll_splice s l other =
     (if ll_empty s other then s
      else
        let s1 = set_next (nxt s (Tail l)) (nxt s (Head other)) s;
            s2 = set_next (nxt s1 (Tail other)) (Tail l) s1;
            s3 = set_next (Tail l) (nxt s2 (Tail other)) s2;
            s4 = set_size l (lsize s3 l + lsize s3 other) s3
        in ll_init s4 other)"

text \<open>
  The traversals of \<open>find_if\<close> and \<open>drain\<close> follow the pointers until the tail dummy; on a cyclic store
  they would not return, which is the value \<open>None\<close>. \<open>drain\<close> hands each element to \<open>fn\<close> in order; the
  model returns the sequence of the elements handed over.
\<close>

partial_function (option) ll_find_from ::
  "list_store \<Rightarrow> (addr \<Rightarrow> bool) \<Rightarrow> node_ptr \<Rightarrow> node_ptr \<Rightarrow> node_ptr option" where
  "ll_find_from s pred i stop =
     (if i = stop then Some Null
      else case i of
        Elem x \<Rightarrow> if pred x then Some i else ll_find_from s pred (nxt s i) stop
      | _ \<Rightarrow> None)"

definition ll_find_if :: "list_store \<Rightarrow> nat \<Rightarrow> (addr \<Rightarrow> bool) \<Rightarrow> node_ptr option" where
  "ll_find_if s l pred = ll_find_from s pred (ll_begin s l) (ll_end l)"

partial_function (option) ll_drain_from ::
  "list_store \<Rightarrow> addr list \<Rightarrow> node_ptr \<Rightarrow> node_ptr \<Rightarrow> addr list option" where
  "ll_drain_from s acc i stop =
     (if i = stop then Some acc
      else case i of
        Elem x \<Rightarrow> ll_drain_from s (acc @ [x]) (nxt s i) stop
      | _ \<Rightarrow> None)"

definition ll_drain :: "list_store \<Rightarrow> nat \<Rightarrow> (addr list \<times> list_store) option" where
  "ll_drain s l = map_option (\<lambda>xs. (xs, ll_init s l)) (ll_drain_from s [] (nxt s (Head l)) (Tail l))"

text \<open>\<open>clear\<close>, also the body of the destructor, drains the list into the deleter.\<close>

definition ll_clear :: "list_store \<Rightarrow> nat \<Rightarrow> list_store option" where
  "ll_clear s l = map_option snd (ll_drain s l)"

text \<open>Move construction and move assignment: the elements of \<open>other\<close> are relinked to \<open>l\<close>.\<close>

definition ll_steal :: "list_store \<Rightarrow> nat \<Rightarrow> nat \<Rightarrow> list_store" where
  "ll_steal s l other =
     (if \<not> ll_empty s other then
        let s1 = set_next (Head l) (nxt s (Head other)) s;
            s2 = set_next (Tail l) (nxt s1 (Tail other)) s1;
            s3 = set_next (nxt s2 (Tail l)) (Tail l) s2;
            s4 = set_size l (lsize s3 other) s3
        in ll_init s4 other
      else s)"

definition ll_move_construct :: "list_store \<Rightarrow> nat \<Rightarrow> nat \<Rightarrow> list_store" where
  "ll_move_construct s l other = ll_steal (ll_init s l) l other"

definition ll_move_assign :: "list_store \<Rightarrow> nat \<Rightarrow> nat \<Rightarrow> list_store option" where
  "ll_move_assign s l other = map_option (\<lambda>s1. ll_steal s1 l other) (ll_clear s l)"

text \<open>A store in which every list object has just been default-constructed.\<close>

definition fresh_store :: list_store where
  "fresh_store =
     \<lparr>nxt = (\<lambda>p. case p of Head l \<Rightarrow> Tail l | Tail l \<Rightarrow> Head l | _ \<Rightarrow> Null), lsize = (\<lambda>_. 0)\<rparr>"

section \<open>Representation\<close>

fun chain :: "(node_ptr \<Rightarrow> node_ptr) \<Rightarrow> node_ptr \<Rightarrow> addr list \<Rightarrow> node_ptr \<Rightarrow> bool" where
  "chain f p [] q \<longleftrightarrow> f p = q"
| "chain f p (x # xs) q \<longleftrightarrow> f p = Elem x \<and> chain f (Elem x) xs q"

definition last_ptr :: "node_ptr \<Rightarrow> addr list \<Rightarrow> node_ptr" where
  "last_ptr p xs = (if xs = [] then p else Elem (last xs))"

definition list_rep :: "list_store \<Rightarrow> nat \<Rightarrow> addr list \<Rightarrow> bool" where
  "list_rep s l xs \<longleftrightarrow>
     chain (nxt s) (Head l) xs (Tail l) \<and> distinct xs
     \<and> nxt s (Tail l) = last_ptr (Head l) xs \<and> lsize s l = length xs"

definition rep :: "list_store \<Rightarrow> (nat \<Rightarrow> addr list) \<Rightarrow> bool" where
  "rep s C \<longleftrightarrow> (\<forall>l. list_rep s l (C l)) \<and> (\<forall>l m. l \<noteq> m \<longrightarrow> set (C l) \<inter> set (C m) = {})"

definition fresh :: "(nat \<Rightarrow> addr list) \<Rightarrow> addr \<Rightarrow> bool" where
  "fresh C x \<longleftrightarrow> (\<forall>l. x \<notin> set (C l))"

definition first_ptr :: "addr list \<Rightarrow> node_ptr \<Rightarrow> node_ptr" where
  "first_ptr xs q = (if xs = [] then q else Elem (hd xs))"

definition footprint :: "nat \<Rightarrow> addr list \<Rightarrow> node_ptr set" where
  "footprint l xs = {Head l, Tail l} \<union> Elem ` set xs"

lemma store_simps [simp]:
  "nxt (set_next p q s) = (nxt s)(p := q)"
  "lsize (set_next p q s) = lsize s"
  "nxt (set_size l n s) = nxt s"
  "lsize (set_size l n s) = (lsize s)(l := n)"
  by (simp_all add: set_next_def set_size_def)

lemma Elem_image [simp]:
  "Elem x \<in> Elem ` A \<longleftrightarrow> x \<in> A" "Head l \<notin> Elem ` A" "Tail l \<notin> Elem ` A" "Null \<notin> Elem ` A"
  by auto

lemma last_ptr_simps [simp]:
  "last_ptr p [] = p"
  "last_ptr p (xs @ [x]) = Elem x"
  by (simp_all add: last_ptr_def)

lemma last_ptr_Cons: "last_ptr p (x # xs) = last_ptr (Elem x) xs"
  by (simp add: last_ptr_def)

lemma first_ptr_simps [simp]:
  "first_ptr [] q = q"
  "first_ptr (x # xs) q = Elem x"
  by (simp_all add: first_ptr_def)

lemma chain_cong:
  "(\<And>r. r \<in> insert p (Elem ` set xs) \<Longrightarrow> f r = g r) \<Longrightarrow> chain f p xs q = chain g p xs q"
proof (induction xs arbitrary: p)
  case Nil
  then show ?case by simp
next
  case (Cons x xs)
  have "chain f (Elem x) xs q = chain g (Elem x) xs q"
    by (rule Cons.IH) (use Cons.prems in auto)
  with Cons.prems show ?case by simp
qed

lemma chain_upd [simp]:
  "a \<noteq> p \<Longrightarrow> a \<notin> Elem ` set xs \<Longrightarrow> chain (f(a := v)) p xs q = chain f p xs q"
  by (rule chain_cong) auto

lemma chain_first: "chain f p xs q \<Longrightarrow> f p = first_ptr xs q"
  by (cases xs) auto

lemma chain_last: "chain f p xs q \<Longrightarrow> f (last_ptr p xs) = q"
  by (induction xs arbitrary: p) (auto simp: last_ptr_Cons)

lemma chain_append:
  "chain f p (xs @ ys) q \<longleftrightarrow> chain f p xs (first_ptr ys q) \<and> chain f (last_ptr p xs) ys q"
proof (induction xs arbitrary: p)
  case Nil
  show ?case by (cases ys) auto
next
  case (Cons x xs)
  show ?case
    using Cons.IH [of "Elem x"] by (auto simp: last_ptr_Cons)
qed

lemma chain_relink:
  assumes "chain f p xs r" "distinct xs" "p \<notin> Elem ` set xs"
  shows "chain (f(last_ptr p xs := q)) p xs q"
  using assms
proof (induction xs arbitrary: p)
  case Nil
  then show ?case by simp
next
  case (Cons x xs)
  from Cons.prems have "chain (f(last_ptr (Elem x) xs := q)) (Elem x) xs q"
    by (intro Cons.IH) auto
  moreover from Cons.prems have "last_ptr (Elem x) xs \<noteq> p"
    by (auto simp: last_ptr_def)
  ultimately show ?case
    unfolding last_ptr_Cons chain.simps using Cons.prems by (metis chain.simps(2) fun_upd_other)
qed

lemma list_rep_cong:
  assumes "\<And>p. p \<in> footprint l xs \<Longrightarrow> nxt s' p = nxt s p" "lsize s' l = lsize s l"
  shows "list_rep s' l xs = list_rep s l xs"
proof -
  have "chain (nxt s') (Head l) xs (Tail l) = chain (nxt s) (Head l) xs (Tail l)"
    by (rule chain_cong) (use assms(1) in \<open>auto simp: footprint_def\<close>)
  with assms show ?thesis
    by (simp add: list_rep_def footprint_def)
qed

lemma rep_updI:
  assumes "rep s C" "list_rep s' l xs"
    and "\<And>m. m \<noteq> l \<Longrightarrow> set xs \<inter> set (C m) = {}"
    and "\<And>m p. m \<noteq> l \<Longrightarrow> p \<in> footprint m (C m) \<Longrightarrow> nxt s' p = nxt s p"
    and "\<And>m. m \<noteq> l \<Longrightarrow> lsize s' m = lsize s m"
  shows "rep s' (C(l := xs))"
proof -
  have "list_rep s' m (C m)" if "m \<noteq> l" for m
    using list_rep_cong [of m "C m" s' s] assms that by (auto simp: rep_def)
  then show ?thesis
    using assms(1-3) by (fastforce simp: rep_def)
qed

lemma repD:
  assumes "rep s C"
  shows "chain (nxt s) (Head l) (C l) (Tail l)" "distinct (C l)"
    "nxt s (Tail l) = last_ptr (Head l) (C l)" "lsize s l = length (C l)"
    "l \<noteq> m \<Longrightarrow> set (C l) \<inter> set (C m) = {}"
  using assms by (auto simp: rep_def list_rep_def)

section \<open>Every operation implements its list operation\<close>

lemma rep_init: "rep s C \<Longrightarrow> rep (ll_init s l) (C(l := []))"
  by (rule rep_updI) (auto simp: ll_init_def list_rep_def footprint_def)

lemma rep_empty: "rep s C \<Longrightarrow> ll_empty s l \<longleftrightarrow> C l = []"
  by (simp add: ll_empty_def ll_size_def repD)

lemma rep_front: "rep s C \<Longrightarrow> ll_front s l = first_ptr (C l) (Tail l)"
  by (simp add: ll_front_def chain_first [OF repD(1)])

lemma rep_before_end: "rep s C \<Longrightarrow> ll_before_end s l = last_ptr (Head l) (C l)"
  by (simp add: ll_before_end_def repD(3))

lemma last_ptr_in: "last_ptr p xs \<in> insert p (Elem ` set xs)"
  by (simp add: last_ptr_def)

lemma last_ptr_neq:
  "p \<noteq> q \<Longrightarrow> q \<notin> Elem ` set xs \<Longrightarrow> last_ptr p xs \<noteq> q"
  by (auto simp: last_ptr_def)

lemma last_ptr_snoc_Cons [simp]: "last_ptr p (xs @ y # ys) = last_ptr (Elem y) ys"
  by (simp add: last_ptr_def)

lemma rep_insert_after:
  assumes r: "rep s C" and split: "C l = xs @ ys" and x: "fresh C x"
  shows "rep (ll_insert_after s l (last_ptr (Head l) xs) x) (C(l := xs @ x # ys))"
proof -
  let ?pos = "last_ptr (Head l) xs"
  let ?s' = "ll_insert_after s l ?pos x"
  note d = repD [OF r]
  from d(1) [of l] split have ch: "chain (nxt s) (Head l) xs (first_ptr ys (Tail l))"
      "chain (nxt s) ?pos ys (Tail l)"
    by (simp_all add: chain_append)
  from d(2) [of l] split have dist: "distinct xs" "distinct ys" "set xs \<inter> set ys = {}"
    by auto
  have xC: "x \<notin> set (C m)" for m
    using x by (simp add: fresh_def)
  with split have xf: "x \<notin> set xs" "x \<notin> set ys"
    by (metis Un_iff set_append)+
  have pos: "?pos \<noteq> Elem x" "?pos \<noteq> Tail l" "?pos \<notin> Elem ` set ys"
    using xf dist last_ptr_in [of "Head l" xs] by auto
  have next_pos: "nxt s ?pos = first_ptr ys (Tail l)"
    using chain_first [OF ch(2)] .
  have "chain (nxt ?s') (Head l) xs (Elem x) = chain ((nxt s)(?pos := Elem x)) (Head l) xs (Elem x)"
    by (rule chain_cong) (use xf pos in \<open>auto simp: ll_insert_after_def Let_def\<close>)
  then have A: "chain (nxt ?s') (Head l) xs (Elem x)"
    using chain_relink [OF ch(1) dist(1)] by auto
  have B: "chain (nxt ?s') (Elem x) ys (Tail l)"
  proof (cases ys)
    case Nil
    then show ?thesis using pos next_pos by (simp add: ll_insert_after_def Let_def)
  next
    case (Cons y zs)
    then show ?thesis
      using ch(2) pos xf next_pos by (auto simp: ll_insert_after_def Let_def)
  qed
  have "list_rep ?s' l (xs @ x # ys)"
    using A B d(3,4) [of l] dist xf split next_pos pos
    by (auto simp: list_rep_def chain_append ll_insert_after_def Let_def last_ptr_def first_ptr_def)
  then show ?thesis
  proof (rule rep_updI [OF r])
    fix m p assume m: "m \<noteq> l" and p: "p \<in> footprint m (C m)"
    have "?pos \<in> footprint l (C l)" "Elem x \<notin> footprint m (C m)" "Tail l \<notin> footprint m (C m)"
      using split xC m by (auto simp: footprint_def last_ptr_def)
    moreover have "footprint l (C l) \<inter> footprint m (C m) = {}"
      using d(5) [of l m] m by (auto simp: footprint_def)
    ultimately show "nxt ?s' p = nxt s p"
      using p by (auto simp: ll_insert_after_def Let_def)
  next
    fix m assume "m \<noteq> l"
    then show "set (xs @ x # ys) \<inter> set (C m) = {}"
      using d(5) [of l m] xC split by auto
    show "m \<noteq> l \<Longrightarrow> lsize ?s' m = lsize s m"
      by (simp add: ll_insert_after_def Let_def)
  qed
qed

lemma rep_insert_back:
  "rep s C \<Longrightarrow> fresh C x \<Longrightarrow> rep (ll_insert_after s l (ll_before_end s l) x) (C(l := C l @ [x]))"
  using rep_insert_after [of s C l "C l" "[]" x] by (simp add: rep_before_end)

text \<open>
  \<open>push_back\<close> and \<open>push_front\<close> reach the same store as an insertion after the last and before the
  first element.
\<close>

lemma push_back_eq_insert_after:
  assumes "rep s C" "fresh C x"
  shows "ll_push_back s l x = ll_insert_after s l (ll_before_end s l) x"
proof -
  have "nxt s (last_ptr (Head l) (C l)) = Tail l"
    using chain_last [OF repD(1) [OF assms(1)]] .
  moreover have "last_ptr (Head l) (C l) \<noteq> Elem x" "last_ptr (Head l) (C l) \<noteq> Tail l"
    using assms(2) last_ptr_in [of "Head l" "C l"] by (auto simp: fresh_def)
  ultimately show ?thesis
    using assms(1)
    by (auto simp: ll_push_back_def ll_insert_after_def ll_before_end_def repD(3) Let_def
        set_next_def set_size_def fun_upd_twist intro!: list_store.equality)
qed

lemma rep_push_back:
  "rep s C \<Longrightarrow> fresh C x \<Longrightarrow> rep (ll_push_back s l x) (C(l := C l @ [x]))"
  by (simp add: push_back_eq_insert_after rep_insert_back)

lemma push_front_eq_insert_after:
  assumes "rep s C" "fresh C x"
  shows "ll_push_front s l x = ll_insert_after s l (ll_before_begin l) x"
proof (cases "C l = []")
  case True
  then show ?thesis
    using assms push_back_eq_insert_after [OF assms]
    by (simp add: ll_push_front_def rep_empty rep_before_end ll_before_begin_def)
next
  case False
  then have "nxt s (Head l) \<noteq> Tail l"
    using chain_first [OF repD(1) [OF assms(1)], of l] by (simp add: first_ptr_def)
  then show ?thesis
    using False assms
    by (simp add: ll_push_front_def ll_insert_after_def ll_before_begin_def rep_empty Let_def)
qed

lemma rep_push_front:
  "rep s C \<Longrightarrow> fresh C x \<Longrightarrow> rep (ll_push_front s l x) (C(l := x # C l))"
  using rep_insert_after [of s C l "[]" "C l" x]
  by (simp add: push_front_eq_insert_after ll_before_begin_def)

lemma rep_pop_front:
  assumes r: "rep s C" and c: "C l = x # xs"
  shows "fst (ll_pop_front s l) = Elem x" and "rep (snd (ll_pop_front s l)) (C(l := xs))"
proof -
  let ?s' = "snd (ll_pop_front s l)"
  note d = repD [OF r]
  have ne: "\<not> ll_empty s l"
    using r c by (simp add: rep_empty)
  from d(1) [of l] c have ch: "nxt s (Head l) = Elem x" "chain (nxt s) (Elem x) xs (Tail l)"
    by simp_all
  then show "fst (ll_pop_front s l) = Elem x"
    using ne by (simp add: ll_pop_front_def Let_def)
  have n: "nxt ?s' p = ((nxt s)(Head l := nxt s (Elem x))) p" if "xs \<noteq> [] \<or> p \<noteq> Tail l" for p
    using ne ch d(4) [of l] c that by (auto simp: ll_pop_front_def Let_def)
  have "chain (nxt ?s') (Head l) xs (Tail l)"
  proof (cases xs)
    case Nil
    then show ?thesis using n ch by simp
  next
    case (Cons y ys)
    have "chain (nxt ?s') (Elem y) ys (Tail l) = chain (nxt s) (Elem y) ys (Tail l)"
      by (rule chain_cong) (use n Cons in auto)
    then show ?thesis using n ch Cons by simp
  qed
  moreover have "nxt ?s' (Tail l) = last_ptr (Head l) xs"
    using ne ch d(3,4) [of l] c by (auto simp: ll_pop_front_def Let_def last_ptr_def)
  ultimately have "list_rep ?s' l xs"
    using ne ch d(2,4) [of l] c by (auto simp: list_rep_def ll_pop_front_def Let_def)
  then show "rep ?s' (C(l := xs))"
  proof (rule rep_updI [OF r])
    fix m p assume m: "m \<noteq> l"
    then show "set xs \<inter> set (C m) = {}"
      using d(5) [of l m] c by auto
    show "lsize ?s' m = lsize s m"
      using m ne by (auto simp: ll_pop_front_def Let_def)
    show "nxt ?s' p = nxt s p" if "p \<in> footprint m (C m)"
      using m ne ch that by (auto simp: ll_pop_front_def Let_def footprint_def)
  qed
qed

lemma rep_pop_front_empty: "rep s C \<Longrightarrow> C l = [] \<Longrightarrow> ll_pop_front s l = (Null, s)"
  by (simp add: ll_pop_front_def rep_empty)

lemma find_from_chain:
  assumes "chain (nxt s) p xs q" "q \<notin> Elem ` set xs"
  shows "ll_find_from s P (first_ptr xs q) q =
    Some (case List.find P xs of None \<Rightarrow> Null | Some x \<Rightarrow> Elem x)"
  using assms
proof (induction xs arbitrary: p)
  case Nil
  then show ?case by (simp add: ll_find_from.simps)
next
  case (Cons x xs)
  then have "ll_find_from s P (first_ptr xs q) q =
      Some (case List.find P xs of None \<Rightarrow> Null | Some x \<Rightarrow> Elem x)"
    by auto
  with Cons.prems show ?case
    using chain_first [of "nxt s" "Elem x" xs q] by (auto simp: ll_find_from.simps [of s P "Elem x"])
qed

lemma rep_find_if:
  assumes "rep s C"
  shows "ll_find_if s l P = Some (case List.find P (C l) of None \<Rightarrow> Null | Some x \<Rightarrow> Elem x)"
  using find_from_chain [OF repD(1) [OF assms], of l P] chain_first [OF repD(1) [OF assms], of l]
  by (simp add: ll_find_if_def ll_begin_def ll_end_def)

lemma drain_from_chain:
  assumes "chain (nxt s) p xs q" "q \<notin> Elem ` set xs"
  shows "ll_drain_from s acc (first_ptr xs q) q = Some (acc @ xs)"
  using assms
proof (induction xs arbitrary: p acc)
  case Nil
  then show ?case by (simp add: ll_drain_from.simps)
next
  case (Cons x xs)
  then have "ll_drain_from s (acc @ [x]) (first_ptr xs q) q = Some ((acc @ [x]) @ xs)"
    by auto
  with Cons.prems show ?case
    using chain_first [of "nxt s" "Elem x" xs q]
    by (auto simp: ll_drain_from.simps [of s acc "Elem x"])
qed

lemma rep_drain:
  assumes "rep s C"
  shows "ll_drain s l = Some (C l, ll_init s l)" and "rep (ll_init s l) (C(l := []))"
proof -
  show "ll_drain s l = Some (C l, ll_init s l)"
    using drain_from_chain [OF repD(1) [OF assms], of l "[]"]
      chain_first [OF repD(1) [OF assms], of l]
    by (simp add: ll_drain_def)
qed (rule rep_init [OF assms])

lemma rep_splice:
  assumes r: "rep s C" and ne: "l \<noteq> other"
  shows "rep (ll_splice s l other) (C(l := C l @ C other, other := []))"
proof (cases "C other = []")
  case True
  then have "C(other := []) = C"
    by (simp add: fun_upd_idem)
  with True r show ?thesis
    by (simp add: ll_splice_def rep_empty)
next
  case False
  let ?s' = "ll_splice s l other"
  note d = repD [OF r]
  let ?e = "last_ptr (Head l) (C l)" and ?f = "Elem (last (C other))"
  have neo: "\<not> ll_empty s other" and hd: "nxt s (Head other) = Elem (hd (C other))"
    and tlo: "nxt s (Tail other) = ?f"
    using r False chain_first [OF d(1), of other] d(3) [of other]
    by (simp_all add: rep_empty first_ptr_def last_ptr_def)
  have disj: "set (C l) \<inter> set (C other) = {}"
    using d(5) ne by blast
  have e: "?e \<noteq> Tail other" "?e \<noteq> ?f" "?e \<noteq> Tail l" "?e \<notin> Elem ` set (C other)"
      "?e \<noteq> Head other"
    using ne last_ptr_in [of "Head l" "C l"] disj False last_in_set [of "C other"] by auto
  have n: "nxt ?s' p = (if p = Tail other then Head other else if p = Head other then Tail other
      else if p = Tail l then ?f else if p = ?f then Tail l
      else if p = ?e then Elem (hd (C other)) else nxt s p)" for p
    using neo hd tlo e d(3) [of l] ne by (auto simp: ll_splice_def Let_def ll_init_def)
  have "chain (nxt ?s') (Head l) (C l) (Elem (hd (C other)))
      = chain ((nxt s)(?e := Elem (hd (C other)))) (Head l) (C l) (Elem (hd (C other)))"
    by (rule chain_cong) (use n ne disj False last_in_set [of "C other"] in auto)
  then have A: "chain (nxt ?s') (Head l) (C l) (Elem (hd (C other)))"
    using chain_relink [OF d(1) d(2)] by auto
  have "chain ((nxt s)(last_ptr (Head other) (C other) := Tail l)) (Head other) (C other) (Tail l)"
    using chain_relink [OF d(1) d(2), of other "Tail l"] by auto
  then have "chain ((nxt s)(?f := Tail l)) (Elem (hd (C other))) (tl (C other)) (Tail l)"
    using False by (cases "C other") (auto simp: last_ptr_def)
  moreover have "chain (nxt ?s') (Elem (hd (C other))) (tl (C other)) (Tail l)
      = chain ((nxt s)(?f := Tail l)) (Elem (hd (C other))) (tl (C other)) (Tail l)"
  proof (rule chain_cong)
    fix r assume "r \<in> insert (Elem (hd (C other))) (Elem ` set (tl (C other)))"
    then have "r \<in> Elem ` set (C other)"
      using False by (auto dest: list.set_sel(2))
    then show "nxt ?s' r = ((nxt s)(?f := Tail l)) r"
      using n [of r] e(4) by (cases "r = ?e") auto
  qed
  ultimately have B: "chain (nxt ?s') ?e (C other) (Tail l)"
    using n e False by (cases "C other") auto
  have sz: "lsize ?s' l = length (C l) + length (C other)" "lsize ?s' other = 0"
    using neo ne d(4) by (simp_all add: ll_splice_def Let_def ll_init_def)
  have "nxt ?s' (Tail l) = last_ptr (Head l) (C l @ C other)"
    using n [of "Tail l"] ne False by (simp add: last_ptr_def)
  then have l: "list_rep ?s' l (C l @ C other)"
    using A B False sz d(2) disj by (simp add: list_rep_def chain_append first_ptr_def)
  have other: "list_rep ?s' other []"
    using n sz by (simp add: list_rep_def)
  have rest: "list_rep ?s' m (C m)" if "m \<noteq> l" "m \<noteq> other" for m
  proof -
    have "last (C other) \<notin> set (C m)"
      using last_in_set [OF False] d(5) [of other m] that by blast
    then have "?e \<notin> footprint m (C m)" "?f \<notin> footprint m (C m)"
      using last_ptr_in [of "Head l" "C l"] d(5) [of l m] that by (auto simp: footprint_def)
    moreover have "{Tail other, Head other, Tail l} \<inter> footprint m (C m) = {}"
      using that by (auto simp: footprint_def)
    ultimately have "p \<notin> {?e, ?f, Tail other, Head other, Tail l}" if "p \<in> footprint m (C m)" for p
      using that by blast
    then have "nxt ?s' p = nxt s p" if "p \<in> footprint m (C m)" for p
      using n [of p] that by simp
    moreover have "lsize ?s' m = lsize s m"
      using that neo by (simp add: ll_splice_def Let_def ll_init_def)
    ultimately show ?thesis
      using list_rep_cong [of m "C m" ?s' s] r by (simp add: rep_def)
  qed
  show ?thesis
    unfolding rep_def
  proof (intro conjI allI impI)
    fix m show "list_rep ?s' m ((C(l := C l @ C other, other := [])) m)"
      using l other rest ne by auto
  next
    fix m k :: nat assume "m \<noteq> k"
    then show "set ((C(l := C l @ C other, other := [])) m)
        \<inter> set ((C(l := C l @ C other, other := [])) k) = {}"
      using d(5) [of m k] d(5) [of l m] d(5) [of l k] d(5) [of other m] d(5) [of other k] by auto
  qed
qed

lemma rep_steal:
  assumes "rep s C" "l \<noteq> other" "C l = []"
  shows "rep (ll_steal s l other) (C(l := C other, other := []))"
proof -
  have "nxt s (Tail l) = Head l"
    using repD(3) [OF assms(1), of l] assms(3) by simp
  moreover have "lsize s l = 0"
    using repD(4) [OF assms(1), of l] assms(3) by simp
  moreover have "nxt s (Tail other) \<noteq> Tail l" "nxt s (Tail other) \<noteq> Head l"
    using repD(3) [OF assms(1), of other] assms(2) by (auto simp: last_ptr_def)
  moreover have "nxt s (Tail other) \<noteq> Tail other" "nxt s (Tail other) \<noteq> Head other" if "\<not> ll_empty s other"
    using repD(3) [OF assms(1), of other] that assms(1) by (auto simp: last_ptr_def rep_empty)
  ultimately have "ll_steal s l other = ll_splice s l other"
    using assms(2)
    by (auto simp: ll_steal_def ll_splice_def Let_def set_next_def set_size_def ll_init_def
        fun_upd_twist intro!: list_store.equality)
  then show ?thesis
    using rep_splice [OF assms(1,2)] assms(3) by simp
qed

lemma rep_move_construct:
  assumes "rep s C" "l \<noteq> other"
  shows "rep (ll_move_construct s l other) (C(l := C other, other := []))"
  using rep_steal [OF rep_init [OF assms(1), of l] assms(2)] assms(2)
  by (simp add: ll_move_construct_def)

lemma rep_move_assign:
  assumes "rep s C" "l \<noteq> other"
  shows "\<exists>s'. ll_move_assign s l other = Some s' \<and> rep s' (C(l := C other, other := []))"
  using rep_move_construct [OF assms] rep_drain(1) [OF assms(1), of l]
  by (simp add: ll_move_assign_def ll_clear_def ll_move_construct_def)

lemma rep_fresh_store: "rep fresh_store (\<lambda>_. [])"
  by (simp add: rep_def list_rep_def fresh_store_def)

lemma rep_elements:
  assumes "rep s C"
  shows "ll_size s l = length (C l)" "ll_empty s l \<longleftrightarrow> C l = []"
    and "ll_front s l = (if C l = [] then Tail l else Elem (hd (C l)))"
    and "C l \<noteq> [] \<Longrightarrow> ll_back s l = Elem (last (C l))"
    and "ll_peek s l = (if C l = [] then Null else Elem (hd (C l)))"
  using repD(3,4) [OF assms, of l] chain_first [OF repD(1) [OF assms], of l]
  by (simp_all add: ll_size_def ll_empty_def ll_front_def ll_back_def ll_peek_def first_ptr_def last_ptr_def)

text \<open>
  C11: the linked list implements a list. With the contents of every list object related to the
  store, \<open>size\<close>, \<open>empty\<close>, \<open>front\<close>, \<open>back\<close> and \<open>peek\<close> read the list; \<open>push_back\<close>, \<open>push_front\<close>,
  \<open>insert_after\<close> (behind any position of the list), \<open>pop_front\<close>, \<open>clear\<close>, \<open>splice\<close>, move construction and
  move assignment change the contents of the lists involved exactly as the list operations they stand
  for and leave every other list alone; and \<open>find_if\<close> and \<open>drain\<close> return on every such store, the former
  the first match, the latter having passed on all elements in order.
\<close>

theorem linked_list_implements_list:
  assumes "rep s C" "fresh C x" "l \<noteq> other"
  shows "rep (ll_push_back s l x) (C(l := C l @ [x]))
    \<and> rep (ll_push_front s l x) (C(l := x # C l))
    \<and> (\<forall>xs ys. C l = xs @ ys \<longrightarrow>
         rep (ll_insert_after s l (if xs = [] then ll_before_begin l else Elem (last xs)) x) (C(l := xs @ x # ys)))
    \<and> (case C l of
         [] \<Rightarrow> ll_pop_front s l = (Null, s)
       | y # ys \<Rightarrow> fst (ll_pop_front s l) = Elem y \<and> rep (snd (ll_pop_front s l)) (C(l := ys)))
    \<and> ll_find_if s l P = Some (case List.find P (C l) of None \<Rightarrow> Null | Some z \<Rightarrow> Elem z)
    \<and> ll_drain s l = Some (C l, ll_init s l) \<and> rep (ll_init s l) (C(l := []))
    \<and> (\<exists>s'. ll_clear s l = Some s' \<and> rep s' (C(l := [])))
    \<and> rep (ll_splice s l other) (C(l := C l @ C other, other := []))
    \<and> rep (ll_move_construct s l other) (C(l := C other, other := []))
    \<and> (\<exists>s'. ll_move_assign s l other = Some s' \<and> rep s' (C(l := C other, other := [])))
    \<and> ll_size s l = length (C l) \<and> (ll_empty s l \<longleftrightarrow> C l = [])
    \<and> ll_front s l = (if C l = [] then Tail l else Elem (hd (C l)))
    \<and> (C l \<noteq> [] \<longrightarrow> ll_back s l = Elem (last (C l)))
    \<and> ll_peek s l = (if C l = [] then Null else Elem (hd (C l)))"
proof -
  have pop: "case C l of
         [] \<Rightarrow> ll_pop_front s l = (Null, s)
       | y # ys \<Rightarrow> fst (ll_pop_front s l) = Elem y \<and> rep (snd (ll_pop_front s l)) (C(l := ys))"
    using rep_pop_front [OF assms(1)] rep_pop_front_empty [OF assms(1)] by (cases "C l") simp_all
  have ins: "rep (ll_insert_after s l (if xs = [] then ll_before_begin l else Elem (last xs)) x) (C(l := xs @ x # ys))"
    if "C l = xs @ ys" for xs ys
    using rep_insert_after [OF assms(1) that assms(2)] unfolding last_ptr_def ll_before_begin_def .
  have clear: "\<exists>s'. ll_clear s l = Some s' \<and> rep s' (C(l := []))"
    using rep_drain [OF assms(1), of l] by (simp add: ll_clear_def)
  show ?thesis
    by (intro conjI allI impI pop ins clear rep_push_back rep_push_front rep_find_if rep_drain rep_splice
        rep_move_construct rep_move_assign rep_elements assms)
qed

theorem linked_list_implements_list_witness:
  "rep (ll_push_back fresh_store 0 7) ((\<lambda>_. [])(0 := [7]))
   \<and> rep (ll_insert_after (ll_push_front (ll_push_back fresh_store 0 7) 0 8) 0 (Elem 8) 9) ((\<lambda>_. [])(0 := [8, 9, 7]))
   \<and> ll_drain (ll_push_front (ll_push_back fresh_store 0 7) 0 8) 0
       = Some ([8, 7], ll_init (ll_push_front (ll_push_back fresh_store 0 7) 0 8) 0)"
proof -
  have 1: "rep (ll_push_back fresh_store 0 7) ((\<lambda>_. [])(0 := [7]))"
    using linked_list_implements_list [OF rep_fresh_store, of 7 0 1] by (simp add: fresh_def)
  have 2: "rep (ll_push_front (ll_push_back fresh_store 0 7) 0 8) ((\<lambda>_. [])(0 := [8, 7]))"
    using linked_list_implements_list [OF 1, of 8 0 1] by (simp add: fresh_def)
  have f: "fresh ((\<lambda>_. [])(0 := [8, 7])) 9" by (simp add: fresh_def)
  note all = linked_list_implements_list [OF 2 f zero_neq_one]
  have "rep (ll_insert_after (ll_push_front (ll_push_back fresh_store 0 7) 0 8) 0 (Elem 8) 9) ((\<lambda>_. [])(0 := [8, 9, 7]))"
    using all [THEN conjunct2, THEN conjunct2, THEN conjunct1, rule_format, of "[8]" "[7]"] by simp
  with 1 all show ?thesis by simp
qed

section \<open>The interface the queues of an actor rely on\<close>

text \<open>
  What a client of the list relies on: a representation relation between the store and the contents
  of all lists, and one simulation law per operation. \<open>at l xs\<close> is the position behind the prefix
  \<open>xs\<close> of list \<open>l\<close>; it stays valid when elements are inserted behind it.
\<close>

locale intrusive_list =
  fixes irep :: "'s \<Rightarrow> (nat \<Rightarrow> addr list) \<Rightarrow> bool"
    and at :: "nat \<Rightarrow> addr list \<Rightarrow> 'p"
    and before_end :: "'s \<Rightarrow> nat \<Rightarrow> 'p"
    and insert_after :: "'s \<Rightarrow> nat \<Rightarrow> 'p \<Rightarrow> addr \<Rightarrow> 's"
  assumes before_end_at: "irep s C \<Longrightarrow> before_end s l = at l (C l)"
    and insert_after_rep:
      "irep s C \<Longrightarrow> C l = xs @ ys \<Longrightarrow> fresh C x \<Longrightarrow>
       irep (insert_after s l (at l xs) x) (C(l := xs @ x # ys))"
begin

lemma insert_step:
  assumes "irep s C" "C l = xs @ ys" "fresh C z"
  obtains C' where "irep (insert_after s l (at l xs) z) C'" "C' l = xs @ z # ys"
    "\<And>m. m \<noteq> l \<Longrightarrow> C' m = C m" "\<And>y. y \<noteq> z \<Longrightarrow> fresh C y \<Longrightarrow> fresh C' y"
proof
  show "irep (insert_after s l (at l xs) z) (C(l := xs @ z # ys))"
    by (rule insert_after_rep [OF assms])
  show "fresh (C(l := xs @ z # ys)) y" if "y \<noteq> z" "fresh C y" for y
    using that assms(2) by (auto simp: fresh_def) (metis Un_iff set_append)+
qed simp_all

text \<open>
  Distributing a last-in-first-out batch over two lists, always inserting behind the old last
  element, appends the two halves of the batch in first-in-first-out order.
\<close>

lemma insert_split:
  "irep s C \<Longrightarrow> u \<noteq> n \<Longrightarrow> C u = us @ us' \<Longrightarrow> C n = ns @ ns' \<Longrightarrow> distinct zs \<Longrightarrow>
   \<forall>z\<in>set zs. fresh C z \<Longrightarrow>
   \<exists>C'. irep (fold (\<lambda>x s. if P x then insert_after s u (at u us) x
                         else insert_after s n (at n ns) x) zs s) C'
     \<and> C' u = us @ rev (filter P zs) @ us'
     \<and> C' n = ns @ rev (filter (\<lambda>x. \<not> P x) zs) @ ns'
     \<and> (\<forall>m. m \<noteq> u \<longrightarrow> m \<noteq> n \<longrightarrow> C' m = C m)"
proof (induction zs arbitrary: s C us' ns')
  case Nil
  then show ?case by auto
next
  case (Cons z zs)
  show ?case
  proof (cases "P z")
    case True
    obtain C' where C': "irep (insert_after s u (at u us) z) C'" "C' u = us @ z # us'"
      "\<And>m. m \<noteq> u \<Longrightarrow> C' m = C m" "\<And>y. y \<noteq> z \<Longrightarrow> fresh C y \<Longrightarrow> fresh C' y"
      using insert_step [of s C u us us' z] Cons.prems by auto
    have "C' n = ns @ ns'" "\<forall>y\<in>set zs. fresh C' y"
      using C'(3,4) Cons.prems by (simp, metis distinct.simps(2) list.set_intros(2))
    from Cons.IH [OF C'(1) Cons.prems(2) C'(2) this(1) _ this(2)] Cons.prems(5) True C'(3)
    show ?thesis by auto
  next
    case False
    obtain C' where C': "irep (insert_after s n (at n ns) z) C'" "C' n = ns @ z # ns'"
      "\<And>m. m \<noteq> n \<Longrightarrow> C' m = C m" "\<And>y. y \<noteq> z \<Longrightarrow> fresh C y \<Longrightarrow> fresh C' y"
      using insert_step [of s C n ns ns' z] Cons.prems by auto
    have "C' u = us @ us'" "\<forall>y\<in>set zs. fresh C' y"
      using C'(3,4) Cons.prems by (simp, metis distinct.simps(2) list.set_intros(2))
    from Cons.IH [OF C'(1) Cons.prems(2) this(1) C'(2) _ this(2)] Cons.prems(5) False C'(3)
    show ?thesis by auto
  qed
qed

end

interpretation ll: intrusive_list rep "\<lambda>l xs. last_ptr (Head l) xs" ll_before_end ll_insert_after
  by unfold_locales (rule rep_before_end, assumption, rule rep_insert_after)

end
