(* ===== verification/Lifo_Inbox.thy ===== *)
theory Lifo_Inbox
  imports Linked_List
begin

text \<open>
  The lock-free inbox of an actor (\<^verbatim>\<open>libcaf_core/caf/intrusive/lifo_inbox.hpp\<close>): any number of
  writers push with a compare-and-swap loop, one reader takes the whole stack, blocks and closes.
  The first part models the operations run without interference; the second part models every
  atomic access of the writers and the reader as a step of its own and lets them interleave.
\<close>

section \<open>The operations\<close>

datatype inbox_result = success | unblocked_reader | queue_closed

text \<open>The atomic \<open>stack_\<close> holds a node pointer or one of the three tags; the empty tag is null.\<close>

datatype stack_val = Empty_tag | Closed_tag | Blocked_tag | Ptr addr

fun to_ptr :: "stack_val \<Rightarrow> node_ptr" where
  "to_ptr (Ptr x) = Elem x"
| "to_ptr _ = Null"

definition link_front :: "stack_val \<Rightarrow> addr \<Rightarrow> list_store \<Rightarrow> list_store" where
  "link_front e x s = set_next (Elem x) (if e \<noteq> Blocked_tag then to_ptr e else Null) s"

definition push_result :: "stack_val \<Rightarrow> inbox_result" where
  "push_result e = (if e = Blocked_tag then unblocked_reader else success)"

definition inbox_push_front ::
  "stack_val \<Rightarrow> list_store \<Rightarrow> addr \<Rightarrow> inbox_result \<times> stack_val \<times> list_store" where
  "inbox_push_front e s x =
     (if e \<noteq> Closed_tag then (push_result e, Ptr x, link_front e x s)
      else (queue_closed, e, s))"

definition inbox_empty :: "stack_val \<Rightarrow> bool option" where
  "inbox_empty e = (if e = Closed_tag \<or> e = Blocked_tag then None else Some (e = Empty_tag))"

definition inbox_closed :: "stack_val \<Rightarrow> bool" where
  "inbox_closed e \<longleftrightarrow> e = Closed_tag"

definition inbox_blocked :: "stack_val \<Rightarrow> bool" where
  "inbox_blocked e \<longleftrightarrow> e = Blocked_tag"

definition inbox_try_block :: "stack_val \<Rightarrow> bool \<times> stack_val" where
  "inbox_try_block e = (if e = Empty_tag then (True, Blocked_tag) else (False, e))"

definition inbox_try_unblock :: "stack_val \<Rightarrow> bool \<times> stack_val" where
  "inbox_try_unblock e = (if e = Blocked_tag then (True, Empty_tag) else (False, e))"

text \<open>\<open>None\<close> is a violated \<^verbatim>\<open>CAF_ASSERT\<close>.\<close>

definition inbox_take_head :: "stack_val \<Rightarrow> stack_val \<Rightarrow> (node_ptr \<times> stack_val) option" where
  "inbox_take_head e new_head =
     (if new_head \<noteq> Closed_tag \<and> new_head \<noteq> Empty_tag then None
      else if e = Closed_tag then None
      else if e = Blocked_tag \<and> new_head \<noteq> Closed_tag then None
      else if e = new_head then Some (Null, e)
      else if e = Empty_tag \<or> e = Blocked_tag
        then (if new_head \<noteq> Closed_tag then None else Some (Null, new_head))
      else Some (to_ptr e, new_head))"

partial_function (option) inbox_close_from ::
  "list_store \<Rightarrow> addr list \<Rightarrow> node_ptr \<Rightarrow> addr list option" where
  "inbox_close_from s acc ptr =
     (if ptr = Null then Some acc
      else case ptr of
        Elem x \<Rightarrow> let next = nxt s ptr in inbox_close_from s (acc @ [x]) next
      | _ \<Rightarrow> None)"

text \<open>\<open>close\<close> returns the elements in the order in which \<open>f\<close> receives them.\<close>

definition inbox_close :: "stack_val \<Rightarrow> list_store \<Rightarrow> (addr list \<times> stack_val) option" where
  "inbox_close e s =
     (case inbox_take_head e Closed_tag of
        None \<Rightarrow> None
      | Some (ptr, e') \<Rightarrow> map_option (\<lambda>xs. (xs, e')) (inbox_close_from s [] ptr))"

section \<open>Interleaved writers and reader\<close>

datatype writer_pc =
    Idle
  | Called addr
  | Loaded addr stack_val
  | Linked addr stack_val
  | Returned inbox_result

datatype reader_pc = R_idle | Taking stack_val stack_val

text \<open>
  Besides the inbox, the system state holds the allocated elements, the elements the reader has
  taken and not yet freed, and a log: the elements in the order of the successful compare-and-swap
  operations, the elements the reader received in first-in-first-out order, the results that calls of
  \<open>push_front\<close> returned to the writers, and how often the reader blocked and left the blocked state by
  itself.
\<close>

record inbox_sys =
  stack :: stack_val
  store :: list_store
  pc :: "nat \<Rightarrow> writer_pc"
  reader :: reader_pc
  alloc :: "addr set"
  held :: "addr set"
  pushed :: "addr list"
  fetched :: "addr list"
  results :: "inbox_result list"
  blocks :: nat
  unblocks :: nat

definition init_sys :: inbox_sys where
  "init_sys = \<lparr>stack = Empty_tag, store = fresh_store, pc = (\<lambda>_. Idle), reader = R_idle,
     alloc = {}, held = {}, pushed = [], fetched = [], results = [], blocks = 0, unblocks = 0\<rparr>"

fun pending :: "writer_pc \<Rightarrow> addr option" where
  "pending (Called x) = Some x"
| "pending (Loaded x e) = Some x"
| "pending (Linked x e) = Some x"
| "pending _ = None"

fun stack_chain :: "(node_ptr \<Rightarrow> node_ptr) \<Rightarrow> node_ptr \<Rightarrow> addr list \<Rightarrow> bool" where
  "stack_chain f p [] \<longleftrightarrow> p = Null"
| "stack_chain f p (x # xs) \<longleftrightarrow> p = Elem x \<and> stack_chain f (f p) xs"

text \<open>The loop head of \<open>push_front\<close>: continue with the observed value unless the inbox is closed.\<close>

definition observe :: "nat \<Rightarrow> addr \<Rightarrow> inbox_sys \<Rightarrow> inbox_sys" where
  "observe t x s =
     (if stack s = Closed_tag
      then s\<lparr>pc := (pc s)(t := Returned queue_closed), alloc := alloc s - {x},
             results := results s @ [queue_closed]\<rparr>
      else s\<lparr>pc := (pc s)(t := Loaded x (stack s))\<rparr>)"

inductive inbox_step :: "inbox_sys \<Rightarrow> inbox_sys \<Rightarrow> bool" where
  call: "pending (pc s t) = None \<Longrightarrow> x \<notin> alloc s \<Longrightarrow>
    inbox_step s (s\<lparr>pc := (pc s)(t := Called x), alloc := insert x (alloc s)\<rparr>)"
| load: "pc s t = Called x \<Longrightarrow> inbox_step s (observe t x s)"
| link: "pc s t = Loaded x e \<Longrightarrow>
    inbox_step s (s\<lparr>pc := (pc s)(t := Linked x e), store := link_front e x (store s)\<rparr>)"
| cas_ok: "pc s t = Linked x e \<Longrightarrow> stack s = e \<Longrightarrow>
    inbox_step s (s\<lparr>pc := (pc s)(t := Returned (push_result e)), stack := Ptr x,
      pushed := pushed s @ [x], results := results s @ [push_result e]\<rparr>)"
| cas_fail: "pc s t = Linked x e \<Longrightarrow> stack s \<noteq> e \<Longrightarrow> inbox_step s (observe t x s)"
| block: "reader s = R_idle \<Longrightarrow> stack s = Empty_tag \<Longrightarrow>
    inbox_step s (s\<lparr>stack := Blocked_tag, blocks := blocks s + 1\<rparr>)"
| unblock: "reader s = R_idle \<Longrightarrow> stack s = Blocked_tag \<Longrightarrow>
    inbox_step s (s\<lparr>stack := Empty_tag, unblocks := unblocks s + 1\<rparr>)"
| take_load: "reader s = R_idle \<Longrightarrow> new = Empty_tag \<or> new = Closed_tag \<Longrightarrow>
    stack s \<noteq> Closed_tag \<Longrightarrow> stack s \<noteq> Blocked_tag \<or> new = Closed_tag \<Longrightarrow> stack s \<noteq> new \<Longrightarrow>
    inbox_step s (s\<lparr>reader := Taking new (stack s)\<rparr>)"
| take_ok: "reader s = Taking new e \<Longrightarrow> stack s = e \<Longrightarrow>
    stack_chain (nxt (store s)) (to_ptr e) xs \<Longrightarrow>
    inbox_step s (s\<lparr>reader := R_idle, stack := new, held := held s \<union> set xs,
      fetched := fetched s @ rev xs, unblocks := unblocks s + (if e = Blocked_tag then 1 else 0)\<rparr>)"
| take_fail: "reader s = Taking new e \<Longrightarrow> stack s \<noteq> e \<Longrightarrow>
    inbox_step s (s\<lparr>reader := (if stack s = new then R_idle else Taking new (stack s))\<rparr>)"
| free: "x \<in> held s \<Longrightarrow> inbox_step s (s\<lparr>held := held s - {x}, alloc := alloc s - {x}\<rparr>)"
| relink: "x \<in> held s \<Longrightarrow>
    inbox_step s (s\<lparr>store := set_next (Elem x) q (store s)\<rparr>)"

inductive inbox_reachable :: "inbox_sys \<Rightarrow> bool" where
  start: "inbox_reachable init_sys"
| step: "inbox_reachable s \<Longrightarrow> inbox_step s s' \<Longrightarrow> inbox_reachable s'"

section \<open>The invariant\<close>

definition stack_inv :: "inbox_sys \<Rightarrow> addr list \<Rightarrow> bool" where
  "stack_inv s xs \<longleftrightarrow>
     stack_chain (nxt (store s)) (to_ptr (stack s)) xs \<and> distinct xs
     \<and> set xs \<subseteq> alloc s \<and> held s \<subseteq> alloc s \<and> set xs \<inter> held s = {}
     \<and> pushed s = fetched s @ rev xs"

fun writer_ok :: "inbox_sys \<Rightarrow> addr list \<Rightarrow> writer_pc \<Rightarrow> bool" where
  "writer_ok s xs (Called x) \<longleftrightarrow> x \<in> alloc s \<and> x \<notin> set xs \<and> x \<notin> held s"
| "writer_ok s xs (Loaded x e) \<longleftrightarrow> x \<in> alloc s \<and> x \<notin> set xs \<and> x \<notin> held s \<and> e \<noteq> Closed_tag"
| "writer_ok s xs (Linked x e) \<longleftrightarrow> x \<in> alloc s \<and> x \<notin> set xs \<and> x \<notin> held s \<and> e \<noteq> Closed_tag
     \<and> nxt (store s) (Elem x) = (if e \<noteq> Blocked_tag then to_ptr e else Null)"
| "writer_ok s xs _ \<longleftrightarrow> True"

definition writer_inv :: "inbox_sys \<Rightarrow> addr list \<Rightarrow> bool" where
  "writer_inv s xs \<longleftrightarrow>
     (\<forall>t. writer_ok s xs (pc s t))
     \<and> (\<forall>t u x. pending (pc s t) = Some x \<longrightarrow> pending (pc s u) = Some x \<longrightarrow> t = u)"

definition reader_inv :: "inbox_sys \<Rightarrow> bool" where
  "reader_inv s \<longleftrightarrow>
     (\<forall>new e. reader s = Taking new e \<longrightarrow>
        (new = Empty_tag \<or> new = Closed_tag) \<and> stack s \<noteq> Closed_tag \<and> e \<noteq> Closed_tag
        \<and> (new = Empty_tag \<longrightarrow> stack s \<noteq> Blocked_tag \<and> (\<exists>a. e = Ptr a)))
     \<and> blocks s = count_list (results s) unblocked_reader + unblocks s + (if stack s = Blocked_tag then 1 else 0)"

definition inbox_inv :: "inbox_sys \<Rightarrow> addr list \<Rightarrow> bool" where
  "inbox_inv s xs \<longleftrightarrow> stack_inv s xs \<and> writer_inv s xs \<and> reader_inv s"

lemmas inv_defs = inbox_inv_def stack_inv_def writer_inv_def reader_inv_def

lemma stack_chain_upd [simp]:
  "a \<notin> set xs \<Longrightarrow> stack_chain (f(Elem a := q)) p xs = stack_chain f p xs"
  by (induction xs arbitrary: p) auto

lemma stack_val_Ptr:
  "e \<noteq> Closed_tag \<Longrightarrow> e \<noteq> Blocked_tag \<Longrightarrow> e \<noteq> Empty_tag \<Longrightarrow> \<exists>a. e = Ptr a"
  by (cases e) auto

lemma stack_chain_unique: "stack_chain f p xs \<Longrightarrow> stack_chain f p ys \<Longrightarrow> xs = ys"
proof (induction xs arbitrary: p ys)
  case Nil
  then show ?case by (cases ys) auto
next
  case (Cons x xs)
  then show ?case by (cases ys) auto
qed

lemma stack_chain_Null [simp]: "stack_chain f Null xs \<longleftrightarrow> xs = []"
  by (cases xs) auto

lemma nxt_link_front [simp]:
  "nxt (link_front e x s) = (nxt s)(Elem x := (if e \<noteq> Blocked_tag then to_ptr e else Null))"
  by (simp add: link_front_def)

lemma writer_ok_pending:
  "writer_ok s xs w \<Longrightarrow> pending w = Some x \<Longrightarrow> x \<in> alloc s \<and> x \<notin> set xs \<and> x \<notin> held s"
  by (cases w) auto

lemma writer_ok_mono:
  assumes "writer_ok s xs w"
    and "\<And>x. pending w = Some x \<Longrightarrow> x \<in> alloc s' \<and> x \<notin> set ys \<and> x \<notin> held s'"
    and "\<And>x e. w = Linked x e \<Longrightarrow> nxt (store s') (Elem x) = nxt (store s) (Elem x)"
  shows "writer_ok s' ys w"
  using assms by (cases w) auto

lemma inv_pendingD:
  assumes "inbox_inv s xs" "pending (pc s t) = Some x"
  shows "x \<in> alloc s" "x \<notin> set xs" "x \<notin> held s"
    and "u \<noteq> t \<Longrightarrow> pending (pc s u) = Some y \<Longrightarrow> y \<noteq> x"
  using assms writer_ok_pending [of s xs "pc s t" x]
  unfolding inbox_inv_def writer_inv_def by metis+

lemma inv_writer_ok: "inbox_inv s xs \<Longrightarrow> writer_ok s xs (pc s t)"
  by (simp add: inbox_inv_def writer_inv_def)

text \<open>A step of writer \<open>t\<close> leaves the other writers' knowledge intact.\<close>

lemma writer_inv_step:
  assumes "inbox_inv s xs" "writer_ok s' ys (pc s' t)"
    and "\<And>u. u \<noteq> t \<Longrightarrow> pc s' u = pc s u"
    and "\<And>u x. u \<noteq> t \<Longrightarrow> pending (pc s u) = Some x \<Longrightarrow>
      x \<in> alloc s' \<and> x \<notin> set ys \<and> x \<notin> held s' \<and> nxt (store s') (Elem x) = nxt (store s) (Elem x)"
    and "\<And>u x. u \<noteq> t \<Longrightarrow> pending (pc s u) = Some x \<Longrightarrow> pending (pc s' t) \<noteq> Some x"
  shows "writer_inv s' ys"
  unfolding writer_inv_def
proof (intro conjI allI impI)
  fix u show "writer_ok s' ys (pc s' u)"
  proof (cases "u = t")
    case False
    then have "writer_ok s' ys (pc s u)"
      by (intro writer_ok_mono [OF inv_writer_ok [OF assms(1), of u]]) (auto dest: assms(4))
    with False assms(3) show ?thesis by simp
  qed (use assms(2) in simp)
next
  fix u v x assume "pending (pc s' u) = Some x" "pending (pc s' v) = Some x"
  then show "u = v"
    using assms(1,3,5) unfolding inbox_inv_def writer_inv_def by metis
qed

lemma inv_init: "inbox_inv init_sys []"
  by (simp add: inv_defs init_sys_def)

lemma inv_call:
  assumes "inbox_inv s xs" "pending (pc s t) = None" "x \<notin> alloc s"
  shows "inbox_inv (s\<lparr>pc := (pc s)(t := Called x), alloc := insert x (alloc s)\<rparr>) xs"
proof -
  have x: "x \<notin> set xs" "x \<notin> held s"
    using assms by (auto simp: inbox_inv_def stack_inv_def)
  have "writer_inv (s\<lparr>pc := (pc s)(t := Called x), alloc := insert x (alloc s)\<rparr>) xs"
    by (rule writer_inv_step [OF assms(1), where t = t])
      (use x assms(3) in \<open>auto dest: inv_pendingD [OF assms(1)]\<close>)
  with assms x show ?thesis
    by (auto simp: inbox_inv_def stack_inv_def reader_inv_def)
qed

lemma inv_observe:
  assumes "inbox_inv s xs" "pending (pc s t) = Some x"
  shows "inbox_inv (observe t x s) xs"
proof -
  note x = inv_pendingD [OF assms]
  have "writer_inv (observe t x s) xs"
    by (rule writer_inv_step [OF assms(1), where t = t])
      (use x in \<open>auto simp: observe_def dest: inv_pendingD [OF assms(1)]\<close>)
  with assms x show ?thesis
    by (auto simp: inbox_inv_def stack_inv_def reader_inv_def observe_def)
qed

lemma inv_link:
  assumes "inbox_inv s xs" "pc s t = Loaded x e"
  shows "inbox_inv (s\<lparr>pc := (pc s)(t := Linked x e), store := link_front e x (store s)\<rparr>) xs"
proof -
  have p: "pending (pc s t) = Some x"
    using assms(2) by simp
  note x = inv_pendingD [OF assms(1) p]
  have "writer_inv (s\<lparr>pc := (pc s)(t := Linked x e), store := link_front e x (store s)\<rparr>) xs"
    by (rule writer_inv_step [OF assms(1), where t = t])
      (use x inv_writer_ok [OF assms(1), of t] assms(2) in
        \<open>auto dest: inv_pendingD [OF assms(1)]\<close>)
  with assms x show ?thesis
    by (auto simp: inbox_inv_def stack_inv_def reader_inv_def)
qed

lemma inv_cas:
  assumes "inbox_inv s xs" "pc s t = Linked x e" "stack s = e"
  shows "inbox_inv (s\<lparr>pc := (pc s)(t := Returned (push_result e)), stack := Ptr x,
      pushed := pushed s @ [x], results := results s @ [push_result e]\<rparr>) (x # xs)"
    (is "inbox_inv ?s' _")
proof -
  have p: "pending (pc s t) = Some x"
    using assms(2) by simp
  note x = inv_pendingD [OF assms(1) p]
  have "writer_inv ?s' (x # xs)"
    by (rule writer_inv_step [OF assms(1), where t = t])
      (use x in \<open>auto dest: inv_pendingD [OF assms(1)]\<close>)
  moreover have "stack_inv ?s' (x # xs)"
    using assms x inv_writer_ok [OF assms(1), of t]
    by (cases e) (auto simp: inbox_inv_def stack_inv_def)
  moreover have "reader_inv ?s'"
    using assms by (auto simp: inbox_inv_def reader_inv_def push_result_def split: if_splits)
  ultimately show ?thesis
    by (simp add: inbox_inv_def)
qed

lemma inv_take:
  assumes "inbox_inv s xs" "reader s = Taking new e" "stack s = e"
    "stack_chain (nxt (store s)) (to_ptr e) ys"
  shows "inbox_inv (s\<lparr>reader := R_idle, stack := new, held := held s \<union> set ys,
      fetched := fetched s @ rev ys, unblocks := unblocks s + (if e = Blocked_tag then 1 else 0)\<rparr>) []"
    (is "inbox_inv ?s' _")
proof -
  have ys: "ys = xs"
    using assms by (auto simp: inbox_inv_def stack_inv_def intro: stack_chain_unique)
  have new: "to_ptr new = Null" "new \<noteq> Blocked_tag" "new = Empty_tag \<longrightarrow> e \<noteq> Blocked_tag"
    using assms(1-3) by (auto simp: inbox_inv_def reader_inv_def)
  have "writer_inv ?s' []"
    unfolding writer_inv_def
  proof (intro conjI allI impI)
    fix t show "writer_ok ?s' [] (pc ?s' t)"
      by (rule writer_ok_mono [of s xs]) (use ys in \<open>auto simp: inv_writer_ok [OF assms(1)]
        dest: inv_pendingD [OF assms(1)]\<close>)
  qed (use assms(1) in \<open>auto simp: inbox_inv_def writer_inv_def\<close>)
  with new ys assms show ?thesis
    by (auto simp: inbox_inv_def stack_inv_def reader_inv_def)
qed

lemma inv_frame:
  assumes "inbox_inv s xs" "stack_inv s' xs" "reader_inv s'" "pc s' = pc s"
    "\<And>x. x \<in> alloc s \<Longrightarrow> x \<notin> held s \<Longrightarrow> x \<in> alloc s' \<and> x \<notin> held s'
       \<and> nxt (store s') (Elem x) = nxt (store s) (Elem x)"
  shows "inbox_inv s' xs"
proof -
  have "writer_ok s' xs (pc s t)" for t
  proof (rule writer_ok_mono [OF inv_writer_ok [OF assms(1)]])
    fix x assume p: "pending (pc s t) = Some x"
    with assms(5) inv_pendingD [OF assms(1) p] show "x \<in> alloc s' \<and> x \<notin> set xs \<and> x \<notin> held s'"
      by blast
  next
    fix x e assume "pc s t = Linked x e"
    then have p: "pending (pc s t) = Some x" by simp
    with assms(5) inv_pendingD [OF assms(1) p] show "nxt (store s') (Elem x) = nxt (store s) (Elem x)"
      by blast
  qed
  with assms show ?thesis
    by (auto simp: inbox_inv_def writer_inv_def)
qed

lemma step_inv:
  assumes "inbox_step s s'" "inbox_inv s xs"
  shows "\<exists>ys. inbox_inv s' ys"
  using assms(1)
proof (cases rule: inbox_step.cases)
  case (call t x)
  with inv_call [OF assms(2)] show ?thesis by blast
next
  case (load t x)
  with inv_observe [OF assms(2), of t x] show ?thesis by auto
next
  case (link t x e)
  with inv_link [OF assms(2)] show ?thesis by blast
next
  case (cas_ok t x e)
  with inv_cas [OF assms(2)] show ?thesis by blast
next
  case (cas_fail t x e)
  with inv_observe [OF assms(2), of t x] show ?thesis by auto
next
  case (take_ok new e ys)
  with inv_take [OF assms(2)] show ?thesis by blast
next
  case (take_load new)
  with assms(2) show ?thesis
    by (intro exI [of _ xs] inv_frame [OF assms(2)])
      (auto simp: inbox_inv_def stack_inv_def reader_inv_def intro: stack_val_Ptr split: if_splits)
next
  case (take_fail new e)
  with assms(2) show ?thesis
    by (intro exI [of _ xs] inv_frame [OF assms(2)])
      (auto simp: inbox_inv_def stack_inv_def reader_inv_def intro: stack_val_Ptr split: if_splits)
next
  case (relink x q)
  moreover from this assms(2) have "x \<notin> set xs"
    by (auto simp: inbox_inv_def stack_inv_def)
  ultimately show ?thesis
    using assms(2)
    by (intro exI [of _ xs] inv_frame [OF assms(2)])
      (auto simp: inbox_inv_def stack_inv_def reader_inv_def)
next
  case block
  with assms(2) show ?thesis
    by (intro exI [of _ xs] inv_frame [OF assms(2)])
      (auto simp: inbox_inv_def stack_inv_def reader_inv_def)
next
  case unblock
  with assms(2) show ?thesis
    by (intro exI [of _ xs] inv_frame [OF assms(2)])
      (auto simp: inbox_inv_def stack_inv_def reader_inv_def)
next
  case (free x)
  with assms(2) show ?thesis
    by (intro exI [of _ xs] inv_frame [OF assms(2)])
      (auto simp: inbox_inv_def stack_inv_def reader_inv_def)
qed

lemma reachable_inv: "inbox_reachable s \<Longrightarrow> \<exists>xs. inbox_inv s xs"
  by (induction rule: inbox_reachable.induct) (auto intro: inv_init dest: step_inv)

section \<open>The operations are runs of steps without interference\<close>

lemma push_front_solo:
  assumes "pc s t = Called x" "inbox_push_front (stack s) (store s) x = (r, e', st)"
  shows "\<exists>s'. inbox_step\<^sup>*\<^sup>* s s' \<and> pc s' t = Returned r \<and> stack s' = e' \<and> store s' = st"
proof (cases "stack s = Closed_tag")
  case True
  then have "inbox_step s (observe t x s)"
    using assms(1) by (rule_tac inbox_step.load)
  with True assms(2) show ?thesis
    by (intro exI [of _ "observe t x s"]) (auto simp: observe_def inbox_push_front_def)
next
  case False
  define s1 where "s1 = observe t x s"
  define s2 where "s2 = s1\<lparr>pc := (pc s1)(t := Linked x (stack s)),
    store := link_front (stack s) x (store s1)\<rparr>"
  define s3 where "s3 = s2\<lparr>pc := (pc s2)(t := Returned (push_result (stack s))), stack := Ptr x,
    pushed := pushed s2 @ [x], results := results s2 @ [push_result (stack s)]\<rparr>"
  have "inbox_step s s1"
    unfolding s1_def using assms(1) by (rule inbox_step.load)
  moreover have "inbox_step s1 s2"
    unfolding s2_def by (rule inbox_step.link) (use False in \<open>simp add: s1_def observe_def\<close>)
  moreover have "inbox_step s2 s3"
    unfolding s3_def by (rule inbox_step.cas_ok) (use False in \<open>simp_all add: s2_def s1_def observe_def\<close>)
  ultimately have "inbox_step\<^sup>*\<^sup>* s s3"
    by (meson converse_rtranclp_into_rtranclp rtranclp.rtrancl_refl)
  with False assms(2) show ?thesis
    by (intro exI [of _ s3]) (auto simp: s3_def s2_def s1_def observe_def inbox_push_front_def)
qed

lemma close_from_chain: "stack_chain (nxt s) p xs \<Longrightarrow> inbox_close_from s acc p = Some (acc @ xs)"
proof (induction xs arbitrary: acc p)
  case Nil
  then show ?case by (simp add: inbox_close_from.simps)
next
  case (Cons x xs)
  then have "inbox_close_from s (acc @ [x]) (nxt s (Elem x)) = Some ((acc @ [x]) @ xs)"
    by (intro Cons.IH) auto
  with Cons.prems show ?case by (simp add: inbox_close_from.simps [of s acc "Elem x"])
qed

lemma inbox_close_rep:
  "e \<noteq> Closed_tag \<Longrightarrow> stack_chain (nxt s) (to_ptr e) xs \<Longrightarrow> inbox_close e s = Some (xs, Closed_tag)"
  by (cases e) (auto simp: inbox_close_def inbox_take_head_def close_from_chain)

section \<open>Properties\<close>

text \<open>
  C1: no message is lost, duplicated or reordered under any interleaving of writers and reader. In
  every reachable state the stack is a finite chain of elements, and the elements whose push
  succeeded, in the order of their compare-and-swap, are exactly the elements the reader received so
  far followed by the elements still in the inbox, oldest first.
\<close>

theorem inbox_delivers_in_push_order:
  assumes "inbox_reachable s"
  shows "\<exists>xs. stack_chain (nxt (store s)) (to_ptr (stack s)) xs
      \<and> pushed s = fetched s @ rev xs \<and> distinct xs \<and> set xs \<inter> held s = {}"
  using reachable_inv [OF assms] by (auto simp: inbox_inv_def stack_inv_def)

lemma sample_run:
  "\<exists>s. inbox_reachable s \<and> pushed s = [7] \<and> fetched s = [] \<and> stack s = Ptr 7
     \<and> blocks s = 1 \<and> unblocks s = 0 \<and> results s = [unblocked_reader]"
proof -
  define s1 where "s1 = init_sys\<lparr>stack := Blocked_tag, blocks := blocks init_sys + 1\<rparr>"
  define s2 where "s2 = s1\<lparr>pc := (pc s1)(0 := Called 7), alloc := insert 7 (alloc s1)\<rparr>"
  have "inbox_reachable s1"
    unfolding s1_def
    by (rule inbox_reachable.step [OF inbox_reachable.start], rule inbox_step.block)
      (simp_all add: init_sys_def)
  moreover have "inbox_step s1 s2"
    unfolding s2_def by (rule inbox_step.call) (simp_all add: s1_def init_sys_def)
  ultimately have 2: "inbox_reachable s2"
    by (rule inbox_reachable.step)
  define s3 where "s3 = observe 0 7 s2"
  define s4 where "s4 = s3\<lparr>pc := (pc s3)(0 := Linked 7 Blocked_tag),
    store := link_front Blocked_tag 7 (store s3)\<rparr>"
  define s5 where "s5 = s4\<lparr>pc := (pc s4)(0 := Returned (push_result Blocked_tag)), stack := Ptr 7,
    pushed := pushed s4 @ [7], results := results s4 @ [push_result Blocked_tag]\<rparr>"
  note defs = s1_def s2_def s3_def s4_def s5_def observe_def init_sys_def
  have "inbox_step s2 s3"
    unfolding s3_def by (rule inbox_step.load) (simp add: s2_def)
  with 2 have 3: "inbox_reachable s3" by (rule inbox_reachable.step)
  have "inbox_step s3 s4"
    unfolding s4_def by (rule inbox_step.link) (simp add: defs)
  with 3 have 4: "inbox_reachable s4" by (rule inbox_reachable.step)
  have "inbox_step s4 s5"
    unfolding s5_def by (rule inbox_step.cas_ok) (simp_all add: defs)
  with 4 have "inbox_reachable s5" by (rule inbox_reachable.step)
  then show ?thesis
    by (intro exI [of _ s5]) (simp add: defs push_result_def)
qed

theorem inbox_delivers_in_push_order_witness:
  "\<exists>s xs. inbox_reachable s \<and> pushed s = [7] \<and> xs \<noteq> []
     \<and> stack_chain (nxt (store s)) (to_ptr (stack s)) xs \<and> pushed s = fetched s @ rev xs"
proof -
  obtain s where s: "inbox_reachable s" "pushed s = [7]" "fetched s = []"
    using sample_run by blast
  with inbox_delivers_in_push_order [OF s(1)] show ?thesis
    by fastforce
qed

text \<open>
  C2: wake-ups match blocks. The number of times the reader blocked the inbox is the number of pushes
  that returned \<open>unblocked_reader\<close> to their writer, plus the number of times the reader left the blocked
  state by itself, plus one if the inbox is blocked now. So for each block exactly one of these holds: it
  is still blocked, exactly one writer was told to wake the reader up, or the reader itself ended it; and
  a writer is never told to wake up a reader that did not block.
\<close>

theorem inbox_one_wakeup_per_block:
  assumes "inbox_reachable s"
  shows "blocks s = count_list (results s) unblocked_reader + unblocks s
      + (if stack s = Blocked_tag then 1 else 0)"
  using reachable_inv [OF assms] by (auto simp: inbox_inv_def reader_inv_def)

theorem inbox_one_wakeup_per_block_witness:
  "\<exists>s. inbox_reachable s \<and> blocks s = 1 \<and> unblocks s = 0 \<and> stack s \<noteq> Blocked_tag
     \<and> results s = [unblocked_reader]
     \<and> blocks s = count_list (results s) unblocked_reader + unblocks s
         + (if stack s = Blocked_tag then 1 else 0)"
proof -
  obtain s where s: "inbox_reachable s" "blocks s = 1" "unblocks s = 0" "stack s = Ptr 7"
    "results s = [unblocked_reader]"
    using sample_run by blast
  with inbox_one_wakeup_per_block [OF s(1)] show ?thesis
    by (intro exI [of _ s]) simp
qed

end
