(* ===== verification/Message_Id.thy ===== *)
theory Message_Id
  imports CAF_Prelude
begin

text \<open>
  Message identifiers (\<^verbatim>\<open>libcaf_core/caf/message_id.hpp\<close>): a 64-bit value that packs a response
  flag, an answered flag, a two-bit category and a 60-bit request number. All operations are kept at
  64 bits, so every statement below is about the bits the C++ code really moves.
\<close>

section \<open>Model\<close>

datatype message_priority = high | normal

record message_id =
  mid_value :: u64

definition response_flag_mask :: u64 where
  "response_flag_mask = 0x8000000000000000"

definition answered_flag_mask :: u64 where
  "answered_flag_mask = 0x4000000000000000"

definition category_flag_mask :: u64 where
  "category_flag_mask = 0x3000000000000000"

definition request_id_mask :: u64 where
  "request_id_mask = 0x0FFFFFFFFFFFFFFF"

definition urgent_message_category :: u64 where
  "urgent_message_category = 0"

definition normal_message_category :: u64 where
  "normal_message_category = 1"

definition category_offset :: nat where
  "category_offset = 60"

definition default_async_value :: u64 where
  "default_async_value = 0x1000000000000000"

definition mk_message_id :: "u64 \<Rightarrow> message_id" where
  "mk_message_id v = \<lparr>mid_value = v\<rparr>"

definition default_message_id :: message_id where
  "default_message_id = mk_message_id default_async_value"

definition category :: "message_id \<Rightarrow> u64" where
  "category m = drop_bit category_offset (mid_value m AND category_flag_mask)"

definition with_category :: "message_id \<Rightarrow> u64 \<Rightarrow> message_id" where
  "with_category m x =
     mk_message_id ((mid_value m AND NOT category_flag_mask) OR push_bit category_offset x)"

definition is_async :: "message_id \<Rightarrow> bool" where
  "is_async m \<longleftrightarrow> mid_value m = 0 \<or> mid_value m = default_async_value"

definition is_response :: "message_id \<Rightarrow> bool" where
  "is_response m \<longleftrightarrow> mid_value m AND response_flag_mask \<noteq> 0"

definition is_request :: "message_id \<Rightarrow> bool" where
  "is_request m \<longleftrightarrow> mid_value m AND request_id_mask \<noteq> 0 \<and> \<not> is_response m"

definition is_answered :: "message_id \<Rightarrow> bool" where
  "is_answered m \<longleftrightarrow> mid_value m AND answered_flag_mask \<noteq> 0"

definition is_urgent_message :: "message_id \<Rightarrow> bool" where
  "is_urgent_message m \<longleftrightarrow> category m = urgent_message_category"

definition is_normal_message :: "message_id \<Rightarrow> bool" where
  "is_normal_message m \<longleftrightarrow> category m = normal_message_category"

definition priority :: "message_id \<Rightarrow> message_priority" where
  "priority m = (if is_urgent_message m then high else normal)"

definition response_id :: "message_id \<Rightarrow> message_id" where
  "response_id m =
     (if is_request m then mk_message_id (mid_value m OR response_flag_mask)
      else mk_message_id (if is_urgent_message m then 0 else default_async_value))"

definition request_id :: "message_id \<Rightarrow> message_id" where
  "request_id m = mk_message_id (mid_value m AND request_id_mask)"

definition with_high_priority :: "message_id \<Rightarrow> message_id" where
  "with_high_priority m = mk_message_id (mid_value m AND NOT category_flag_mask)"

definition with_normal_priority :: "message_id \<Rightarrow> message_id" where
  "with_normal_priority m = mk_message_id (mid_value m OR default_async_value)"

text \<open>\<open>compare\<close> subtracts two \<^verbatim>\<open>int64_t\<close> values; the model keeps the two's complement wrap-around.\<close>

definition compare_id :: "message_id \<Rightarrow> message_id \<Rightarrow> int" where
  "compare_id m other = sint (mid_value m - mid_value other)"

definition mark_as_answered :: "message_id \<Rightarrow> message_id" where
  "mark_as_answered m = m\<lparr>mid_value := mid_value m OR answered_flag_mask\<rparr>"

definition incr_id :: "message_id \<Rightarrow> message_id" where
  "incr_id m = m\<lparr>mid_value := mid_value m + 1\<rparr>"

fun priority_value :: "message_priority \<Rightarrow> u64" where
  "priority_value high = 0"
| "priority_value normal = 1"

fun make_message_id :: "message_priority \<Rightarrow> u64 \<Rightarrow> message_id" where
  "make_message_id normal v = mk_message_id (v OR default_async_value)"
| "make_message_id high v = mk_message_id v"

definition make_message_id_prio :: "message_priority \<Rightarrow> message_id" where
  "make_message_id_prio p = mk_message_id (push_bit category_offset (priority_value p))"

section \<open>The bits of the masks\<close>

lemma mask_shapes:
  "response_flag_mask = push_bit 63 1"
  "answered_flag_mask = push_bit 62 1"
  "category_flag_mask = push_bit 60 (mask 2)"
  "request_id_mask = mask 60"
  "default_async_value = push_bit 60 1"
  by (simp_all add: response_flag_mask_def answered_flag_mask_def category_flag_mask_def
      request_id_mask_def default_async_value_def mask_eq_exp_minus_1 push_bit_eq_mult)

lemma bit_masks [simp]:
  "bit response_flag_mask n \<longleftrightarrow> n = 63"
  "bit answered_flag_mask n \<longleftrightarrow> n = 62"
  "bit category_flag_mask n \<longleftrightarrow> n = 60 \<or> n = 61"
  "bit request_id_mask n \<longleftrightarrow> n < 60"
  "bit default_async_value n \<longleftrightarrow> n = 60"
  unfolding mask_shapes bit_push_bit_iff bit_1_iff bit_mask_iff by auto

lemma mid_value_mk [simp]: "mid_value (mk_message_id v) = v"
  by (simp add: mk_message_id_def)

lemma mk_mid_value [simp]: "mk_message_id (mid_value m) = m"
  by (simp add: mk_message_id_def)

lemma message_id_eqI:
  fixes a b :: message_id
  shows "(\<And>n. n < 64 \<Longrightarrow> bit (mid_value a) n = bit (mid_value b) n) \<Longrightarrow> a = b"
  by (rule message_id.equality, rule bit_word_eqI) simp_all

text \<open>Every query is a statement about named bits of the value.\<close>

lemma and_mask_zero_iff:
  fixes w :: u64
  shows "w AND response_flag_mask = 0 \<longleftrightarrow> \<not> bit w 63"
    and "w AND answered_flag_mask = 0 \<longleftrightarrow> \<not> bit w 62"
    and "w AND request_id_mask = 0 \<longleftrightarrow> (\<forall>n<60. \<not> bit w n)"
  by (auto simp: word_eq_iff_bit bit_simps)

lemma is_response_bit: "is_response m \<longleftrightarrow> bit (mid_value m) 63"
  by (simp add: is_response_def and_mask_zero_iff)

lemma is_answered_bit: "is_answered m \<longleftrightarrow> bit (mid_value m) 62"
  by (simp add: is_answered_def and_mask_zero_iff)

lemma is_request_bit:
  "is_request m \<longleftrightarrow> (\<exists>n<60. bit (mid_value m) n) \<and> \<not> bit (mid_value m) 63"
  by (auto simp: is_request_def is_response_bit and_mask_zero_iff)

lemma bit_category: "bit (category m) n \<longleftrightarrow> n < 2 \<and> bit (mid_value m) (60 + n)"
  by (auto simp: category_def category_offset_def bit_simps)

lemma category_eqI:
  "(bit (mid_value a) 60 = bit (mid_value b) 60) \<Longrightarrow> (bit (mid_value a) 61 = bit (mid_value b) 61)
   \<Longrightarrow> category a = category b"
  by (rule bit_word_eqI) (auto simp: bit_category less_2_cases_iff)

lemma category_low: "category m = v \<longleftrightarrow> (\<forall>n<2. bit (mid_value m) (60 + n) = bit v n)" if "v < 4"
proof -
  have "bit v n \<Longrightarrow> n < 2" for n
    using that by (auto intro: bit_less_exp simp: word_less_nat_alt)
  then show ?thesis
    by (auto simp: word_eq_iff_bit bit_category)
qed

lemma is_urgent_bit:
  "is_urgent_message m \<longleftrightarrow> \<not> bit (mid_value m) 60 \<and> \<not> bit (mid_value m) 61"
  by (simp add: is_urgent_message_def urgent_message_category_def category_low all_less_2)

lemma is_normal_bit:
  "is_normal_message m \<longleftrightarrow> bit (mid_value m) 60 \<and> \<not> bit (mid_value m) 61"
  by (simp add: is_normal_message_def normal_message_category_def category_low all_less_2 bit_1_iff)

lemmas query_bits = is_response_bit is_answered_bit is_request_bit is_urgent_bit is_normal_bit

lemma bit_update [simp]:
  "bit (mid_value (request_id m)) n \<longleftrightarrow> n < 60 \<and> bit (mid_value m) n"
  "bit (mid_value (with_high_priority m)) n \<longleftrightarrow>
     n < 64 \<and> n \<noteq> 60 \<and> n \<noteq> 61 \<and> bit (mid_value m) n"
  "bit (mid_value (with_normal_priority m)) n \<longleftrightarrow> n = 60 \<or> bit (mid_value m) n"
  "bit (mid_value (mark_as_answered m)) n \<longleftrightarrow> n = 62 \<or> bit (mid_value m) n"
  by (auto simp: request_id_def with_high_priority_def with_normal_priority_def
      mark_as_answered_def bit_simps)

lemma bit_response_id:
  "bit (mid_value (response_id m)) n \<longleftrightarrow>
     (if is_request m then n = 63 \<or> bit (mid_value m) n else \<not> is_urgent_message m \<and> n = 60)"
  by (auto simp: response_id_def bit_simps)

lemma response_id_not_request [simp]: "\<not> is_request (response_id m)"
  by (auto simp: is_request_bit [of "response_id m"] bit_response_id)

lemma compare_id_eq_0 [simp]: "compare_id a b = 0 \<longleftrightarrow> a = b"
  by (cases a; cases b) (simp add: compare_id_def)

section \<open>Properties\<close>

text \<open>
  C12: answering a message. For a request, the response ID carries the response flag, the same
  request number and the same category, so the requester can match it; for everything else the
  response degrades to an asynchronous ID of the same priority and is never mistaken for a
  response. Answering a response ID never yields a request again.
\<close>

theorem response_id_matches_request:
  "(is_request m \<longrightarrow> is_response (response_id m)
      \<and> request_id (response_id m) = request_id m \<and> category (response_id m) = category m)
   \<and> (\<not> is_request m \<longrightarrow> is_async (response_id m) \<and> \<not> is_response (response_id m)
      \<and> priority (response_id m) = priority m)
   \<and> \<not> is_request (response_id m)"
proof -
  have "request_id (response_id m) = request_id m" if "is_request m"
    by (rule message_id_eqI) (use that in \<open>auto simp: bit_response_id\<close>)
  moreover have "category (response_id m) = category m" if "is_request m"
    by (rule category_eqI) (use that in \<open>simp_all add: bit_response_id\<close>)
  moreover have "is_async (response_id m)" if "\<not> is_request m"
    using that by (simp add: response_id_def is_async_def)
  ultimately show ?thesis
    by (auto simp: query_bits(1) priority_def is_urgent_bit [of "response_id m"] bit_response_id)
qed

theorem response_id_matches_request_witness:
  "is_request (mk_message_id 5) \<and> is_response (response_id (mk_message_id 5))
   \<and> request_id (response_id (mk_message_id 5)) = request_id (mk_message_id 5)"
proof -
  have "bit (5::u64) 0" "\<not> bit (5::u64) 63"
    by simp_all
  then have "is_request (mk_message_id 5)"
    unfolding is_request_bit mid_value_mk by (metis zero_less_numeral)
  with response_id_matches_request [of "mk_message_id 5"] show ?thesis by blast
qed

end
