(* ===== verification/Default_Mailbox.thy ===== *)
theory Default_Mailbox
  imports Lifo_Inbox Message_Id
begin

text \<open>
  The default mailbox of an actor (\<^verbatim>\<open>libcaf_core/caf/detail/default_mailbox.cpp\<close>): a lock-free
  inbox for incoming messages plus two linked lists that cache urgent and normal messages in
  first-in-first-out order. List \<open>urgent_queue\<close> and list \<open>normal_queue\<close> live in the same store as the
  inbox chain, since messages move between them by their \<open>next\<close> pointers only. The model is the view
  of the owner between two accesses of other threads.
\<close>

section \<open>Model\<close>

record 'p mailbox_element =
  sender :: "nat option"
  mid :: message_id
  payload :: 'p

record 'p mailbox =
  mstore :: list_store
  inbox :: stack_val
  elems :: "addr \<Rightarrow> 'p mailbox_element"
  ref_count :: nat

definition urgent_queue :: nat where
  "urgent_queue = 0"

definition normal_queue :: nat where
  "normal_queue = 1"

definition new_mailbox :: "(addr \<Rightarrow> 'p mailbox_element) \<Rightarrow> 'p mailbox" where
  "new_mailbox E = \<lparr>mstore = fresh_store, inbox = Empty_tag, elems = E, ref_count = 1\<rparr>"

definition urgent_elem :: "'p mailbox \<Rightarrow> addr \<Rightarrow> bool" where
  "urgent_elem m x \<longleftrightarrow> is_urgent_message (mid (elems m x))"

definition mb_push_back :: "'p mailbox \<Rightarrow> addr \<Rightarrow> inbox_result \<times> 'p mailbox" where
  "mb_push_back m x =
     (case inbox_push_front (inbox m) (mstore m) x of
        (r, e, s) \<Rightarrow> (r, m\<lparr>inbox := e, mstore := s\<rparr>))"

definition mb_push_front :: "'p mailbox \<Rightarrow> addr \<Rightarrow> 'p mailbox" where
  "mb_push_front m x =
     (if urgent_elem m x then m\<lparr>mstore := ll_push_front (mstore m) urgent_queue x\<rparr>
      else m\<lparr>mstore := ll_push_front (mstore m) normal_queue x\<rparr>)"

definition cached :: "'p mailbox \<Rightarrow> nat" where
  "cached m = ll_size (mstore m) urgent_queue + ll_size (mstore m) normal_queue"

partial_function (option) fetch_loop ::
  "(addr \<Rightarrow> bool) \<Rightarrow> node_ptr \<Rightarrow> node_ptr \<Rightarrow> node_ptr \<Rightarrow> list_store \<Rightarrow> list_store option" where
  "fetch_loop urgent upos npos head s =
     (case head of
        Elem x \<Rightarrow>
          let next = nxt s head;
              s' = (if urgent x then ll_insert_after s urgent_queue upos x
                    else ll_insert_after s normal_queue npos x)
          in if next \<noteq> Null then fetch_loop urgent upos npos next s' else Some s'
      | _ \<Rightarrow> None)"

definition fetch_more :: "'p mailbox \<Rightarrow> (bool \<times> 'p mailbox) option" where
  "fetch_more m =
     (case inbox_take_head (inbox m) Empty_tag of
        None \<Rightarrow> None
      | Some (head, e) \<Rightarrow>
          if head = Null then Some (False, m\<lparr>inbox := e\<rparr>)
          else
            let upos = ll_before_end (mstore m) urgent_queue;
                npos = ll_before_end (mstore m) normal_queue
            in case fetch_loop (urgent_elem m) upos npos head (mstore m) of
                 None \<Rightarrow> None
               | Some s \<Rightarrow> Some (True, m\<lparr>inbox := e, mstore := s\<rparr>))"

definition find_mid :: "'p mailbox \<Rightarrow> message_id \<Rightarrow> nat \<Rightarrow> node_ptr option" where
  "find_mid m i q = ll_find_if (mstore m) q (\<lambda>x. compare_id (mid (elems m x)) i = 0)"

definition mb_peek :: "'p mailbox \<Rightarrow> message_id \<Rightarrow> (node_ptr \<times> 'p mailbox) option" where
  "mb_peek m i =
     (if inbox_closed (inbox m) \<or> inbox_blocked (inbox m) then Some (Null, m)
      else case fetch_more m of
        None \<Rightarrow> None
      | Some (_, m1) \<Rightarrow>
          if is_async i then
            Some (if \<not> ll_empty (mstore m1) urgent_queue then ll_front (mstore m1) urgent_queue
                  else if \<not> ll_empty (mstore m1) normal_queue then ll_front (mstore m1) normal_queue
                  else Null, m1)
          else case find_mid m1 i urgent_queue of
            None \<Rightarrow> None
          | Some r \<Rightarrow>
              if r \<noteq> Null then Some (r, m1)
              else map_option (\<lambda>p. (p, m1)) (find_mid m1 i normal_queue))"

partial_function (option) mb_pop_front :: "'p mailbox \<Rightarrow> (node_ptr \<times> 'p mailbox) option" where
  "mb_pop_front m =
     (case ll_pop_front (mstore m) urgent_queue of
        (r, s) \<Rightarrow>
          if r \<noteq> Null then Some (r, m\<lparr>mstore := s\<rparr>)
          else (case ll_pop_front (mstore m) normal_queue of
            (r, s) \<Rightarrow>
              if r \<noteq> Null then Some (r, m\<lparr>mstore := s\<rparr>)
              else (case fetch_more m of
                None \<Rightarrow> None
              | Some (got, m') \<Rightarrow> if got then mb_pop_front m' else Some (Null, m'))))"

definition mb_closed :: "'p mailbox \<Rightarrow> bool" where
  "mb_closed m = inbox_closed (inbox m)"

definition mb_blocked :: "'p mailbox \<Rightarrow> bool" where
  "mb_blocked m = inbox_blocked (inbox m)"

definition mb_try_block :: "'p mailbox \<Rightarrow> bool \<times> 'p mailbox" where
  "mb_try_block m =
     (if cached m = 0
      then (case inbox_try_block (inbox m) of (r, e) \<Rightarrow> (r, m\<lparr>inbox := e\<rparr>))
      else (False, m))"

definition mb_try_unblock :: "'p mailbox \<Rightarrow> bool \<times> 'p mailbox" where
  "mb_try_unblock m = (case inbox_try_unblock (inbox m) of (r, e) \<Rightarrow> (r, m\<lparr>inbox := e\<rparr>))"

text \<open>
  A bounced request is an error response to its sender: the receiver of the response and its
  message ID. Closing drains the two caches and then the inbox; each element is bounced and counted.
\<close>

definition bounce :: "'p mailbox_element \<Rightarrow> (nat \<times> message_id) list" where
  "bounce e =
     (case sender e of
        None \<Rightarrow> []
      | Some a \<Rightarrow> if is_request (mid e) then [(a, response_id (mid e))] else [])"

definition mb_close :: "'p mailbox \<Rightarrow> (nat \<times> (nat \<times> message_id) list \<times> 'p mailbox) option" where
  "mb_close m =
     (case ll_drain (mstore m) urgent_queue of
        None \<Rightarrow> None
      | Some (us, s1) \<Rightarrow>
          (case ll_drain s1 normal_queue of
             None \<Rightarrow> None
           | Some (ns, s2) \<Rightarrow>
               (case inbox_close (inbox m) s2 of
                  None \<Rightarrow> None
                | Some (xs, e) \<Rightarrow>
                    let dropped = us @ ns @ xs
                    in Some (length dropped, concat (map (\<lambda>x. bounce (elems m x)) dropped),
                         m\<lparr>mstore := s2, inbox := e\<rparr>))))"

definition mb_size :: "'p mailbox \<Rightarrow> (nat \<times> 'p mailbox) option" where
  "mb_size m = map_option (\<lambda>(_, m'). (cached m', m')) (fetch_more m)"

definition ref_mailbox :: "'p mailbox \<Rightarrow> 'p mailbox" where
  "ref_mailbox m = m\<lparr>ref_count := ref_count m + 1\<rparr>"

text \<open>\<open>None\<close>: the last reference is gone and the mailbox is deleted.\<close>

definition deref_mailbox :: "'p mailbox \<Rightarrow> 'p mailbox option" where
  "deref_mailbox m =
     (let m' = m\<lparr>ref_count := ref_count m - 1\<rparr>
      in if ref_count m' = 0 then None else Some m')"

section \<open>Abstract mailbox\<close>

text \<open>
  The contents of a mailbox: urgent and normal messages in the order in which they leave the caches,
  and the messages still in the inbox, oldest first.
\<close>

record contents =
  urgents :: "addr list"
  normals :: "addr list"
  incoming :: "addr list"

definition lists_of :: "contents \<Rightarrow> nat \<Rightarrow> addr list" where
  "lists_of c = (\<lambda>_. [])(urgent_queue := urgents c, normal_queue := normals c)"

definition all_elems :: "contents \<Rightarrow> addr list" where
  "all_elems c = urgents c @ normals c @ incoming c"

definition mailbox_rep :: "'p mailbox \<Rightarrow> contents \<Rightarrow> bool" where
  "mailbox_rep m c \<longleftrightarrow>
     rep (mstore m) (lists_of c)
     \<and> stack_chain (nxt (mstore m)) (to_ptr (inbox m)) (rev (incoming c))
     \<and> distinct (all_elems c)"

definition fetched_contents :: "(addr \<Rightarrow> bool) \<Rightarrow> contents \<Rightarrow> contents" where
  "fetched_contents urgent c =
     \<lparr>urgents = urgents c @ filter urgent (incoming c),
      normals = normals c @ filter (\<lambda>x. \<not> urgent x) (incoming c), incoming = []\<rparr>"

fun take_next :: "contents \<Rightarrow> addr option \<times> contents" where
  "take_next c =
     (case urgents c of
        x # xs \<Rightarrow> (Some x, c\<lparr>urgents := xs\<rparr>)
      | [] \<Rightarrow> (case normals c of x # xs \<Rightarrow> (Some x, c\<lparr>normals := xs\<rparr>) | [] \<Rightarrow> (None, c)))"

definition spec_pop :: "(addr \<Rightarrow> bool) \<Rightarrow> contents \<Rightarrow> addr option \<times> contents" where
  "spec_pop urgent c =
     (if urgents c = [] \<and> normals c = [] then take_next (fetched_contents urgent c) else take_next c)"

text \<open>Popping a given number of messages, collecting them in order.\<close>

fun mb_pops :: "nat \<Rightarrow> 'p mailbox \<Rightarrow> (addr list \<times> 'p mailbox) option" where
  "mb_pops 0 m = Some ([], m)"
| "mb_pops (Suc n) m =
     (case mb_pop_front m of
        Some (Elem x, m') \<Rightarrow> map_option (\<lambda>(xs, m''). (x # xs, m'')) (mb_pops n m')
      | _ \<Rightarrow> None)"

definition pop_order :: "(addr \<Rightarrow> bool) \<Rightarrow> contents \<Rightarrow> addr list" where
  "pop_order urgent c =
     urgents c @ normals c @ filter urgent (incoming c) @ filter (\<lambda>x. \<not> urgent x) (incoming c)"

section \<open>Every operation implements its abstract operation\<close>

lemma queues_neq [simp]: "urgent_queue \<noteq> normal_queue" "normal_queue \<noteq> urgent_queue"
  by (simp_all add: urgent_queue_def normal_queue_def)

lemma lists_of_simps [simp]:
  "lists_of c urgent_queue = urgents c"
  "lists_of c normal_queue = normals c"
  "l \<noteq> urgent_queue \<Longrightarrow> l \<noteq> normal_queue \<Longrightarrow> lists_of c l = []"
  by (simp_all add: lists_of_def)

lemma lists_of_upd:
  "(lists_of c)(urgent_queue := xs) = lists_of (c\<lparr>urgents := xs\<rparr>)"
  "(lists_of c)(normal_queue := ys) = lists_of (c\<lparr>normals := ys\<rparr>)"
  by (simp_all add: lists_of_def fun_upd_twist)

lemma lists_of_incoming [simp]: "lists_of (c\<lparr>incoming := xs\<rparr>) = lists_of c"
  by (simp add: lists_of_def)

lemma fresh_lists_of: "fresh (lists_of c) x \<longleftrightarrow> x \<notin> set (urgents c) \<and> x \<notin> set (normals c)"
proof
  assume "fresh (lists_of c) x"
  then show "x \<notin> set (urgents c) \<and> x \<notin> set (normals c)"
    unfolding fresh_def by (metis lists_of_simps(1,2))
next
  assume x: "x \<notin> set (urgents c) \<and> x \<notin> set (normals c)"
  have "x \<notin> set (lists_of c l)" for l
    using x by (cases "l = urgent_queue"; cases "l = normal_queue") simp_all
  then show "fresh (lists_of c) x" by (simp add: fresh_def)
qed

lemma stack_chain_cong:
  "(\<And>x. x \<in> set xs \<Longrightarrow> f (Elem x) = g (Elem x)) \<Longrightarrow> stack_chain f p xs = stack_chain g p xs"
proof (induction xs arbitrary: p)
  case Nil
  then show ?case by simp
next
  case (Cons x xs)
  then have "stack_chain f (g (Elem x)) xs = stack_chain g (g (Elem x)) xs"
    by (intro Cons.IH) auto
  with Cons.prems [of x] show ?case by auto
qed

lemma nxt_insert_after:
  "p \<noteq> Elem x \<Longrightarrow> p \<noteq> pos \<Longrightarrow> p \<noteq> Tail l \<Longrightarrow> nxt (ll_insert_after s l pos x) p = nxt s p"
  by (simp add: ll_insert_after_def Let_def)

abbreviation deliver :: "(addr \<Rightarrow> bool) \<Rightarrow> node_ptr \<Rightarrow> node_ptr \<Rightarrow> addr \<Rightarrow> list_store \<Rightarrow> list_store" where
  "deliver urgent upos npos x s \<equiv>
     (if urgent x then ll_insert_after s urgent_queue upos x
      else ll_insert_after s normal_queue npos x)"

lemma fetch_loop_fold:
  assumes "stack_chain (nxt s) p (x # zs)" "distinct (x # zs)"
    "upos \<notin> Elem ` set (x # zs)" "npos \<notin> Elem ` set (x # zs)"
  shows "fetch_loop urgent upos npos p s = Some (fold (deliver urgent upos npos) (x # zs) s)"
  using assms
proof (induction zs arbitrary: x p s)
  case Nil
  then have "p = Elem x" "nxt s (Elem x) = Null" by auto
  then show ?case by (simp add: fetch_loop.simps [of urgent upos npos "Elem x" s] Let_def)
next
  case (Cons z zs)
  let ?s' = "deliver urgent upos npos x s"
  have "stack_chain (nxt ?s') (Elem z) (z # zs) = stack_chain (nxt s) (Elem z) (z # zs)"
    by (rule stack_chain_cong) (use Cons.prems in \<open>auto intro!: nxt_insert_after\<close>)
  then have "fetch_loop urgent upos npos (Elem z) ?s' =
      Some (fold (deliver urgent upos npos) (z # zs) ?s')"
    using Cons.prems by (intro Cons.IH) auto
  moreover have "p = Elem x" "nxt s (Elem x) = Elem z"
    using Cons.prems by auto
  ultimately show ?case
    by (simp add: fetch_loop.simps [of urgent upos npos "Elem x" s] Let_def)
qed

lemma fetch_more_rep:
  assumes r: "mailbox_rep m c" and open_: "inbox m \<noteq> Closed_tag" "inbox m \<noteq> Blocked_tag"
  shows "\<exists>m'. fetch_more m = Some (incoming c \<noteq> [], m')
    \<and> mailbox_rep m' (fetched_contents (urgent_elem m) c) \<and> elems m' = elems m
    \<and> inbox m' = Empty_tag \<and> ref_count m' = ref_count m"
proof (cases "incoming c = []")
  case True
  then have "inbox m = Empty_tag"
    using r open_ by (cases "inbox m") (auto simp: mailbox_rep_def)
  then show ?thesis
    using True r by (simp add: fetch_more_def inbox_take_head_def fetched_contents_def
        mailbox_rep_def all_elems_def lists_of_def)
next
  case False
  let ?xs = "rev (incoming c)"
  obtain x zs where xs: "?xs = x # zs"
    using False by (cases ?xs) auto
  have head: "inbox m = Ptr x" "to_ptr (inbox m) = Elem x"
    using r xs by (cases "inbox m"; auto simp: mailbox_rep_def)+
  let ?u = "last_ptr (Head urgent_queue) (urgents c)"
  let ?n = "last_ptr (Head normal_queue) (normals c)"
  have d: "distinct ?xs" "\<forall>z\<in>set ?xs. fresh (lists_of c) z" "distinct (urgents c)" "distinct (normals c)"
    using r by (auto simp: mailbox_rep_def all_elems_def fresh_lists_of)
  have pos: "?u \<notin> Elem ` set ?xs" "?n \<notin> Elem ` set ?xs"
    using d(2) last_ptr_in [of "Head urgent_queue" "urgents c"]
      last_ptr_in [of "Head normal_queue" "normals c"] by (auto simp: fresh_lists_of)
  have loop: "fetch_loop (urgent_elem m) ?u ?n (Elem x) (mstore m)
      = Some (fold (deliver (urgent_elem m) ?u ?n) ?xs (mstore m))"
    unfolding xs using r head d pos unfolding xs
    by (intro fetch_loop_fold) (auto simp: mailbox_rep_def xs)
  define s' where "s' = fold (deliver (urgent_elem m) ?u ?n) ?xs (mstore m)"
  have "\<exists>C'. rep s' C' \<and> C' urgent_queue = urgents c @ rev (filter (urgent_elem m) ?xs) @ []
      \<and> C' normal_queue = normals c @ rev (filter (\<lambda>x. \<not> urgent_elem m x) ?xs) @ []
      \<and> (\<forall>l. l \<noteq> urgent_queue \<longrightarrow> l \<noteq> normal_queue \<longrightarrow> C' l = lists_of c l)"
    unfolding s'_def using r d by (intro ll.insert_split) (simp_all add: mailbox_rep_def)
  then obtain C' where C': "rep s' C'" "C' urgent_queue = urgents c @ filter (urgent_elem m) (incoming c)"
      "C' normal_queue = normals c @ filter (\<lambda>x. \<not> urgent_elem m x) (incoming c)"
      "\<And>l. l \<noteq> urgent_queue \<Longrightarrow> l \<noteq> normal_queue \<Longrightarrow> C' l = []"
    by (auto simp: rev_filter)
  then have "C' = lists_of (fetched_contents (urgent_elem m) c)"
    by (auto simp: fun_eq_iff lists_of_def fetched_contents_def)
  moreover have "distinct (all_elems (fetched_contents (urgent_elem m) c))"
    using r by (auto simp: mailbox_rep_def all_elems_def fetched_contents_def)
  ultimately have "mailbox_rep (m\<lparr>inbox := Empty_tag, mstore := s'\<rparr>) (fetched_contents (urgent_elem m) c)"
    using C'(1) by (simp add: mailbox_rep_def fetched_contents_def)
  moreover have before: "ll_before_end (mstore m) urgent_queue = ?u"
      "ll_before_end (mstore m) normal_queue = ?n"
    using r rep_before_end [of "mstore m" "lists_of c"] by (simp_all add: mailbox_rep_def)
  moreover have "fetch_more m = Some (True, m\<lparr>inbox := Empty_tag, mstore := s'\<rparr>)"
    using head loop before
    by (simp add: fetch_more_def inbox_take_head_def Let_def s'_def)
  ultimately show ?thesis
    using False by auto
qed

lemma push_back_rep:
  assumes "mailbox_rep m c" "x \<notin> set (all_elems c)" "inbox m \<noteq> Closed_tag"
  shows "fst (mb_push_back m x) = (if mb_blocked m then unblocked_reader else success)"
    and "mailbox_rep (snd (mb_push_back m x)) (c\<lparr>incoming := incoming c @ [x]\<rparr>)"
    and "elems (snd (mb_push_back m x)) = elems m"
    and "inbox (snd (mb_push_back m x)) = Ptr x"
proof -
  let ?s = "link_front (inbox m) x (mstore m)"
  have "rep ?s (lists_of c) = rep (mstore m) (lists_of c)"
  proof -
    have "fresh (lists_of c) x"
      using assms(2) by (simp add: fresh_lists_of all_elems_def)
    then have "list_rep ?s l (lists_of c l) = list_rep (mstore m) l (lists_of c l)" for l
      by (intro list_rep_cong) (auto simp: footprint_def link_front_def fresh_def)
    then show ?thesis by (simp add: rep_def)
  qed
  moreover have "stack_chain (nxt ?s) (Elem x) (x # rev (incoming c))"
    using assms by (cases "inbox m") (auto simp: mailbox_rep_def all_elems_def)
  ultimately show "mailbox_rep (snd (mb_push_back m x)) (c\<lparr>incoming := incoming c @ [x]\<rparr>)"
    using assms by (auto simp: mb_push_back_def inbox_push_front_def mailbox_rep_def all_elems_def)
qed (use assms(3) in \<open>simp_all add: mb_push_back_def inbox_push_front_def push_result_def
    mb_blocked_def inbox_blocked_def\<close>)

lemma push_back_closed:
  "mb_closed m \<Longrightarrow> mb_push_back m x = (queue_closed, m)"
  by (simp add: mb_push_back_def inbox_push_front_def mb_closed_def inbox_closed_def)

lemma stack_chain_mono:
  "stack_chain f p xs \<Longrightarrow> \<forall>x\<in>set xs. g (Elem x) = f (Elem x) \<Longrightarrow> stack_chain g p xs"
  using stack_chain_cong [of xs g f p] by simp

lemma nxt_push_front:
  assumes "rep s C" "fresh C x" "y \<noteq> x"
  shows "nxt (ll_push_front s l x) (Elem y) = nxt s (Elem y)"
  using assms by (simp add: push_front_eq_insert_after nxt_insert_after ll_before_begin_def)

lemma push_front_rep:
  assumes "mailbox_rep m c" "x \<notin> set (all_elems c)"
  shows "mailbox_rep (mb_push_front m x)
    (if urgent_elem m x then c\<lparr>urgents := x # urgents c\<rparr> else c\<lparr>normals := x # normals c\<rparr>)"
proof -
  have f: "fresh (lists_of c) x" and r: "rep (mstore m) (lists_of c)"
    using assms by (auto simp: fresh_lists_of all_elems_def mailbox_rep_def)
  have *: "stack_chain (nxt (ll_push_front (mstore m) l x)) (to_ptr (inbox m)) (rev (incoming c))" for l
  proof (rule stack_chain_mono)
    show "stack_chain (nxt (mstore m)) (to_ptr (inbox m)) (rev (incoming c))"
      using assms(1) by (simp add: mailbox_rep_def)
    show "\<forall>y\<in>set (rev (incoming c)). nxt (ll_push_front (mstore m) l x) (Elem y) = nxt (mstore m) (Elem y)"
      using assms(2) nxt_push_front [OF r f]
      by (metis Un_iff all_elems_def set_append set_rev)
  qed
  have "rep (ll_push_front (mstore m) urgent_queue x) (lists_of (c\<lparr>urgents := x # urgents c\<rparr>))"
    "rep (ll_push_front (mstore m) normal_queue x) (lists_of (c\<lparr>normals := x # normals c\<rparr>))"
    using rep_push_front [OF r f, of urgent_queue] rep_push_front [OF r f, of normal_queue]
    by (simp_all add: lists_of_upd)
  with * assms show ?thesis
    by (auto simp: mb_push_front_def mailbox_rep_def all_elems_def)
qed

lemma nxt_pop_front:
  assumes "rep s C"
  shows "nxt (snd (ll_pop_front s l)) (Elem y) = nxt s (Elem y)"
  using assms by (simp add: ll_pop_front_def Let_def)

lemma pop_queue_rep:
  assumes "mailbox_rep m c" "lists_of c q = x # xs"
  shows "fst (ll_pop_front (mstore m) q) = Elem x"
    and "rep (snd (ll_pop_front (mstore m) q)) ((lists_of c)(q := xs))"
    and "stack_chain (nxt (snd (ll_pop_front (mstore m) q))) (to_ptr (inbox m)) (rev (incoming c))"
proof -
  have r: "rep (mstore m) (lists_of c)"
    using assms(1) by (simp add: mailbox_rep_def)
  from rep_pop_front [OF r assms(2)] show "fst (ll_pop_front (mstore m) q) = Elem x"
    "rep (snd (ll_pop_front (mstore m) q)) ((lists_of c)(q := xs))" by auto
  show "stack_chain (nxt (snd (ll_pop_front (mstore m) q))) (to_ptr (inbox m)) (rev (incoming c))"
    by (rule stack_chain_mono [of "nxt (mstore m)"])
      (use assms(1) nxt_pop_front [OF r] in \<open>simp_all add: mailbox_rep_def\<close>)
qed

lemma pop_cached_rep:
  assumes r: "mailbox_rep m c" and ne: "urgents c \<noteq> [] \<or> normals c \<noteq> []"
  shows "\<exists>x c' m'. take_next c = (Some x, c') \<and> mb_pop_front m = Some (Elem x, m')
    \<and> mailbox_rep m' c' \<and> elems m' = elems m \<and> inbox m' = inbox m"
proof (cases "urgents c")
  case (Cons x xs)
  note q = pop_queue_rep [OF r, of urgent_queue x xs] and Cons
  moreover obtain p s' where "ll_pop_front (mstore m) urgent_queue = (p, s')"
    by (cases "ll_pop_front (mstore m) urgent_queue")
  ultimately show ?thesis
    using r by (auto simp: mb_pop_front.simps [of m] mailbox_rep_def lists_of_upd all_elems_def)
next
  case Nil
  then have e: "ll_pop_front (mstore m) urgent_queue = (Null, mstore m)"
    using r rep_pop_front_empty [of "mstore m" "lists_of c" urgent_queue] by (simp add: mailbox_rep_def)
  from Nil ne obtain x xs where n: "normals c = x # xs"
    by (cases "normals c") auto
  note q = pop_queue_rep [OF r, of normal_queue x xs] and n e Nil
  moreover obtain p s' where "ll_pop_front (mstore m) normal_queue = (p, s')"
    by (cases "ll_pop_front (mstore m) normal_queue")
  ultimately show ?thesis
    using r by (auto simp: mb_pop_front.simps [of m] mailbox_rep_def lists_of_upd all_elems_def)
qed

lemma take_next_empty:
  "urgents c = [] \<Longrightarrow> normals c = [] \<Longrightarrow> take_next c = (None, c)"
  by simp

declare take_next.simps [simp del]

lemma pop_front_rep:
  assumes r: "mailbox_rep m c" and open_: "inbox m \<noteq> Closed_tag" "inbox m \<noteq> Blocked_tag"
  shows "\<exists>m'. mb_pop_front m =
      Some (case fst (spec_pop (urgent_elem m) c) of None \<Rightarrow> Null | Some x \<Rightarrow> Elem x, m')
    \<and> mailbox_rep m' (snd (spec_pop (urgent_elem m) c)) \<and> elems m' = elems m
    \<and> inbox m' \<noteq> Closed_tag \<and> inbox m' \<noteq> Blocked_tag"
proof (cases "urgents c = [] \<and> normals c = []")
  case False
  then show ?thesis
    using pop_cached_rep [OF r] open_ by (auto simp: spec_pop_def)
next
  case True
  then have e: "ll_pop_front (mstore m) urgent_queue = (Null, mstore m)"
      "ll_pop_front (mstore m) normal_queue = (Null, mstore m)"
    using r rep_pop_front_empty [of "mstore m" "lists_of c"] by (simp_all add: mailbox_rep_def)
  let ?c = "fetched_contents (urgent_elem m) c"
  obtain m' where m': "fetch_more m = Some (incoming c \<noteq> [], m')" "mailbox_rep m' ?c"
      "elems m' = elems m" "inbox m' = Empty_tag"
    using fetch_more_rep [OF assms] by blast
  show ?thesis
  proof (cases "incoming c = []")
    case True
    then have "take_next ?c = (None, ?c)"
      using \<open>urgents c = [] \<and> normals c = []\<close>
      by (intro take_next_empty) (simp_all add: fetched_contents_def)
    with True m' e \<open>urgents c = [] \<and> normals c = []\<close> show ?thesis
      by (simp add: mb_pop_front.simps [of m] spec_pop_def)
  next
    case False
    then have "urgents ?c \<noteq> [] \<or> normals ?c \<noteq> []"
      by (cases "incoming c") (auto simp: fetched_contents_def)
    then obtain x c' m'' where x: "take_next ?c = (Some x, c')" "mb_pop_front m' = Some (Elem x, m'')"
        "mailbox_rep m'' c'" "elems m'' = elems m'" "inbox m'' = inbox m'"
      using pop_cached_rep [OF m'(2)] by blast
    with False m' e \<open>urgents c = [] \<and> normals c = []\<close> show ?thesis
      by (simp add: mb_pop_front.simps [of m] spec_pop_def)
  qed
qed

lemma spec_pop_order:
  assumes "pop_order P c \<noteq> []"
  shows "fst (spec_pop P c) = Some (hd (pop_order P c))
    \<and> pop_order P (snd (spec_pop P c)) = tl (pop_order P c)"
  using assms
  by (auto simp: spec_pop_def take_next.simps pop_order_def fetched_contents_def
      split: list.splits)

lemma pop_order_length: "length (pop_order P c) = length (all_elems c)"
  using sum_length_filter_compl [of P "incoming c"] by (simp add: pop_order_def all_elems_def)

lemma close_rep:
  assumes r: "mailbox_rep m c" and open_: "inbox m \<noteq> Closed_tag"
  shows "\<exists>m'. mb_close m = Some (length (all_elems c),
      concat (map (\<lambda>x. bounce (elems m x)) (urgents c @ normals c @ rev (incoming c))), m')
    \<and> mb_closed m' \<and> mailbox_rep m' \<lparr>urgents = [], normals = [], incoming = []\<rparr>"
proof -
  let ?C = "lists_of c"
  have rep: "rep (mstore m) ?C"
    using r by (simp add: mailbox_rep_def)
  define s1 where "s1 = ll_init (mstore m) urgent_queue"
  define s2 where "s2 = ll_init s1 normal_queue"
  have 1: "ll_drain (mstore m) urgent_queue = Some (urgents c, s1)" "rep s1 (?C(urgent_queue := []))"
    using rep_drain [OF rep, of urgent_queue] by (simp_all add: s1_def)
  have 2: "ll_drain s1 normal_queue = Some (normals c, s2)"
    "rep s2 ((?C(urgent_queue := []))(normal_queue := []))"
    using rep_drain [OF 1(2), of normal_queue] by (simp_all add: s2_def)
  have "nxt s2 (Elem x) = nxt (mstore m) (Elem x)" for x
    by (simp add: s2_def s1_def ll_init_def)
  moreover have "stack_chain (nxt (mstore m)) (to_ptr (inbox m)) (rev (incoming c))"
    using r by (simp add: mailbox_rep_def)
  ultimately have "stack_chain (nxt s2) (to_ptr (inbox m)) (rev (incoming c))"
    by (metis stack_chain_mono)
  then have 3: "inbox_close (inbox m) s2 = Some (rev (incoming c), Closed_tag)"
    using open_ by (intro inbox_close_rep)
  have "(?C(urgent_queue := []))(normal_queue := []) = lists_of \<lparr>urgents = [], normals = [], incoming = []\<rparr>"
    by (rule ext) (simp add: lists_of_def)
  with 1 2 3 show ?thesis
    by (simp add: mb_close_def mb_closed_def inbox_closed_def mailbox_rep_def all_elems_def Let_def)
qed

lemma new_mailbox_rep: "mailbox_rep (new_mailbox E) \<lparr>urgents = [], normals = [], incoming = []\<rparr>"
proof -
  have "lists_of \<lparr>urgents = [], normals = [], incoming = []\<rparr> = (\<lambda>_. [])"
    by (rule ext) (simp add: lists_of_def)
  then show ?thesis
    by (simp add: mailbox_rep_def new_mailbox_def rep_fresh_store all_elems_def)
qed

lemma pops_rep:
  assumes "mailbox_rep m c" "inbox m \<noteq> Closed_tag" "inbox m \<noteq> Blocked_tag"
    "n = length (pop_order (urgent_elem m) c)"
  shows "\<exists>m' c'. mb_pops n m = Some (pop_order (urgent_elem m) c, m') \<and> mailbox_rep m' c'
    \<and> all_elems c' = [] \<and> inbox m' \<noteq> Closed_tag \<and> inbox m' \<noteq> Blocked_tag"
  using assms
proof (induction n arbitrary: m c)
  case 0
  then have "all_elems c = []"
    using pop_order_length [of "urgent_elem m" c] by simp
  with 0 show ?case by (intro exI [of _ m] exI [of _ c]) simp
next
  case (Suc n)
  let ?P = "urgent_elem m"
  have ne: "pop_order ?P c \<noteq> []"
    using Suc.prems(4) by auto
  note sp = spec_pop_order [OF ne]
  from pop_front_rep [OF Suc.prems(1-3)] sp obtain m' where
    m': "mb_pop_front m = Some (Elem (hd (pop_order ?P c)), m')"
      "mailbox_rep m' (snd (spec_pop ?P c))" "elems m' = elems m"
      "inbox m' \<noteq> Closed_tag" "inbox m' \<noteq> Blocked_tag"
    by auto
  from m'(3) have P: "urgent_elem m' = ?P"
    by (simp add: urgent_elem_def fun_eq_iff)
  have "n = length (pop_order (urgent_elem m') (snd (spec_pop ?P c)))"
    using Suc.prems(4) sp P by simp
  from Suc.IH [OF m'(2,4,5) this] P sp m'(1) ne show ?case
    by (auto simp: hd_Cons_tl)
qed

section \<open>Properties\<close>

definition sample_elems :: "addr \<Rightarrow> unit mailbox_element" where
  "sample_elems x = \<lparr>sender = Some 1,
     mid = (if x = 6 then mk_message_id 1 else default_message_id), payload = ()\<rparr>"

definition sample_mailbox :: "unit mailbox" where
  "sample_mailbox = snd (mb_push_back (snd (mb_push_back (new_mailbox sample_elems) 5)) 6)"

lemma sample_mailbox_rep:
  "mailbox_rep sample_mailbox \<lparr>urgents = [], normals = [], incoming = [5, 6]\<rparr>"
  "inbox sample_mailbox = Ptr 6" "elems sample_mailbox = sample_elems"
proof -
  let ?m = "new_mailbox sample_elems"
  let ?m1 = "snd (mb_push_back ?m 5)"
  have 0: "mailbox_rep ?m \<lparr>urgents = [], normals = [], incoming = []\<rparr>" "inbox ?m = Empty_tag"
    "elems ?m = sample_elems"
    by (simp_all add: new_mailbox_rep) (simp_all add: new_mailbox_def)
  have 1: "mailbox_rep ?m1 \<lparr>urgents = [], normals = [], incoming = [5]\<rparr>" "inbox ?m1 = Ptr 5"
    "elems ?m1 = sample_elems"
    using push_back_rep [OF 0(1), of 5] 0 by (simp_all add: all_elems_def)
  show "mailbox_rep sample_mailbox \<lparr>urgents = [], normals = [], incoming = [5, 6]\<rparr>"
    "inbox sample_mailbox = Ptr 6" "elems sample_mailbox = sample_elems"
    using push_back_rep [OF 1(1), of 6] 1 by (simp_all add: all_elems_def sample_mailbox_def)
qed

lemma sample_urgent: "urgent_elem sample_mailbox x \<longleftrightarrow> x = 6"
  by (simp add: urgent_elem_def sample_mailbox_rep sample_elems_def is_urgent_bit bit_1_iff
      default_message_id_def)

text \<open>
  C3: delivery order of a mailbox. Popping as many messages as an open mailbox holds returns all of
  them: first the cached urgent messages, then the cached normal ones, then the urgent messages of
  the inbox and finally the normal ones of the inbox, each group in arrival order. Messages of one
  priority therefore leave the mailbox in the order in which they were pushed, and the mailbox is
  empty afterwards.
\<close>

theorem mailbox_pops_fifo_by_priority:
  assumes "mailbox_rep m c" "\<not> mb_closed m" "\<not> mb_blocked m"
  shows "\<exists>m' c'. mb_pops (length (all_elems c)) m
      = Some (urgents c @ normals c @ filter (urgent_elem m) (incoming c)
          @ filter (\<lambda>x. \<not> urgent_elem m x) (incoming c), m')
    \<and> mailbox_rep m' c' \<and> all_elems c' = []"
proof -
  have "inbox m \<noteq> Closed_tag" "inbox m \<noteq> Blocked_tag"
    using assms(2,3) by (simp_all add: mb_closed_def mb_blocked_def inbox_closed_def inbox_blocked_def)
  from pops_rep [OF assms(1) this pop_order_length [of "urgent_elem m" c, symmetric]]
  show ?thesis
    unfolding pop_order_def by blast
qed

theorem mailbox_pops_fifo_by_priority_witness:
  "\<exists>m'. mb_pops 2 sample_mailbox = Some ([6, 5], m')"
  using mailbox_pops_fifo_by_priority [OF sample_mailbox_rep(1)]
  by (auto simp: mb_closed_def mb_blocked_def inbox_closed_def inbox_blocked_def
      sample_mailbox_rep(2) sample_urgent all_elems_def numeral_2_eq_2)

text \<open>
  C5: closing a mailbox. Every pending message is dropped and counted exactly once; each dropped
  request with a known sender is answered exactly once, under its response ID, in the order of the
  drain; afterwards the mailbox is empty and rejects every further message.
\<close>

theorem mailbox_close_bounces_requests:
  assumes "mailbox_rep m c" "\<not> mb_closed m"
  shows "\<exists>m'. mb_close m = Some (length (all_elems c),
      concat (map (\<lambda>x. case sender (elems m x) of
            None \<Rightarrow> []
          | Some a \<Rightarrow> if is_request (mid (elems m x)) then [(a, response_id (mid (elems m x)))] else [])
        (urgents c @ normals c @ rev (incoming c))), m')
    \<and> mailbox_rep m' \<lparr>urgents = [], normals = [], incoming = []\<rparr>
    \<and> (\<forall>x. mb_push_back m' x = (queue_closed, m'))"
  unfolding bounce_def [symmetric]
  using close_rep [OF assms(1)] assms(2) push_back_closed
  by (fastforce simp: mb_closed_def inbox_closed_def)

theorem mailbox_close_bounces_requests_witness:
  "\<exists>m'. mb_close sample_mailbox = Some (2, [(1, response_id (mk_message_id 1))], m')
     \<and> mb_push_back m' 9 = (queue_closed, m')"
proof -
  have "is_request (mk_message_id 1)" "\<not> is_request default_message_id"
    by (auto simp: is_request_bit default_message_id_def bit_1_iff)
  then show ?thesis
    using mailbox_close_bounces_requests [OF sample_mailbox_rep(1)]
    by (auto simp: mb_closed_def inbox_closed_def sample_mailbox_rep all_elems_def sample_elems_def)
qed

text \<open>
  C4: blocking never hides a message. The owner of an open mailbox blocks successfully if and only
  if no message is pending anywhere in the mailbox; the next message then reports that it unblocked
  the reader, and it is the only pending message.
\<close>

theorem mailbox_blocks_iff_empty:
  assumes "mailbox_rep m c" "\<not> mb_closed m" "\<not> mb_blocked m" "x \<notin> set (all_elems c)"
  shows "(fst (mb_try_block m) \<longleftrightarrow> all_elems c = [])
    \<and> (fst (mb_try_block m) \<longrightarrow>
         fst (mb_push_back (snd (mb_try_block m)) x) = unblocked_reader
         \<and> mailbox_rep (snd (mb_push_back (snd (mb_try_block m)) x))
             \<lparr>urgents = [], normals = [], incoming = [x]\<rparr>)"
proof -
  have sz: "cached m = length (urgents c) + length (normals c)"
    using assms(1) repD(4) [of "mstore m" "lists_of c"] by (simp add: cached_def ll_size_def mailbox_rep_def)
  have e: "inbox m = Empty_tag \<longleftrightarrow> incoming c = []"
    using assms(1-3)
    by (cases "inbox m") (auto simp: mailbox_rep_def mb_closed_def mb_blocked_def inbox_closed_def
        inbox_blocked_def)
  have iff: "fst (mb_try_block m) \<longleftrightarrow> all_elems c = []"
    using sz e by (auto simp: mb_try_block_def inbox_try_block_def all_elems_def)
  let ?m = "snd (mb_try_block m)"
  have "mailbox_rep ?m c \<and> inbox ?m = Blocked_tag" if "all_elems c = []"
    using that sz e assms(1) by (auto simp: mb_try_block_def inbox_try_block_def all_elems_def
        mailbox_rep_def)
  moreover have "c\<lparr>incoming := incoming c @ [x]\<rparr> = \<lparr>urgents = [], normals = [], incoming = [x]\<rparr>"
    if "all_elems c = []"
    using that by (cases c) (simp add: all_elems_def)
  ultimately show ?thesis
    using iff push_back_rep(1,2) [of ?m c x] assms(4)
    by (auto simp: mb_blocked_def inbox_blocked_def)
qed

theorem mailbox_blocks_iff_empty_witness:
  "fst (mb_try_block (new_mailbox sample_elems))
   \<and> fst (mb_push_back (snd (mb_try_block (new_mailbox sample_elems))) 5) = unblocked_reader
   \<and> \<not> fst (mb_try_block sample_mailbox)"
proof -
  from mailbox_blocks_iff_empty [OF new_mailbox_rep, of sample_elems 5]
    mailbox_blocks_iff_empty [OF sample_mailbox_rep(1), of 9]
  show ?thesis
    by (simp add: all_elems_def mb_closed_def mb_blocked_def inbox_closed_def inbox_blocked_def
        new_mailbox_def sample_mailbox_rep)
qed

end
