(* ===== verification/Error_Codes.thy ===== *)
theory Error_Codes
  imports CAF_Prelude
begin

text \<open>
  The error codes of \<^verbatim>\<open>libcaf_core/caf/sec.hpp\<close> that the modelled components raise, and the exit
  reasons of actors (\<^verbatim>\<open>libcaf_core/caf/exit_reason.hpp\<close>). The remaining codes of the enumeration are
  covered by \<open>other_sec\<close> with their integer.
\<close>

section \<open>Model\<close>

datatype sec =
    unexpected_message
  | unexpected_response
  | request_receiver_down
  | request_timeout
  | invalid_argument
  | end_of_stream
  | runtime_error
  | socket_disconnected
  | socket_operation_failed
  | malformed_message
  | invalid_field_type
  | connection_closed
  | unsupported_operation
  | broken_promise
  | disposed
  | protocol_error
  | logic_error
  | backpressure_overflow
  | other_sec u8

datatype exit_reason =
    exit_normal
  | exit_unknown
  | exit_out_of_workers
  | exit_user_shutdown
  | exit_kill
  | exit_remote_link_unreachable
  | exit_unreachable

text \<open>
  A \<^verbatim>\<open>caf::error\<close> is default-constructed (no error) or carries a code of some category. The categories
  the components use are the two enumerations above; \<open>user_error\<close> (category and code) stands for every
  other category.
\<close>

datatype error =
    no_error
  | sec_error sec
  | exit_error exit_reason
  | user_error u16 u8

text \<open>The code of an error, without its category; callers must not ask the default error for its code.\<close>

primrec sec_code :: "sec \<Rightarrow> u8" where
  "sec_code unexpected_message = 1"
| "sec_code unexpected_response = 2"
| "sec_code request_receiver_down = 3"
| "sec_code request_timeout = 4"
| "sec_code invalid_argument = 20"
| "sec_code end_of_stream = 24"
| "sec_code runtime_error = 28"
| "sec_code socket_disconnected = 44"
| "sec_code socket_operation_failed = 45"
| "sec_code malformed_message = 49"
| "sec_code invalid_field_type = 57"
| "sec_code connection_closed = 62"
| "sec_code unsupported_operation = 64"
| "sec_code broken_promise = 66"
| "sec_code disposed = 71"
| "sec_code protocol_error = 73"
| "sec_code logic_error = 74"
| "sec_code backpressure_overflow = 79"
| "sec_code (other_sec c) = c"

primrec exit_reason_code :: "exit_reason \<Rightarrow> u8" where
  "exit_reason_code exit_normal = 0"
| "exit_reason_code exit_unknown = 1"
| "exit_reason_code exit_out_of_workers = 2"
| "exit_reason_code exit_user_shutdown = 3"
| "exit_reason_code exit_kill = 4"
| "exit_reason_code exit_remote_link_unreachable = 5"
| "exit_reason_code exit_unreachable = 6"

primrec error_code :: "error \<Rightarrow> u8" where
  "error_code no_error = 0"
| "error_code (sec_error e) = sec_code e"
| "error_code (exit_error e) = exit_reason_code e"
| "error_code (user_error category c) = c"

end
