(* ===== verification/Abstract_Mailbox.thy ===== *)
theory Abstract_Mailbox
  imports Default_Mailbox Error_Codes "HOL-Library.Multiset"
begin

text \<open>
  The interface \<^verbatim>\<open>caf::abstract_mailbox\<close> (\<^verbatim>\<open>libcaf_core/caf/abstract_mailbox.hpp\<close>) through which an actor uses its
  mailbox: a table of functions, the contract that the comments of the interface state, and the proof that the
  default mailbox fulfils it.
\<close>

section \<open>Function table\<close>

text \<open>
  Elements live on a heap that belongs to the mailbox model; \<open>op_alloc\<close> stands for \<^verbatim>\<open>make_mailbox_element\<close>. Popping
  and closing chase pointers, so they may fail to return in principle.
\<close>

record ('b, 'p) mailbox_ops =
  op_elem :: "'b \<Rightarrow> addr \<Rightarrow> 'p mailbox_element"
  op_alloc :: "'b \<Rightarrow> addr \<Rightarrow> 'p mailbox_element \<Rightarrow> 'b"
  op_push_back :: "'b \<Rightarrow> addr \<Rightarrow> inbox_result \<times> 'b"
  op_push_front :: "'b \<Rightarrow> addr \<Rightarrow> 'b"
  op_pop_front :: "'b \<Rightarrow> (addr option \<times> 'b) option"
  op_closed :: "'b \<Rightarrow> bool"
  op_blocked :: "'b \<Rightarrow> bool"
  op_try_block :: "'b \<Rightarrow> bool \<times> 'b"
  op_close :: "'b \<Rightarrow> (nat \<times> (nat \<times> message_id) list \<times> 'b) option"

text \<open>The overrides of the default mailbox.\<close>

definition default_mailbox_ops :: "('p mailbox, 'p) mailbox_ops" where
  "default_mailbox_ops = \<lparr>
     op_elem = elems,
     op_alloc = (\<lambda>m x e. m\<lparr>elems := (elems m)(x := e)\<rparr>),
     op_push_back = mb_push_back,
     op_push_front = mb_push_front,
     op_pop_front = (\<lambda>m. map_option (\<lambda>(r, m'). (case r of Elem x \<Rightarrow> Some x | _ \<Rightarrow> None, m')) (mb_pop_front m)),
     op_closed = mb_closed,
     op_blocked = mb_blocked,
     op_try_block = mb_try_block,
     op_close = mb_close\<rparr>"

section \<open>Contract\<close>

abbreviation no_contents :: contents where
  "no_contents \<equiv> \<lparr>urgents = [], normals = [], incoming = []\<rparr>"

definition urgent_in :: "(addr \<Rightarrow> 'p mailbox_element) \<Rightarrow> addr \<Rightarrow> bool" where
  "urgent_in E x \<longleftrightarrow> is_urgent_message (mid (E x))"

text \<open>Popping an open mailbox returns nothing exactly if it is empty, and otherwise removes one element.\<close>

lemma take_next_mset:
  "case take_next c of (None, c') \<Rightarrow> urgents c = [] \<and> normals c = [] \<and> c' = c
   | (Some x, c') \<Rightarrow> mset (all_elems c) = add_mset x (mset (all_elems c'))"
  by (simp add: take_next.simps all_elems_def split: list.split)

lemma fetched_contents_mset: "mset (all_elems (fetched_contents P c)) = mset (all_elems c)"
proof -
  have "mset (incoming c) = mset (filter P (incoming c)) + mset (filter (\<lambda>x. \<not> P x) (incoming c))"
    by (simp add: multiset_partition[symmetric])
  then show ?thesis by (simp add: fetched_contents_def all_elems_def)
qed

lemma spec_pop_mset:
  "case spec_pop P c of (None, c') \<Rightarrow> all_elems c = [] \<and> all_elems c' = []
   | (Some x, c') \<Rightarrow> mset (all_elems c) = add_mset x (mset (all_elems c'))"
proof (cases "urgents c = [] \<and> normals c = []")
  case True
  let ?c = "fetched_contents P c"
  show ?thesis
  proof (cases "take_next ?c")
    case (Pair r c')
    then have "all_elems ?c = [] \<and> c' = ?c" if "r = None"
      using take_next_mset[of ?c] that by (simp add: all_elems_def fetched_contents_def[of P c])
    with Pair take_next_mset[of ?c] True fetched_contents_mset[of P c] show ?thesis
      by (cases r) (auto simp: spec_pop_def)
  qed
next
  case False
  show ?thesis
  proof (cases "take_next c")
    case (Pair r c')
    with take_next_mset[of c] False show ?thesis by (cases r) (auto simp: spec_pop_def)
  qed
qed

text \<open>
  \<open>mrep b c\<close> says that the mailbox \<open>b\<close> holds the contents \<open>c\<close>. A blocked mailbox is empty, a message that finds it
  blocked is told so, and closing it discards every message once and bounces the requests among them.
\<close>

locale mailbox_contract =
  fixes ops :: "('b, 'p) mailbox_ops" and mrep :: "'b \<Rightarrow> contents \<Rightarrow> bool"
  assumes distinct_elems: "mrep b c \<Longrightarrow> distinct (all_elems c)"
    and blocked_empty: "mrep b c \<Longrightarrow> op_blocked ops b \<Longrightarrow> incoming c = []"
    and not_both: "\<not> (op_blocked ops b \<and> op_closed ops b)"
    and alloc: "mrep b c \<Longrightarrow> mrep (op_alloc ops b x e) c"
    and alloc_elem: "op_elem ops (op_alloc ops b x e) = (op_elem ops b)(x := e)"
    and alloc_flags: "op_closed ops (op_alloc ops b x e) = op_closed ops b"
      "op_blocked ops (op_alloc ops b x e) = op_blocked ops b"
    and push_back_open: "mrep b c \<Longrightarrow> x \<notin> set (all_elems c) \<Longrightarrow> \<not> op_closed ops b \<Longrightarrow>
      \<exists>b'. op_push_back ops b x = (if op_blocked ops b then unblocked_reader else success, b') \<and>
        mrep b' (c\<lparr>incoming := incoming c @ [x]\<rparr>) \<and> op_elem ops b' = op_elem ops b \<and>
        \<not> op_closed ops b' \<and> \<not> op_blocked ops b'"
    and push_back_closed: "op_closed ops b \<Longrightarrow> op_push_back ops b x = (queue_closed, b)"
    and push_front: "mrep b c \<Longrightarrow> x \<notin> set (all_elems c) \<Longrightarrow>
      mrep (op_push_front ops b x)
        (if urgent_in (op_elem ops b) x then c\<lparr>urgents := x # urgents c\<rparr> else c\<lparr>normals := x # normals c\<rparr>)"
    and push_front_frame: "op_elem ops (op_push_front ops b x) = op_elem ops b"
      "op_closed ops (op_push_front ops b x) = op_closed ops b"
      "op_blocked ops (op_push_front ops b x) = op_blocked ops b"
    and pop_front: "mrep b c \<Longrightarrow> \<not> op_closed ops b \<Longrightarrow> \<not> op_blocked ops b \<Longrightarrow>
      \<exists>b'. op_pop_front ops b = Some (fst (spec_pop (urgent_in (op_elem ops b)) c), b') \<and>
        mrep b' (snd (spec_pop (urgent_in (op_elem ops b)) c)) \<and> op_elem ops b' = op_elem ops b \<and>
        \<not> op_closed ops b' \<and> \<not> op_blocked ops b'"
    and try_block: "mrep b c \<Longrightarrow> \<not> op_closed ops b \<Longrightarrow> \<not> op_blocked ops b \<Longrightarrow>
      \<exists>b'. op_try_block ops b = (all_elems c = [], b') \<and> mrep b' c \<and> op_elem ops b' = op_elem ops b \<and>
        \<not> op_closed ops b' \<and> (op_blocked ops b' \<longleftrightarrow> all_elems c = [])"
    and close: "mrep b c \<Longrightarrow> \<not> op_closed ops b \<Longrightarrow>
      \<exists>xs b'. op_close ops b = Some (length (all_elems c), concat (map (\<lambda>x. bounce (op_elem ops b x)) xs), b') \<and>
        mset xs = mset (all_elems c) \<and> mrep b' no_contents \<and> op_elem ops b' = op_elem ops b \<and> op_closed ops b'"
begin

lemma pop_front_cases:
  assumes "mrep b c" "\<not> op_closed ops b" "\<not> op_blocked ops b"
  obtains (empty) b' c' where "op_pop_front ops b = Some (None, b')" "all_elems c = []" "mrep b' c'" "all_elems c' = []"
      "op_elem ops b' = op_elem ops b" "\<not> op_closed ops b'" "\<not> op_blocked ops b'"
  | (elem) x b' c' where "op_pop_front ops b = Some (Some x, b')" "mset (all_elems c) = add_mset x (mset (all_elems c'))" "mrep b' c'"
      "op_elem ops b' = op_elem ops b" "\<not> op_closed ops b'" "\<not> op_blocked ops b'"
  using pop_front[OF assms] spec_pop_mset[where P = "urgent_in (op_elem ops b)" and c = c]
  by (cases "spec_pop (urgent_in (op_elem ops b)) c"; cases "fst (spec_pop (urgent_in (op_elem ops b)) c)") auto

end

section \<open>The default mailbox\<close>

lemma urgent_in_elems: "urgent_in (elems m) = urgent_elem m"
  by (simp add: urgent_in_def urgent_elem_def fun_eq_iff)

lemma mailbox_rep_elems: "mailbox_rep (m\<lparr>elems := E\<rparr>) c = mailbox_rep m c"
  by (simp add: mailbox_rep_def)

lemma default_try_block:
  assumes "mailbox_rep m c" "inbox m \<noteq> Closed_tag" "inbox m \<noteq> Blocked_tag"
  shows "\<exists>m'. mb_try_block m = (all_elems c = [], m') \<and> mailbox_rep m' c \<and> elems m' = elems m \<and>
    inbox m' \<noteq> Closed_tag \<and> (inbox m' = Blocked_tag \<longleftrightarrow> all_elems c = [])"
proof -
  have sz: "cached m = length (urgents c) + length (normals c)"
    using assms(1) repD(4) [of "mstore m" "lists_of c"] by (simp add: cached_def ll_size_def mailbox_rep_def)
  have e: "inbox m = Empty_tag \<longleftrightarrow> incoming c = []"
    using assms by (cases "inbox m") (auto simp: mailbox_rep_def)
  show ?thesis
  proof (cases "all_elems c = []")
    case True
    then have "cached m = 0" "inbox m = Empty_tag" using sz e by (simp_all add: all_elems_def)
    with True assms(1) show ?thesis by (simp add: mb_try_block_def inbox_try_block_def mailbox_rep_def)
  next
    case False
    then show ?thesis using sz e assms by (auto simp: mb_try_block_def inbox_try_block_def all_elems_def)
  qed
qed

lemmas mb_flags = mb_closed_def mb_blocked_def inbox_closed_def inbox_blocked_def

interpretation dmb: mailbox_contract default_mailbox_ops mailbox_rep
proof (unfold_locales, goal_cases)
  case (1 b c)
  then show ?case by (simp add: mailbox_rep_def)
next
  case (2 b c)
  then show ?case by (simp add: default_mailbox_ops_def mailbox_rep_def mb_flags)
next
  case (3 b)
  then show ?case by (simp add: default_mailbox_ops_def mb_flags)
next
  case (4 b c x e)
  then show ?case by (simp add: default_mailbox_ops_def mailbox_rep_elems)
next
  case (8 b c x)
  then show ?case using push_back_rep[of b c x]
    by (cases "mb_push_back b x") (auto simp: default_mailbox_ops_def mb_flags)
next
  case (9 b x)
  then show ?case by (simp add: default_mailbox_ops_def push_back_closed)
next
  case (10 b c x)
  then show ?case using push_front_rep[of b c x] by (simp add: default_mailbox_ops_def urgent_in_elems)
next
  case (14 b c)
  then show ?case using pop_front_rep[of b c]
    by (auto simp: default_mailbox_ops_def urgent_in_elems mb_flags split: option.splits)
next
  case (15 b c)
  then show ?case using default_try_block[of b c] by (simp add: default_mailbox_ops_def mb_flags)
next
  case (16 b c)
  then have "inbox b \<noteq> Closed_tag" by (simp add: default_mailbox_ops_def mb_flags)
  from close_rep[OF 16(1) this] obtain m' where
    m': "mb_close b = Some (length (all_elems c), concat (map (\<lambda>x. bounce (elems b x)) (urgents c @ normals c @ rev (incoming c))), m')"
      "mb_closed m'" "mailbox_rep m' no_contents" by blast
  have "elems m' = elems b" using m'(1) by (auto simp: mb_close_def Let_def split: option.splits prod.splits)
  with m' show ?case
    by (intro exI[of _ "urgents c @ normals c @ rev (incoming c)"] exI[of _ m'])
       (simp add: default_mailbox_ops_def all_elems_def)
qed (simp_all add: default_mailbox_ops_def mb_push_front_def mb_flags)

end
