(* ===== verification/Scheduled_Actor.thy ===== *)
theory Scheduled_Actor
  imports Abstract_Mailbox
begin

text \<open>
  The message loop of \<^verbatim>\<open>caf::scheduled_actor\<close> (\<^verbatim>\<open>libcaf_core/caf/scheduled_actor.cpp\<close>) on top of a mailbox: activation,
  dispatching of messages to awaited responses, multiplexed responses, behaviors and default handlers, stashing of
  skipped messages, delayed actions, exceptions and termination. User code is a parameter. Receive timeouts, flows,
  streams, links and the \<^verbatim>\<open>('sys', 'get')\<close> messages are not modelled; actions do not throw.
\<close>

section \<open>Messages and user code\<close>

datatype ('p, 'h) content =
    Ordinary 'p
  | Exit_msg error
  | Down_msg error
  | Node_down_msg error
  | Error_msg error
  | Action_msg 'h

datatype 'p reply =
    Value 'p
  | Empty_reply
  | Err error

datatype 'h default_handler_t =
    Print_and_drop
  | Drop_msg
  | Reflect
  | Reflect_and_quit
  | Skip_msg
  | Drop_after_quit
  | Custom_default 'h

datatype 'h handler_t =
    Default_handler
  | Silently_ignore
  | Custom_handler 'h

datatype 'h response_handler =
    User_handler 'h
  | Delay_bhvr

text \<open>
  What user code may ask of the actor while it handles a message or runs an action. The message IDs are the request
  IDs that \<^verbatim>\<open>new_request_id\<close> draws.
\<close>

datatype 'h cmd =
    Become "'h option" bool
  | Quit error
  | Await message_id 'h
  | Then message_id 'h
  | Delay 'h message_id
  | Set_default "'h default_handler_t"

text \<open>
  A handler returns a result or takes a response promise. \<open>matched\<close> tells whether it accepts the content; a handler
  that does not has no effect. \<open>thrown\<close> is the error that the exception handler makes of an exception.
\<close>

datatype 'p result =
    Return "'p reply"
  | Promise

record ('p, 'h, 'u) outcome =
  matched :: bool
  result :: "'p result"
  cmds :: "'h cmd list"
  thrown :: "error option"
  next_user :: 'u

record ('p, 'h, 'u) program =
  init_code :: "'u \<Rightarrow> 'h cmd list \<times> error option \<times> 'u"
  code :: "'h \<Rightarrow> ('p, 'h) content \<Rightarrow> 'u \<Rightarrow> ('p, 'h, 'u) outcome"
  act :: "'h \<Rightarrow> 'u \<Rightarrow> 'h cmd list \<times> 'u"

section \<open>State\<close>

type_synonym 'p response = "nat \<times> message_id \<times> 'p reply"

text \<open>
  The behavior stack has its back first. The last fields record the history: the elements that the mailbox accepted
  and rejected, the elements whose handler took a response promise, all responses the actor sent, and the elements it
  has handled with the responses sent for them.
\<close>

record ('b, 'p, 'h, 'u) sactor =
  mbox :: 'b
  next_addr :: addr
  stash :: "addr list"
  bhvr_stack :: "'h list"
  awaited_responses :: "(message_id \<times> 'h) list"
  multiplexed_responses :: "message_id \<Rightarrow> 'h response_handler option"
  default_handler :: "'h default_handler_t"
  error_handler :: "'h handler_t"
  down_handler :: "'h handler_t"
  node_down_handler :: "'h handler_t"
  exit_handler :: "'h handler_t"
  is_initialized :: bool
  is_shutting_down :: bool
  is_terminated :: bool
  fail_state :: error
  actions :: "'h list"
  delayed_actions_this_run :: nat
  user :: 'u
  scheduled :: bool
  accepted :: "addr list"
  rejected :: "addr list"
  promised :: "addr list"
  responses :: "'p response list"
  handled :: "(addr \<times> 'p response list) list"

definition mk_scheduled_actor :: "'b \<Rightarrow> 'u \<Rightarrow> ('b, 'p, 'h, 'u) sactor" where
  "mk_scheduled_actor b u = \<lparr>
     mbox = b, next_addr = 0, stash = [], bhvr_stack = [], awaited_responses = [], multiplexed_responses = Map.empty,
     default_handler = Print_and_drop, error_handler = Default_handler, down_handler = Default_handler,
     node_down_handler = Default_handler, exit_handler = Default_handler, is_initialized = False,
     is_shutting_down = False, is_terminated = False, fail_state = no_error, actions = [],
     delayed_actions_this_run = 0, user = u, scheduled = False, accepted = [], rejected = [], promised = [],
     responses = [], handled = []\<rparr>"

definition alive :: "('b, 'p, 'h, 'u) sactor \<Rightarrow> bool" where
  "alive s \<longleftrightarrow> bhvr_stack s \<noteq> [] \<or> awaited_responses s \<noteq> [] \<or> multiplexed_responses s \<noteq> Map.empty"

section \<open>Enqueueing\<close>

definition bounce_responses :: "('p, 'h) content mailbox_element \<Rightarrow> 'p response list" where
  "bounce_responses e = map (\<lambda>(a, i). (a, i, Err (sec_error request_receiver_down))) (bounce e)"

definition enqueue ::
    "('b, ('p, 'h) content) mailbox_ops \<Rightarrow> ('p, 'h) content mailbox_element \<Rightarrow> ('b, 'p, 'h, 'u) sactor \<Rightarrow> ('b, 'p, 'h, 'u) sactor" where
  "enqueue ops e s =
     (let x = next_addr s;
          s = s\<lparr>next_addr := x + 1, mbox := op_alloc ops (mbox s) x e\<rparr>
      in case op_push_back ops (mbox s) x of
           (unblocked_reader, b) \<Rightarrow> s\<lparr>mbox := b, accepted := accepted s @ [x], scheduled := True\<rparr>
         | (success, b) \<Rightarrow> s\<lparr>mbox := b, accepted := accepted s @ [x]\<rparr>
         | (queue_closed, b) \<Rightarrow> s\<lparr>mbox := b, rejected := rejected s @ [x], responses := responses s @ bounce_responses e\<rparr>)"

definition launch :: "('b, ('p, 'h) content) mailbox_ops \<Rightarrow> bool \<Rightarrow> ('b, 'p, 'h, 'u) sactor \<Rightarrow> ('b, 'p, 'h, 'u) sactor" where
  "launch ops lazy s =
     (if lazy then (case op_try_block ops (mbox s) of (r, b) \<Rightarrow> s\<lparr>mbox := b, scheduled := \<not> r\<rparr>)
      else s\<lparr>scheduled := True\<rparr>)"

section \<open>Commands and actions\<close>

definition max_inline_actions_per_run :: nat where
  "max_inline_actions_per_run = 10"

definition do_become :: "'h option \<Rightarrow> bool \<Rightarrow> ('b, 'p, 'h, 'u) sactor \<Rightarrow> ('b, 'p, 'h, 'u) sactor" where
  "do_become bhvr discard_old s =
     (if is_terminated s \<or> is_shutting_down s then s
      else let st = (if discard_old then tl (bhvr_stack s) else bhvr_stack s)
           in s\<lparr>bhvr_stack := (case bhvr of None \<Rightarrow> st | Some h \<Rightarrow> h # st)\<rparr>)"

definition add_awaited_response_handler :: "message_id \<Rightarrow> 'h \<Rightarrow> ('b, 'p, 'h, 'u) sactor \<Rightarrow> ('b, 'p, 'h, 'u) sactor" where
  "add_awaited_response_handler i h s = s\<lparr>awaited_responses := (i, h) # awaited_responses s\<rparr>"

definition add_multiplexed_response_handler ::
    "message_id \<Rightarrow> 'h response_handler \<Rightarrow> ('b, 'p, 'h, 'u) sactor \<Rightarrow> ('b, 'p, 'h, 'u) sactor" where
  "add_multiplexed_response_handler i h s =
     (case multiplexed_responses s i of
        None \<Rightarrow> s\<lparr>multiplexed_responses := (multiplexed_responses s)(i \<mapsto> h)\<rparr>
      | Some _ \<Rightarrow> s)"

definition delay ::
    "('b, ('p, 'h) content) mailbox_ops \<Rightarrow> 'h \<Rightarrow> message_id \<Rightarrow> ('b, 'p, 'h, 'u) sactor \<Rightarrow> ('b, 'p, 'h, 'u) sactor" where
  "delay ops f rid s =
     (let n = delayed_actions_this_run s; s = s\<lparr>delayed_actions_this_run := n + 1\<rparr>
      in if n < max_inline_actions_per_run then s\<lparr>actions := actions s @ [f]\<rparr>
         else add_multiplexed_response_handler (response_id rid) Delay_bhvr
                (enqueue ops \<lparr>sender = None, mid = response_id rid, payload = Action_msg f\<rparr> s))"

text \<open>\<^verbatim>\<open>quit\<close> up to the call of \<^verbatim>\<open>cancel_flows_and_streams\<close>, whose last statement runs the pending actions.\<close>

definition begin_quit :: "error \<Rightarrow> ('b, 'p, 'h, 'u) sactor \<Rightarrow> ('b, 'p, 'h, 'u) sactor" where
  "begin_quit x s = s\<lparr>is_shutting_down := True, fail_state := x, bhvr_stack := [], awaited_responses := [],
     multiplexed_responses := Map.empty, exit_handler := Silently_ignore, down_handler := Silently_ignore,
     error_handler := Silently_ignore, default_handler := Drop_after_quit\<rparr>"

text \<open>While actions run, the first slot of the vector is empty and a nested \<^verbatim>\<open>run_actions\<close> only resets the counter.\<close>

definition quit_nested :: "error \<Rightarrow> ('b, 'p, 'h, 'u) sactor \<Rightarrow> ('b, 'p, 'h, 'u) sactor" where
  "quit_nested x s = (if is_shutting_down s then s else (begin_quit x s)\<lparr>delayed_actions_this_run := 0\<rparr>)"

fun exec_nested ::
    "('b, ('p, 'h) content) mailbox_ops \<Rightarrow> 'h cmd \<Rightarrow> ('b, 'p, 'h, 'u) sactor \<Rightarrow> ('b, 'p, 'h, 'u) sactor" where
  "exec_nested ops (Become b d) s = do_become b d s"
| "exec_nested ops (Quit x) s = quit_nested x s"
| "exec_nested ops (Await rid h) s = add_awaited_response_handler (response_id rid) h s"
| "exec_nested ops (Then rid h) s = add_multiplexed_response_handler (response_id rid) (User_handler h) s"
| "exec_nested ops (Delay f rid) s = delay ops f rid s"
| "exec_nested ops (Set_default d) s = s\<lparr>default_handler := d\<rparr>"

text \<open>The number of actions that can still run before \<^verbatim>\<open>run_actions\<close> returns.\<close>

definition action_budget :: "('b, 'p, 'h, 'u) sactor \<Rightarrow> nat" where
  "action_budget s = length (actions s) + (max_inline_actions_per_run - delayed_actions_this_run s) +
     (if is_shutting_down s then 0 else max_inline_actions_per_run)"

lemma add_multiplexed_frame [simp]:
  "actions (add_multiplexed_response_handler i h s) = actions s"
  "delayed_actions_this_run (add_multiplexed_response_handler i h s) = delayed_actions_this_run s"
  "is_shutting_down (add_multiplexed_response_handler i h s) = is_shutting_down s"
  by (simp_all add: add_multiplexed_response_handler_def split: option.split)

lemma enqueue_frame [simp]:
  "actions (enqueue ops e s) = actions s"
  "delayed_actions_this_run (enqueue ops e s) = delayed_actions_this_run s"
  "is_shutting_down (enqueue ops e s) = is_shutting_down s"
  by (simp_all add: enqueue_def Let_def split: prod.split inbox_result.split)

lemma exec_nested_budget: "action_budget (exec_nested ops c s) \<le> action_budget s"
  by (cases c) (auto simp: action_budget_def do_become_def quit_nested_def begin_quit_def add_awaited_response_handler_def
      delay_def Let_def)

lemma fold_nested_budget: "action_budget (fold (exec_nested ops) cs s) \<le> action_budget s"
  by (induction cs arbitrary: s) (auto intro: order_trans[OF _ exec_nested_budget])

function run_loop ::
    "('b, ('p, 'h) content) mailbox_ops \<Rightarrow> ('p, 'h, 'u) program \<Rightarrow> ('b, 'p, 'h, 'u) sactor \<Rightarrow> ('b, 'p, 'h, 'u) sactor" where
  "run_loop ops prog s =
     (case actions s of
        [] \<Rightarrow> s
      | f # fs \<Rightarrow> (case act prog f (user s) of (cs, u) \<Rightarrow>
          run_loop ops prog (fold (exec_nested ops) cs (s\<lparr>actions := fs, user := u\<rparr>))))"
  by auto
termination
proof (relation "measure (\<lambda>(ops, prog, s). action_budget s)", goal_cases)
  case (2 ops prog s f fs cs u)
  then have "action_budget (s\<lparr>actions := fs, user := u\<rparr>) < action_budget s" by (simp add: action_budget_def)
  with fold_nested_budget[of ops cs "s\<lparr>actions := fs, user := u\<rparr>"] show ?case by simp
qed simp

declare run_loop.simps [simp del]

definition run_actions ::
    "('b, ('p, 'h) content) mailbox_ops \<Rightarrow> ('p, 'h, 'u) program \<Rightarrow> ('b, 'p, 'h, 'u) sactor \<Rightarrow> ('b, 'p, 'h, 'u) sactor" where
  "run_actions ops prog s = run_loop ops prog (s\<lparr>delayed_actions_this_run := 0\<rparr>)"

definition quit ::
    "('b, ('p, 'h) content) mailbox_ops \<Rightarrow> ('p, 'h, 'u) program \<Rightarrow> error \<Rightarrow> ('b, 'p, 'h, 'u) sactor \<Rightarrow> ('b, 'p, 'h, 'u) sactor" where
  "quit ops prog x s = (if is_shutting_down s then s else run_actions ops prog (begin_quit x s))"

definition exec ::
    "('b, ('p, 'h) content) mailbox_ops \<Rightarrow> ('p, 'h, 'u) program \<Rightarrow> 'h cmd \<Rightarrow> ('b, 'p, 'h, 'u) sactor \<Rightarrow> ('b, 'p, 'h, 'u) sactor" where
  "exec ops prog c s = (case c of Quit x \<Rightarrow> quit ops prog x s | _ \<Rightarrow> exec_nested ops c s)"

section \<open>Termination\<close>

definition stash_bounces :: "('b, ('p, 'h) content) mailbox_ops \<Rightarrow> ('b, 'p, 'h, 'u) sactor \<Rightarrow> 'p response list" where
  "stash_bounces ops s = concat (map (\<lambda>x. bounce_responses (op_elem ops (mbox s) x)) (stash s))"

definition close_mailbox ::
    "('b, ('p, 'h) content) mailbox_ops \<Rightarrow> ('b, 'p, 'h, 'u) sactor \<Rightarrow> ('b, 'p, 'h, 'u) sactor option" where
  "close_mailbox ops s =
     (let s = s\<lparr>responses := responses s @ stash_bounces ops s, stash := []\<rparr>
      in if op_closed ops (mbox s) then Some s
         else case op_close ops (mbox s) of
                None \<Rightarrow> None
              | Some (n, bs, b) \<Rightarrow>
                  Some (s\<lparr>mbox := b, responses := responses s @ map (\<lambda>(a, i). (a, i, Err (sec_error request_receiver_down))) bs\<rparr>))"

definition on_cleanup ::
    "('b, ('p, 'h) content) mailbox_ops \<Rightarrow> ('p, 'h, 'u) program \<Rightarrow> ('b, 'p, 'h, 'u) sactor \<Rightarrow> ('b, 'p, 'h, 'u) sactor option" where
  "on_cleanup ops prog s =
     close_mailbox ops (run_actions ops prog (s\<lparr>awaited_responses := [], multiplexed_responses := Map.empty\<rparr>))"

definition cleanup ::
    "('b, ('p, 'h) content) mailbox_ops \<Rightarrow> ('p, 'h, 'u) program \<Rightarrow> ('b, 'p, 'h, 'u) sactor \<Rightarrow> ('b, 'p, 'h, 'u) sactor option" where
  "cleanup ops prog s = (if is_terminated s then Some s else on_cleanup ops prog (s\<lparr>is_terminated := True\<rparr>))"

definition finalize ::
    "('b, ('p, 'h) content) mailbox_ops \<Rightarrow> ('p, 'h, 'u) program \<Rightarrow> ('b, 'p, 'h, 'u) sactor \<Rightarrow> (bool \<times> ('b, 'p, 'h, 'u) sactor) option" where
  "finalize ops prog s =
     (if is_terminated s then Some (True, s)
      else let s = run_actions ops prog s
           in if alive s then Some (False, s) else map_option (Pair True) (cleanup ops prog s))"

section \<open>Dispatching\<close>

datatype invoke_message_result = Consumed | Skipped | Dropped

definition respond ::
    "('p, 'h) content mailbox_element \<Rightarrow> 'p reply \<Rightarrow> ('b, 'p, 'h, 'u) sactor \<Rightarrow> ('b, 'p, 'h, 'u) sactor" where
  "respond e r s =
     (case sender e of
        None \<Rightarrow> s
      | Some a \<Rightarrow>
          if is_response (mid e) \<or> is_answered (mid e) \<or> r = Empty_reply \<and> is_async (mid e) then s
          else s\<lparr>responses := responses s @ [(a, response_id (mid e), r)]\<rparr>)"

text \<open>
  A call of user code: \<^term>\<open>None\<close> if it does not match the content, otherwise the result, or the error of an
  exception, and the new state.
\<close>

definition call ::
    "('b, ('p, 'h) content) mailbox_ops \<Rightarrow> ('p, 'h, 'u) program \<Rightarrow> 'h \<Rightarrow> ('p, 'h) content \<Rightarrow> ('b, 'p, 'h, 'u) sactor
     \<Rightarrow> ('p result \<times> error option \<times> ('b, 'p, 'h, 'u) sactor) option" where
  "call ops prog h c s =
     (let out = code prog h c (user s)
      in if matched out
         then Some (result out, thrown out, fold (exec ops prog) (cmds out) (s\<lparr>user := next_user out\<rparr>))
         else None)"

definition run_action ::
    "('b, ('p, 'h) content) mailbox_ops \<Rightarrow> ('p, 'h, 'u) program \<Rightarrow> 'h \<Rightarrow> ('b, 'p, 'h, 'u) sactor \<Rightarrow> ('b, 'p, 'h, 'u) sactor" where
  "run_action ops prog f s = (case act prog f (user s) of (cs, u) \<Rightarrow> fold (exec ops prog) cs (s\<lparr>user := u\<rparr>))"

definition invoke_response ::
    "('b, ('p, 'h) content) mailbox_ops \<Rightarrow> ('p, 'h, 'u) program \<Rightarrow> 'h response_handler \<Rightarrow> ('p, 'h) content \<Rightarrow> ('b, 'p, 'h, 'u) sactor
     \<Rightarrow> (error + invoke_message_result) \<times> ('b, 'p, 'h, 'u) sactor" where
  "invoke_response ops prog f c s =
     (case f of
        Delay_bhvr \<Rightarrow> (Inr Consumed, case c of Action_msg a \<Rightarrow> run_action ops prog a s | _ \<Rightarrow> s)
      | User_handler h \<Rightarrow>
          (case (case call ops prog h c s of
                   None \<Rightarrow> call ops prog h (Error_msg (sec_error unexpected_response)) s
                 | r \<Rightarrow> r) of
             None \<Rightarrow> (Inr Consumed, s)
           | Some (_, None, s') \<Rightarrow> (Inr Consumed, s')
           | Some (_, Some err, s') \<Rightarrow> (Inl err, s')))"

datatype message_category = Internal_category | Ordinary_category

definition categorize ::
    "('b, ('p, 'h) content) mailbox_ops \<Rightarrow> ('p, 'h, 'u) program \<Rightarrow> ('p, 'h) content \<Rightarrow> ('b, 'p, 'h, 'u) sactor
     \<Rightarrow> message_category \<times> ('b, 'p, 'h, 'u) sactor" where
  "categorize ops prog c s =
     (case c of
        Exit_msg r \<Rightarrow> if r = exit_error exit_kill then (Internal_category, quit ops prog r s) else (Ordinary_category, s)
      | Action_msg f \<Rightarrow> (Internal_category, run_action ops prog f s)
      | _ \<Rightarrow> (Ordinary_category, s))"

text \<open>The handlers for exit, down and error messages.\<close>

definition call_handler ::
    "('b, ('p, 'h) content) mailbox_ops \<Rightarrow> ('p, 'h, 'u) program \<Rightarrow> 'h handler_t \<Rightarrow> error option \<Rightarrow> ('p, 'h) content \<Rightarrow> ('b, 'p, 'h, 'u) sactor
     \<Rightarrow> (error + invoke_message_result) \<times> ('b, 'p, 'h, 'u) sactor" where
  "call_handler ops prog h default_quit c s =
     (case h of
        Silently_ignore \<Rightarrow> (Inr Consumed, s)
      | Default_handler \<Rightarrow> (Inr Consumed, case default_quit of None \<Rightarrow> s | Some x \<Rightarrow> quit ops prog x s)
      | Custom_handler f \<Rightarrow>
          (case call ops prog f c s of
             None \<Rightarrow> (Inr Consumed, s)
           | Some (_, None, s') \<Rightarrow> (Inr Consumed, s')
           | Some (_, Some err, s') \<Rightarrow> (Inl err, s')))"

text \<open>Passing the result of a handler on to the sender of the element at address \<open>x\<close>.\<close>

definition visit_result ::
    "addr \<Rightarrow> ('p, 'h) content mailbox_element \<Rightarrow> 'p result \<Rightarrow> ('b, 'p, 'h, 'u) sactor \<Rightarrow> ('b, 'p, 'h, 'u) sactor" where
  "visit_result x e r s = (case r of Return v \<Rightarrow> respond e v s | Promise \<Rightarrow> s\<lparr>promised := promised s @ [x]\<rparr>)"

definition finish_call ::
    "addr \<Rightarrow> ('p, 'h) content mailbox_element \<Rightarrow> 'p result \<times> error option \<times> ('b, 'p, 'h, 'u) sactor
     \<Rightarrow> (error + invoke_message_result) \<times> ('b, 'p, 'h, 'u) sactor" where
  "finish_call x e out =
     (case out of
        (r, None, s) \<Rightarrow> (Inr Consumed, visit_result x e r s)
      | (r, Some err, s) \<Rightarrow> (Inl err, if r = Promise then s\<lparr>promised := promised s @ [x]\<rparr> else s))"

definition call_default_handler ::
    "('b, ('p, 'h) content) mailbox_ops \<Rightarrow> ('p, 'h, 'u) program \<Rightarrow> addr \<Rightarrow> ('p, 'h) content mailbox_element \<Rightarrow> ('b, 'p, 'h, 'u) sactor
     \<Rightarrow> (error + invoke_message_result) \<times> ('b, 'p, 'h, 'u) sactor" where
  "call_default_handler ops prog x e s =
     (let reflected = (case payload e of Ordinary p \<Rightarrow> Value p | _ \<Rightarrow> Empty_reply)
      in case default_handler s of
           Print_and_drop \<Rightarrow> (Inr Consumed, respond e (Err (sec_error unexpected_message)) s)
         | Drop_msg \<Rightarrow> (Inr Consumed, respond e (Err (sec_error unexpected_message)) s)
         | Reflect \<Rightarrow> (Inr Consumed, respond e reflected s)
         | Reflect_and_quit \<Rightarrow> (Inr Consumed, respond e reflected (quit ops prog (exit_error exit_normal) s))
         | Skip_msg \<Rightarrow> (Inr Skipped, s)
         | Drop_after_quit \<Rightarrow>
             (Inr Consumed, respond e (if is_request (mid e) then Err (sec_error request_receiver_down) else Empty_reply) s)
         | Custom_default f \<Rightarrow>
             (case call ops prog f (payload e) s of
                None \<Rightarrow> (Inr Skipped, s)
              | Some out \<Rightarrow> finish_call x e out))"

definition consume_ordinary ::
    "('b, ('p, 'h) content) mailbox_ops \<Rightarrow> ('p, 'h, 'u) program \<Rightarrow> addr \<Rightarrow> ('p, 'h) content mailbox_element \<Rightarrow> ('b, 'p, 'h, 'u) sactor
     \<Rightarrow> (error + invoke_message_result) \<times> ('b, 'p, 'h, 'u) sactor" where
  "consume_ordinary ops prog x e s =
     (case (case bhvr_stack s of [] \<Rightarrow> None | h # _ \<Rightarrow> call ops prog h (payload e) s) of
        Some out \<Rightarrow> finish_call x e out
      | None \<Rightarrow>
          (case payload e of
             Exit_msg r \<Rightarrow> call_handler ops prog (exit_handler s) (if r = no_error then None else Some r) (payload e) s
           | Down_msg r \<Rightarrow> call_handler ops prog (down_handler s) None (payload e) s
           | Node_down_msg r \<Rightarrow> call_handler ops prog (node_down_handler s) None (payload e) s
           | Error_msg r \<Rightarrow> call_handler ops prog (error_handler s) (Some r) (payload e) s
           | _ \<Rightarrow> call_default_handler ops prog x e s))"

definition consume ::
    "('b, ('p, 'h) content) mailbox_ops \<Rightarrow> ('p, 'h, 'u) program \<Rightarrow> addr \<Rightarrow> ('p, 'h) content mailbox_element \<Rightarrow> ('b, 'p, 'h, 'u) sactor
     \<Rightarrow> (error + invoke_message_result) \<times> ('b, 'p, 'h, 'u) sactor" where
  "consume ops prog x e s =
     (case awaited_responses s of
        (i, h) # rest \<Rightarrow>
          if mid e \<noteq> i then
            if is_response (mid e) then (Inr Skipped, s)
            else (case categorize ops prog (payload e) s of
                    (Internal_category, s') \<Rightarrow> (Inr Consumed, s')
                  | (Ordinary_category, s') \<Rightarrow> (Inr Skipped, s'))
          else invoke_response ops prog (User_handler h) (payload e) (s\<lparr>awaited_responses := rest\<rparr>)
      | [] \<Rightarrow>
          if is_response (mid e) then
            (case multiplexed_responses s (mid e) of
               None \<Rightarrow> (Inr Dropped, s)
             | Some f \<Rightarrow> invoke_response ops prog f (payload e)
                 (s\<lparr>multiplexed_responses := (multiplexed_responses s)(mid e := None)\<rparr>))
          else (case categorize ops prog (payload e) s of
                  (Internal_category, s') \<Rightarrow> (Inr Consumed, s')
                | (Ordinary_category, s') \<Rightarrow> consume_ordinary ops prog x e s'))"

section \<open>Activation and the message loop\<close>

datatype activation_result = Act_success | Act_terminated | Act_skipped | Act_dropped

definition log_handled :: "addr \<Rightarrow> nat \<Rightarrow> ('b, 'p, 'h, 'u) sactor \<Rightarrow> ('b, 'p, 'h, 'u) sactor" where
  "log_handled x n s = s\<lparr>handled := handled s @ [(x, drop n (responses s))]\<rparr>"

definition reactivate ::
    "('b, ('p, 'h) content) mailbox_ops \<Rightarrow> ('p, 'h, 'u) program \<Rightarrow> addr \<Rightarrow> ('b, 'p, 'h, 'u) sactor
     \<Rightarrow> (activation_result \<times> ('b, 'p, 'h, 'u) sactor) option" where
  "reactivate ops prog x s =
     (let e = op_elem ops (mbox s) x; n = length (responses s)
      in case consume ops prog x e s of
           (Inr Dropped, s') \<Rightarrow> Some (Act_dropped, log_handled x n s')
         | (Inr Consumed, s') \<Rightarrow>
             map_option (\<lambda>(fin, s''). (if fin then Act_terminated else Act_success, s''))
               (finalize ops prog (log_handled x n s'))
         | (Inr Skipped, s') \<Rightarrow> Some (Act_skipped, s')
         | (Inl err, s') \<Rightarrow>
             (let s' = (if x \<in> set (promised s') then s' else respond e (Err err) s')
              in map_option (\<lambda>(_, s''). (Act_terminated, s''))
                   (finalize ops prog (quit ops prog err (log_handled x n s')))))"

definition activate ::
    "('b, ('p, 'h) content) mailbox_ops \<Rightarrow> ('p, 'h, 'u) program \<Rightarrow> ('b, 'p, 'h, 'u) sactor \<Rightarrow> (bool \<times> ('b, 'p, 'h, 'u) sactor) option" where
  "activate ops prog s =
     (if is_initialized s then Some (alive s, s)
      else case init_code prog (user s) of (cs, err, u) \<Rightarrow>
        (let s = fold (exec ops prog) cs (s\<lparr>is_initialized := True, user := u\<rparr>)
         in case err of
              None \<Rightarrow> map_option (\<lambda>(fin, s'). (\<not> fin, s')) (finalize ops prog s)
            | Some x \<Rightarrow> map_option (\<lambda>(_, s'). (False, s')) (finalize ops prog (quit ops prog x s))))"

definition unstash :: "('b, ('p, 'h) content) mailbox_ops \<Rightarrow> ('b, 'p, 'h, 'u) sactor \<Rightarrow> ('b, 'p, 'h, 'u) sactor" where
  "unstash ops s = s\<lparr>mbox := fold (\<lambda>x b. op_push_front ops b x) (stash s) (mbox s), stash := []\<rparr>"

text \<open>
  Other threads enqueue messages while the actor runs: before each access of the actor to its mailbox one batch of
  elements arrives.
\<close>

fun arrive ::
    "('b, ('p, 'h) content) mailbox_ops \<Rightarrow> ('p, 'h) content mailbox_element list list \<Rightarrow> ('b, 'p, 'h, 'u) sactor
     \<Rightarrow> ('p, 'h) content mailbox_element list list \<times> ('b, 'p, 'h, 'u) sactor" where
  "arrive ops [] s = ([], s)"
| "arrive ops (es # ess) s = (ess, fold (enqueue ops) es s)"

datatype resume_result = Awaiting_message | Resume_later | Done

partial_function (option) resume_loop ::
    "('b, ('p, 'h) content) mailbox_ops \<Rightarrow> ('p, 'h, 'u) program \<Rightarrow> nat \<Rightarrow> nat \<Rightarrow> ('p, 'h) content mailbox_element list list
     \<Rightarrow> ('b, 'p, 'h, 'u) sactor \<Rightarrow> (resume_result \<times> nat \<times> ('b, 'p, 'h, 'u) sactor) option" where
  "resume_loop ops prog max_throughput consumed arr s =
     (case arrive ops arr s of (arr, s) \<Rightarrow>
        if consumed < max_throughput then
          (case op_pop_front ops (mbox s) of
             None \<Rightarrow> None
           | Some (r, b) \<Rightarrow>
               (case r of
                  None \<Rightarrow>
                    (case arrive ops arr (s\<lparr>mbox := b\<rparr>) of (arr, s) \<Rightarrow>
                       (case op_try_block ops (mbox s) of (blocked, b) \<Rightarrow>
                          if blocked then Some (Awaiting_message, consumed, s\<lparr>mbox := b\<rparr>)
                          else resume_loop ops prog max_throughput consumed arr (s\<lparr>mbox := b\<rparr>)))
                | Some x \<Rightarrow>
                    (case reactivate ops prog x (s\<lparr>mbox := b\<rparr>) of
                       None \<Rightarrow> None
                     | Some (res, s) \<Rightarrow>
                         (case res of
                            Act_success \<Rightarrow> resume_loop ops prog max_throughput (consumed + 1) arr (unstash ops s)
                          | Act_skipped \<Rightarrow> resume_loop ops prog max_throughput consumed arr (s\<lparr>stash := x # stash s\<rparr>)
                          | Act_dropped \<Rightarrow> resume_loop ops prog max_throughput consumed arr s
                          | Act_terminated \<Rightarrow> Some (Done, consumed, s)))))
        else
          (case op_try_block ops (mbox s) of (blocked, b) \<Rightarrow>
             Some (if blocked then Awaiting_message else Resume_later, consumed, s\<lparr>mbox := b\<rparr>)))"

definition resume ::
    "('b, ('p, 'h) content) mailbox_ops \<Rightarrow> ('p, 'h, 'u) program \<Rightarrow> nat \<Rightarrow> ('p, 'h) content mailbox_element list list
     \<Rightarrow> ('b, 'p, 'h, 'u) sactor \<Rightarrow> (resume_result \<times> nat \<times> ('b, 'p, 'h, 'u) sactor) option" where
  "resume ops prog max_throughput arr s =
     (case activate ops prog s of
        None \<Rightarrow> None
      | Some (ok, s) \<Rightarrow> if ok then resume_loop ops prog max_throughput 0 arr s else Some (Done, 0, s))"

section \<open>Life of an actor\<close>

text \<open>
  Anyone may send a message at any time; the scheduler resumes the actor while it is scheduled and puts it back
  if it has more to do.
\<close>

inductive actor_step ::
    "('b, ('p, 'h) content) mailbox_ops \<Rightarrow> ('p, 'h, 'u) program \<Rightarrow> ('b, 'p, 'h, 'u) sactor \<Rightarrow> ('b, 'p, 'h, 'u) sactor \<Rightarrow> bool"
  for ops prog where
  send: "actor_step ops prog s (enqueue ops e s)"
| run: "scheduled s \<Longrightarrow> resume ops prog mx arr (s\<lparr>scheduled := False\<rparr>) = Some (r, n, s') \<Longrightarrow>
    actor_step ops prog s (s'\<lparr>scheduled := (r = Resume_later)\<rparr>)"

inductive actor_reachable ::
    "('b, ('p, 'h) content) mailbox_ops \<Rightarrow> ('p, 'h, 'u) program \<Rightarrow> ('b, 'p, 'h, 'u) sactor \<Rightarrow> ('b, 'p, 'h, 'u) sactor \<Rightarrow> bool"
  for ops prog s0 where
  start: "actor_reachable ops prog s0 (launch ops lazy s0)"
| step: "actor_reachable ops prog s0 s \<Longrightarrow> actor_step ops prog s s' \<Longrightarrow> actor_reachable ops prog s0 s'"

end
