(* ===== verification/Actor_Loop.thy ===== *)
theory Actor_Loop
  imports Scheduled_Actor
begin

text \<open>
  Correctness of the message loop of \<open>Scheduled_Actor\<close> over any mailbox that fulfils \<open>mailbox_contract\<close>: every
  accepted message is pending, stashed, handled or bounced exactly once, requests are answered, \<^verbatim>\<open>resume\<close> returns, and
  the actor is scheduled whenever it has work.
\<close>

section \<open>Invariants\<close>

text \<open>
  \<open>c\<close> are the contents of the mailbox, \<open>bounced\<close> the elements that were discarded when the actor terminated and
  \<open>cur\<close> the element that the actor is working on.
\<close>

definition messages_ok ::
    "('b, ('p, 'h) content) mailbox_ops \<Rightarrow> ('b \<Rightarrow> contents \<Rightarrow> bool) \<Rightarrow> addr list \<Rightarrow> ('b, 'p, 'h, 'u) sactor \<Rightarrow> contents \<Rightarrow> addr list \<Rightarrow> bool" where
  "messages_ok ops mrep cur s c bounced \<longleftrightarrow>
     mrep (mbox s) c \<and> (op_blocked ops (mbox s) \<longrightarrow> all_elems c = []) \<and> distinct (accepted s) \<and>
     (\<forall>x \<in> set (accepted s) \<union> set (rejected s). x < next_addr s) \<and>
     mset (accepted s) = mset (all_elems c) + mset (stash s) + mset (map fst (handled s)) + mset bounced + mset cur"

definition bounces :: "('b, ('p, 'h) content) mailbox_ops \<Rightarrow> 'b \<Rightarrow> addr list \<Rightarrow> 'p response list" where
  "bounces ops b xs = concat (map (\<lambda>x. bounce_responses (op_elem ops b x)) xs)"

text \<open>
  The responses \<open>rs\<close> that were sent for a handled element: at most one, to its sender and under its response ID, and
  exactly one for a request with ordinary content unless the handler took a promise.
\<close>

definition needs_answer :: "('p, 'h) content mailbox_element \<Rightarrow> bool" where
  "needs_answer e \<longleftrightarrow> is_request (mid e) \<and> \<not> is_answered (mid e) \<and> sender e \<noteq> None \<and> (\<exists>p. payload e = Ordinary p)"

definition answers :: "('p, 'h) content mailbox_element \<Rightarrow> 'p response list \<Rightarrow> bool" where
  "answers e rs \<longleftrightarrow> (\<exists>a r. sender e = Some a \<and> rs = [(a, response_id (mid e), r)])"

definition responses_ok :: "('b, ('p, 'h) content) mailbox_ops \<Rightarrow> ('b, 'p, 'h, 'u) sactor \<Rightarrow> addr list \<Rightarrow> bool" where
  "responses_ok ops s bounced \<longleftrightarrow>
     mset (responses s) = mset (concat (map snd (handled s))) + mset (bounces ops (mbox s) (bounced @ rejected s)) \<and>
     (\<forall>(x, rs) \<in> set (handled s). let e = op_elem ops (mbox s) x in
        (rs = [] \<or> answers e rs) \<and> (needs_answer e \<and> x \<notin> set (promised s) \<longrightarrow> rs \<noteq> []))"

lemma bounces_simps [simp]:
  "bounces ops b [] = []" "bounces ops b (x # xs) = bounce_responses (op_elem ops b x) @ bounces ops b xs"
  "bounces ops b (xs @ ys) = bounces ops b xs @ bounces ops b ys"
  by (simp_all add: bounces_def)

lemma bounces_cong: "(\<And>x. x \<in> set xs \<Longrightarrow> op_elem ops b x = op_elem ops b' x) \<Longrightarrow> bounces ops b xs = bounces ops b' xs"
  by (induction xs) auto

lemma mset_concat_map: "mset (concat (map f xs)) = sum_mset (image_mset (\<lambda>x. mset (f x)) (mset xs))"
  by (induction xs) auto

lemma bounces_mset: "mset xs = mset ys \<Longrightarrow> mset (bounces ops b xs) = mset (bounces ops b ys)"
  by (simp add: mset_concat_map bounces_def)

lemma stash_bounces_eq: "stash_bounces ops s = bounces ops (mbox s) (stash s)"
  by (simp add: stash_bounces_def bounces_def)

text \<open>
  What user code may change while it runs: it may enqueue elements without a sender, but it touches neither the
  stash nor the history of the actor.
\<close>

definition awaited_ok :: "('b, 'p, 'h, 'u) sactor \<Rightarrow> bool" where
  "awaited_ok s \<longleftrightarrow> (\<forall>(i, h) \<in> set (awaited_responses s). \<not> is_request i)"

definition frame :: "('b, ('p, 'h) content) mailbox_ops \<Rightarrow> ('b, 'p, 'h, 'u) sactor \<Rightarrow> ('b, 'p, 'h, 'u) sactor \<Rightarrow> bool" where
  "frame ops s s' \<longleftrightarrow>
     stash s' = stash s \<and> handled s' = handled s \<and> promised s' = promised s \<and> responses s' = responses s \<and>
     is_terminated s' = is_terminated s \<and> is_initialized s' = is_initialized s \<and>
     (is_shutting_down s \<longrightarrow> is_shutting_down s') \<and> (awaited_ok s \<longrightarrow> awaited_ok s') \<and>
     op_closed ops (mbox s') = op_closed ops (mbox s) \<and>
     (\<not> op_blocked ops (mbox s) \<longrightarrow> \<not> op_blocked ops (mbox s') \<and> scheduled s' = scheduled s) \<and>
     next_addr s \<le> next_addr s' \<and> (\<forall>x<next_addr s. op_elem ops (mbox s') x = op_elem ops (mbox s) x) \<and>
     bounces ops (mbox s') (rejected s') = bounces ops (mbox s) (rejected s)"

definition steady ::
    "('b, ('p, 'h) content) mailbox_ops \<Rightarrow> ('b \<Rightarrow> contents \<Rightarrow> bool) \<Rightarrow> ('b, 'p, 'h, 'u) sactor \<Rightarrow> ('b, 'p, 'h, 'u) sactor \<Rightarrow> bool" where
  "steady ops mrep s s' \<longleftrightarrow> (\<forall>cur c bounced. messages_ok ops mrep cur s c bounced \<longrightarrow>
     frame ops s s' \<and> (\<exists>c'. messages_ok ops mrep cur s' c' bounced))"

lemma steadyD:
  assumes "steady ops mrep s s'" "messages_ok ops mrep cur s c bounced"
  obtains c' where "messages_ok ops mrep cur s' c' bounced" "frame ops s s'"
  using assms unfolding steady_def by blast

lemma frame_refl [simp]: "frame ops s s"
  by (simp add: frame_def)

lemma frame_trans: "frame ops s s' \<Longrightarrow> frame ops s' s'' \<Longrightarrow> frame ops s s''"
  by (auto simp: frame_def)

lemma steady_refl [simp]: "steady ops mrep s s"
  by (auto simp: steady_def)

lemma steady_trans [trans]: "steady ops mrep s s' \<Longrightarrow> steady ops mrep s' s'' \<Longrightarrow> steady ops mrep s s''"
  unfolding steady_def by (meson frame_trans)

lemma steady_fold: "(\<And>c s. steady ops mrep s (f c s)) \<Longrightarrow> steady ops mrep s (fold f cs s)"
  by (induction cs arbitrary: s) (auto intro: steady_trans)

text \<open>Fields that no invariant mentions.\<close>

lemma messages_ok_cong:
  assumes "mbox s' = mbox s" "accepted s' = accepted s" "rejected s' = rejected s" "next_addr s' = next_addr s"
    "stash s' = stash s" "handled s' = handled s"
  shows "messages_ok ops mrep cur s' c bounced = messages_ok ops mrep cur s c bounced"
  using assms by (simp add: messages_ok_def)

lemma steady_fields:
  assumes "mbox s' = mbox s" "accepted s' = accepted s" "rejected s' = rejected s" "next_addr s' = next_addr s"
    "stash s' = stash s" "handled s' = handled s" "promised s' = promised s" "responses s' = responses s"
    "is_terminated s' = is_terminated s" "is_initialized s' = is_initialized s" "scheduled s' = scheduled s"
    "is_shutting_down s \<Longrightarrow> is_shutting_down s'" "awaited_ok s \<Longrightarrow> awaited_ok s'"
  shows "steady ops mrep s s'"
  using assms messages_ok_cong[OF assms(1-6)] by (auto simp: steady_def frame_def)

text \<open>What a call of a handler without a result amounts to.\<close>

definition outcome_of :: "('p result \<times> error option \<times> 's) option \<Rightarrow> 's \<Rightarrow> (error + invoke_message_result) \<times> 's" where
  "outcome_of out s = (case out of None \<Rightarrow> (Inr Consumed, s) | Some (_, None, s') \<Rightarrow> (Inr Consumed, s') | Some (_, Some err, s') \<Rightarrow> (Inl err, s'))"

definition settles ::
    "('b, ('p, 'h) content) mailbox_ops \<Rightarrow> ('b \<Rightarrow> contents \<Rightarrow> bool) \<Rightarrow> addr \<Rightarrow> ('p, 'h) content mailbox_element
     \<Rightarrow> ('b, 'p, 'h, 'u) sactor \<Rightarrow> (error + invoke_message_result) \<times> ('b, 'p, 'h, 'u) sactor \<Rightarrow> bool" where
  "settles ops mrep x e s out \<longleftrightarrow> (\<exists>s1 rs pr. steady ops mrep s s1 \<and>
     snd out = s1\<lparr>responses := responses s1 @ rs, promised := promised s1 @ pr\<rparr> \<and>
     (rs = [] \<or> answers e rs) \<and> set pr \<subseteq> {x} \<and>
     (fst out = Inr Consumed \<and> (needs_answer e \<longrightarrow> rs \<noteq> [] \<or> x \<in> set pr) \<or> (\<exists>err. fst out = Inl err \<and> rs = [])))"

text \<open>An actor between two messages, and an actor after its termination.\<close>

definition live ::
    "('b, ('p, 'h) content) mailbox_ops \<Rightarrow> ('b \<Rightarrow> contents \<Rightarrow> bool) \<Rightarrow> addr list \<Rightarrow> ('b, 'p, 'h, 'u) sactor \<Rightarrow> contents \<Rightarrow> addr list \<Rightarrow> bool" where
  "live ops mrep cur s c bounced \<longleftrightarrow> messages_ok ops mrep cur s c bounced \<and> responses_ok ops s bounced \<and> awaited_ok s \<and>
     \<not> op_closed ops (mbox s) \<and> \<not> op_blocked ops (mbox s) \<and> \<not> is_terminated s \<and> is_initialized s"

definition stopped ::
    "('b, ('p, 'h) content) mailbox_ops \<Rightarrow> ('b \<Rightarrow> contents \<Rightarrow> bool) \<Rightarrow> ('b, 'p, 'h, 'u) sactor \<Rightarrow> contents \<Rightarrow> addr list \<Rightarrow> bool" where
  "stopped ops mrep s c bounced \<longleftrightarrow> messages_ok ops mrep [] s c bounced \<and> responses_ok ops s bounced \<and>
     op_closed ops (mbox s) \<and> is_terminated s \<and> is_initialized s \<and> stash s = [] \<and> all_elems c = []"

text \<open>
  An actor that waits for messages, and an actor that the scheduler has dropped: it has terminated, or it was shutting
  down and could not be finalized.
\<close>

definition parked ::
    "('b, ('p, 'h) content) mailbox_ops \<Rightarrow> ('b \<Rightarrow> contents \<Rightarrow> bool) \<Rightarrow> ('b, 'p, 'h, 'u) sactor \<Rightarrow> contents \<Rightarrow> addr list \<Rightarrow> bool" where
  "parked ops mrep s c bounced \<longleftrightarrow> messages_ok ops mrep [] s c bounced \<and> responses_ok ops s bounced \<and> awaited_ok s \<and>
     \<not> op_closed ops (mbox s) \<and> op_blocked ops (mbox s) \<and> \<not> is_terminated s"

definition ended ::
    "('b, ('p, 'h) content) mailbox_ops \<Rightarrow> ('b \<Rightarrow> contents \<Rightarrow> bool) \<Rightarrow> ('b, 'p, 'h, 'u) sactor \<Rightarrow> bool" where
  "ended ops mrep s \<longleftrightarrow> (\<exists>c bounced. stopped ops mrep s c bounced) \<or> (\<exists>c. live ops mrep [] s c []) \<and> is_shutting_down s"

definition loop_post ::
    "('b, ('p, 'h) content) mailbox_ops \<Rightarrow> ('b \<Rightarrow> contents \<Rightarrow> bool) \<Rightarrow> resume_result \<Rightarrow> ('b, 'p, 'h, 'u) sactor \<Rightarrow> bool" where
  "loop_post ops mrep r s = (case r of
     Awaiting_message \<Rightarrow> (\<exists>c. parked ops mrep s c []) \<and> alive s \<and> is_initialized s
   | Resume_later \<Rightarrow> (\<exists>c. live ops mrep [] s c []) \<and> alive s
   | Done \<Rightarrow> ended ops mrep s)"

section \<open>Loop lemmas\<close>

text \<open>A mailbox whose elements carry the messages of an actor.\<close>

locale actor_mailbox = mailbox_contract ops mrep
  for ops :: "('b, ('p, 'h) content) mailbox_ops" and mrep :: "'b \<Rightarrow> contents \<Rightarrow> bool"
begin

lemma enqueue_closed:
  assumes "op_closed ops (mbox s)"
  shows "enqueue ops e s = s\<lparr>next_addr := next_addr s + 1, mbox := op_alloc ops (mbox s) (next_addr s) e,
    rejected := rejected s @ [next_addr s], responses := responses s @ bounce_responses e\<rparr>"
  using push_back_closed[of "op_alloc ops (mbox s) (next_addr s) e"] assms by (simp add: enqueue_def Let_def alloc_flags)

lemma enqueue_closed_ok:
  assumes "op_closed ops (mbox s)" "messages_ok ops mrep cur s c bounced"
  shows "messages_ok ops mrep cur (enqueue ops e s) c bounced"
    "bounces ops (mbox (enqueue ops e s)) (rejected (enqueue ops e s)) = bounces ops (mbox s) (rejected s) @ bounce_responses e"
proof -
  have "\<not> op_blocked ops (mbox s)" using assms(1) not_both by blast
  with assms show "messages_ok ops mrep cur (enqueue ops e s) c bounced"
    by (auto simp: enqueue_closed messages_ok_def alloc_flags intro: alloc less_SucI)
  show "bounces ops (mbox (enqueue ops e s)) (rejected (enqueue ops e s)) = bounces ops (mbox s) (rejected s) @ bounce_responses e"
    using assms by (auto simp: enqueue_closed messages_ok_def alloc_elem intro!: bounces_cong)
qed

lemma enqueue_open:
  assumes m: "messages_ok ops mrep cur s c bounced" and o: "\<not> op_closed ops (mbox s)"
  obtains b where "enqueue ops e s = s\<lparr>next_addr := next_addr s + 1, mbox := b, accepted := accepted s @ [next_addr s],
      scheduled := (if op_blocked ops (mbox s) then True else scheduled s)\<rparr>"
    "messages_ok ops mrep cur (enqueue ops e s) (c\<lparr>incoming := incoming c @ [next_addr s]\<rparr>) bounced"
    "op_elem ops b = (op_elem ops (mbox s))(next_addr s := e)" "\<not> op_closed ops b" "\<not> op_blocked ops b"
proof -
  let ?x = "next_addr s" and ?b = "op_alloc ops (mbox s) (next_addr s) e"
  have rep: "mrep ?b c" using m by (auto simp: messages_ok_def intro: alloc)
  have "?x \<notin> set (accepted s)" using m by (auto simp: messages_ok_def)
  moreover have "set (all_elems c) \<subseteq> set (accepted s)"
    using m by (simp add: messages_ok_def flip: set_mset_mset) (simp add: subset_iff)
  ultimately have fresh: "?x \<notin> set (all_elems c)" by blast
  have "\<not> op_closed ops ?b" using o by (simp add: alloc_flags)
  from push_back_open[OF rep fresh this] obtain b where
    b: "op_push_back ops ?b ?x = (if op_blocked ops (mbox s) then unblocked_reader else success, b)"
      "mrep b (c\<lparr>incoming := incoming c @ [?x]\<rparr>)" "op_elem ops b = op_elem ops ?b" "\<not> op_closed ops b" "\<not> op_blocked ops b"
    by (auto simp: alloc_flags)
  have eq: "enqueue ops e s = s\<lparr>next_addr := ?x + 1, mbox := b, accepted := accepted s @ [?x],
      scheduled := (if op_blocked ops (mbox s) then True else scheduled s)\<rparr>"
    using b(1) by (simp add: enqueue_def Let_def)
  moreover have "messages_ok ops mrep cur (enqueue ops e s) (c\<lparr>incoming := incoming c @ [?x]\<rparr>) bounced"
    using m b(2,5) \<open>?x \<notin> set (accepted s)\<close> unfolding eq by (auto simp: messages_ok_def all_elems_def intro: less_SucI)
  ultimately show thesis using that b by (simp add: alloc_elem)
qed

lemma enqueue_open_bounces:
  assumes m: "messages_ok ops mrep cur s c bounced" and o: "\<not> op_closed ops (mbox s)"
  shows "bounces ops (mbox (enqueue ops e s)) (rejected (enqueue ops e s)) = bounces ops (mbox s) (rejected s)"
proof -
  from enqueue_open[OF m o] obtain b where
    b: "enqueue ops e s = s\<lparr>next_addr := next_addr s + 1, mbox := b, accepted := accepted s @ [next_addr s],
      scheduled := (if op_blocked ops (mbox s) then True else scheduled s)\<rparr>"
      "op_elem ops b = (op_elem ops (mbox s))(next_addr s := e)" .
  with m show ?thesis by (auto simp: messages_ok_def intro!: bounces_cong)
qed

lemma enqueue_silent_steady:
  assumes "bounce e = []"
  shows "steady ops mrep s (enqueue ops e s)"
  unfolding steady_def
proof (intro allI impI conjI)
  fix cur c bounced
  assume m: "messages_ok ops mrep cur s c bounced"
  have no: "bounce_responses e = []" using assms by (simp add: bounce_responses_def)
  show "frame ops s (enqueue ops e s)"
  proof (cases "op_closed ops (mbox s)")
    case True
    from enqueue_closed_ok(2)[OF True m] True show ?thesis
      by (simp add: frame_def enqueue_closed alloc_flags alloc_elem no awaited_ok_def)
  next
    case False
    obtain b where "enqueue ops e s = s\<lparr>next_addr := next_addr s + 1, mbox := b, accepted := accepted s @ [next_addr s],
      scheduled := (if op_blocked ops (mbox s) then True else scheduled s)\<rparr>"
      "op_elem ops b = (op_elem ops (mbox s))(next_addr s := e)" "\<not> op_closed ops b" "\<not> op_blocked ops b"
      using enqueue_open[OF m False] by metis
    with False enqueue_open_bounces[OF m False, of e] show ?thesis by (simp add: frame_def awaited_ok_def)
  qed
  show "\<exists>c'. messages_ok ops mrep cur (enqueue ops e s) c' bounced"
    using enqueue_closed_ok(1)[OF _ m] enqueue_open[OF m] by metis
qed

lemma delay_steady: "steady ops mrep s (delay ops f rid s)"
proof -
  let ?s = "s\<lparr>delayed_actions_this_run := delayed_actions_this_run s + 1\<rparr>"
  let ?e = "\<lparr>sender = None, mid = response_id rid, payload = Action_msg f\<rparr>"
  have 1: "steady ops mrep s ?s" by (rule steady_fields) (simp_all add: awaited_ok_def)
  have 2: "steady ops mrep ?s (?s\<lparr>actions := actions s @ [f]\<rparr>)" by (rule steady_fields) (simp_all add: awaited_ok_def)
  have 3: "steady ops mrep ?s (enqueue ops ?e ?s)" by (rule enqueue_silent_steady) (simp add: bounce_def)
  have 4: "steady ops mrep s' (add_multiplexed_response_handler i h s')" for s' :: "('b, 'p, 'h, 'u) sactor" and i h
    by (rule steady_fields) (simp_all add: awaited_ok_def add_multiplexed_response_handler_def split: option.split)
  show ?thesis
    using steady_trans[OF 1 2] steady_trans[OF 1 steady_trans[OF 3 4]] by (simp add: delay_def Let_def)
qed

lemma begin_quit_steady: "steady ops mrep s (begin_quit x s)"
  by (rule steady_fields) (simp_all add: begin_quit_def awaited_ok_def)

lemma exec_nested_steady: "steady ops mrep s (exec_nested ops c s)"
proof (cases c)
  case (Delay f rid)
  then show ?thesis by (simp add: delay_steady)
qed (auto intro!: steady_fields simp: awaited_ok_def do_become_def quit_nested_def begin_quit_def add_awaited_response_handler_def
    add_multiplexed_response_handler_def Let_def split: option.split)

lemma run_loop_steady: "steady ops mrep s (run_loop ops prog s)"
proof (induction "action_budget s" arbitrary: s rule: less_induct)
  case less
  show ?case
  proof (cases "actions s")
    case Nil
    then show ?thesis by (simp add: run_loop.simps)
  next
    case (Cons f fs)
    obtain cs u where a: "act prog f (user s) = (cs, u)" by fastforce
    let ?s = "s\<lparr>actions := fs, user := u\<rparr>"
    let ?t = "fold (exec_nested ops) cs ?s"
    have "action_budget ?t < action_budget s"
      using fold_nested_budget[of ops cs ?s] Cons by (simp add: action_budget_def)
    then have "steady ops mrep ?t (run_loop ops prog ?t)" by (rule less)
    moreover have "steady ops mrep s ?s" by (rule steady_fields) (simp_all add: awaited_ok_def)
    moreover have "steady ops mrep ?s ?t" by (rule steady_fold) (rule exec_nested_steady)
    ultimately have "steady ops mrep s (run_loop ops prog ?t)" by (blast intro: steady_trans)
    with Cons a show ?thesis by (simp add: run_loop.simps[of ops prog s])
  qed
qed

lemma run_actions_steady: "steady ops mrep s (run_actions ops prog s)"
proof -
  have "steady ops mrep s (s\<lparr>delayed_actions_this_run := 0\<rparr>)" by (rule steady_fields) (simp_all add: awaited_ok_def)
  then show ?thesis unfolding run_actions_def by (rule steady_trans) (rule run_loop_steady)
qed

lemma quit_steady: "steady ops mrep s (quit ops prog x s)"
  unfolding quit_def by (auto intro: steady_trans[OF begin_quit_steady run_actions_steady])

lemma exec_steady: "steady ops mrep s (exec ops prog c s)"
  unfolding exec_def by (cases c) (simp_all add: exec_nested_steady quit_steady del: exec_nested.simps)

lemma exec_all_steady: "steady ops mrep s (fold (exec ops prog) cs (s\<lparr>user := u\<rparr>))"
proof -
  have "steady ops mrep s (s\<lparr>user := u\<rparr>)" by (rule steady_fields) (simp_all add: awaited_ok_def)
  then show ?thesis by (rule steady_trans) (rule steady_fold, rule exec_steady)
qed

lemma call_steady: "call ops prog h c s = Some (r, err, s') \<Longrightarrow> steady ops mrep s s'"
  by (auto simp: call_def Let_def exec_all_steady split: if_splits)

lemma run_action_steady: "steady ops mrep s (run_action ops prog f s)"
  by (simp add: run_action_def exec_all_steady split: prod.split)

lemma categorize_steady: "steady ops mrep s (snd (categorize ops prog c s))"
  by (simp add: categorize_def quit_steady run_action_steady split: content.split)

lemma categorize_ordinary: "categorize ops prog c s = (Ordinary_category, s') \<Longrightarrow> s' = s"
  by (auto simp: categorize_def split: content.splits if_splits)

lemma outcome_of_steady:
  assumes "outcome_of out s = (r, s')" "\<And>q err s''. out = Some (q, err, s'') \<Longrightarrow> steady ops mrep s s''"
  shows "steady ops mrep s s' \<and> r \<noteq> Inr Skipped \<and> r \<noteq> Inr Dropped"
proof (cases out)
  case None
  with assms(1) show ?thesis by (auto simp: outcome_of_def)
next
  case (Some o')
  obtain q err s'' where "o' = (q, err, s'')" by (cases o')
  with Some assms show ?thesis by (cases err) (auto simp: outcome_of_def)
qed

lemma invoke_response_steady:
  assumes "invoke_response ops prog f c s = (r, s')"
  shows "steady ops mrep s s' \<and> r \<noteq> Inr Skipped \<and> r \<noteq> Inr Dropped"
proof (cases f)
  case (User_handler h)
  let ?out = "case call ops prog h c s of None \<Rightarrow> call ops prog h (Error_msg (sec_error unexpected_response)) s | r \<Rightarrow> r"
  have "outcome_of ?out s = (r, s')" using assms User_handler by (simp add: invoke_response_def outcome_of_def)
  then show ?thesis
    by (rule outcome_of_steady) (auto split: option.splits intro: call_steady)
next
  case Delay_bhvr
  with assms show ?thesis by (auto simp: invoke_response_def run_action_steady split: content.splits)
qed

lemma call_handler_steady:
  assumes "call_handler ops prog h d c s = (r, s')"
  shows "steady ops mrep s s' \<and> r \<noteq> Inr Skipped \<and> r \<noteq> Inr Dropped"
proof (cases h)
  case (Custom_handler f)
  then have "outcome_of (call ops prog f c s) s = (r, s')" using assms by (simp add: call_handler_def outcome_of_def)
  then show ?thesis by (rule outcome_of_steady) (auto intro: call_steady)
qed (use assms in \<open>auto simp: call_handler_def quit_steady split: option.splits\<close>)

text \<open>
  Consuming an element that is not skipped: besides what user code does, at most one response is sent to the sender
  of the element, and a request that needs an answer gets one unless a promise was taken or an exception thrown.
\<close>

lemma respond_effect:
  "\<exists>rs. respond e v s = s\<lparr>responses := responses s @ rs\<rparr> \<and> (rs = [] \<or> answers e rs) \<and> (needs_answer e \<longrightarrow> rs \<noteq> [])"
proof (cases "sender e")
  case None
  then show ?thesis by (intro exI[of _ "[]"]) (simp add: respond_def needs_answer_def)
next
  case (Some a)
  show ?thesis
  proof (cases "is_response (mid e) \<or> is_answered (mid e) \<or> v = Empty_reply \<and> is_async (mid e)")
    case True
    then have "\<not> needs_answer e" by (auto simp: needs_answer_def is_request_def is_response_def is_async_def default_async_value_def request_id_mask_def)
    with True Some show ?thesis by (intro exI[of _ "[]"]) (simp add: respond_def)
  next
    case False
    with Some show ?thesis
      by (intro exI[of _ "[(a, response_id (mid e), v)]"]) (simp add: respond_def answers_def)
  qed
qed

lemma settlesI:
  assumes "steady ops mrep s s1" "s' = s1\<lparr>responses := responses s1 @ rs, promised := promised s1 @ pr\<rparr>"
    "rs = [] \<or> answers e rs" "set pr \<subseteq> {x}" "r = Inr Consumed \<and> (needs_answer e \<longrightarrow> rs \<noteq> [] \<or> x \<in> set pr) \<or> (\<exists>err. r = Inl err \<and> rs = [])"
  shows "settles ops mrep x e s (r, s')"
  unfolding settles_def using assms by (intro exI[of _ s1] exI[of _ rs] exI[of _ pr]) auto

lemma settles_plain:
  assumes "steady ops mrep s s'" "\<not> needs_answer e" "r \<noteq> Inr Skipped" "r \<noteq> Inr Dropped"
  shows "settles ops mrep x e s (r, s')"
proof -
  have "r = Inr Consumed \<or> (\<exists>err. r = Inl err)"
    using assms(3,4) by (cases r) (auto intro: invoke_message_result.exhaust)
  then show ?thesis using assms(1,2) by (intro settlesI[where ?s1.0 = s' and rs = "[]" and pr = "[]"]) auto
qed

lemma call_handler_settles:
  "call_handler ops prog h d c s = (r, s') \<Longrightarrow> \<not> needs_answer e \<Longrightarrow> settles ops mrep x e s (r, s')"
  using call_handler_steady by (blast intro: settles_plain)

lemma settles_respond:
  assumes "steady ops mrep s s'"
  shows "settles ops mrep x e s (Inr Consumed, respond e v s')"
proof -
  obtain rs where "respond e v s' = s'\<lparr>responses := responses s' @ rs\<rparr>" "rs = [] \<or> answers e rs" "needs_answer e \<longrightarrow> rs \<noteq> []"
    using respond_effect by blast
  then show ?thesis by (intro settlesI[OF assms, where rs = rs and pr = "[]"]) auto
qed

lemma settles_finish_call:
  assumes "call ops prog h c s = Some out"
  shows "settles ops mrep x e s (finish_call x e out)"
proof -
  obtain r err s1 where out: "out = (r, err, s1)" by (cases out)
  have st: "steady ops mrep s s1" using assms out by (auto intro: call_steady)
  show ?thesis
  proof (cases err)
    case (Some er)
    show ?thesis
    proof (cases "r = Promise")
      case True
      with Some show ?thesis by (auto simp: finish_call_def out intro!: settlesI[OF st, where rs = "[]" and pr = "[x]"])
    next
      case False
      with Some show ?thesis by (auto simp: finish_call_def out intro!: settlesI[OF st, where rs = "[]" and pr = "[]"])
    qed
  next
    case None
    show ?thesis
    proof (cases r)
      case (Return v)
      with None settles_respond[OF st] show ?thesis by (simp add: finish_call_def out visit_result_def)
    next
      case Promise
      with None show ?thesis
        by (auto simp: finish_call_def out visit_result_def intro!: settlesI[OF st, where rs = "[]" and pr = "[x]"])
    qed
  qed
qed

lemma default_handler_settles:
  assumes "call_default_handler ops prog x e s = (r, s')"
  shows "r = Inr Skipped \<and> s' = s \<or> settles ops mrep x e s (r, s')"
proof (cases "default_handler s")
  case (Custom_default f)
  then show ?thesis
    using assms settles_finish_call[of prog f "payload e" s _ x e]
    by (cases "call ops prog f (payload e) s") (auto simp: call_default_handler_def)
qed (use assms in \<open>auto simp: call_default_handler_def Let_def intro!: settles_respond quit_steady\<close>)

lemma consume_ordinary_settles:
  assumes "consume_ordinary ops prog x e s = (r, s')"
  shows "r = Inr Skipped \<and> s' = s \<or> settles ops mrep x e s (r, s')"
proof (cases "case bhvr_stack s of [] \<Rightarrow> None | h # _ \<Rightarrow> call ops prog h (payload e) s")
  case (Some out)
  then obtain h where "call ops prog h (payload e) s = Some out" by (auto split: list.splits)
  with Some assms settles_finish_call[of prog h "payload e" s out x e] show ?thesis by (simp add: consume_ordinary_def)
next
  case None
  show ?thesis
  proof (cases "payload e")
    case (Ordinary p)
    with None assms default_handler_settles[of prog x e s r s'] show ?thesis by (simp add: consume_ordinary_def)
  next
    case (Action_msg f)
    with None assms default_handler_settles[of prog x e s r s'] show ?thesis by (simp add: consume_ordinary_def)
  qed (rule disjI2, rule call_handler_settles, use None assms in \<open>simp add: consume_ordinary_def\<close>, simp add: needs_answer_def)+
qed

lemma consume_settles:
  assumes c: "consume ops prog x e s = (r, s')" and a: "awaited_ok s"
  shows "(r = Inr Skipped \<or> r = Inr Dropped \<and> \<not> needs_answer e) \<and> s' = s \<or> settles ops mrep x e s (r, s')"
proof -
  obtain cat s2 where cat: "categorize ops prog (payload e) s = (cat, s2)" by fastforce
  have internal: "settles ops mrep x e s (Inr Consumed, s2)" if "cat = Internal_category"
  proof (rule settles_plain)
    show "steady ops mrep s s2" using categorize_steady[of s prog "payload e"] cat by simp
    show "\<not> needs_answer e" using cat that by (auto simp: needs_answer_def categorize_def)
  qed simp_all
  have ordinary: "s2 = s" if "cat = Ordinary_category" using categorize_ordinary cat that by blast
  have response: "\<not> needs_answer e" if "is_response (mid e)" using that by (auto simp: needs_answer_def is_request_def)
  show ?thesis
  proof (cases "awaited_responses s")
    case (Cons ih rest)
    obtain i h where ih: "ih = (i, h)" by (cases ih)
    show ?thesis
    proof (cases "mid e = i")
      case True
      then have n: "\<not> needs_answer e" using a Cons ih by (auto simp: awaited_ok_def needs_answer_def)
      let ?s = "s\<lparr>awaited_responses := rest\<rparr>"
      have "steady ops mrep s ?s" using Cons by (intro steady_fields) (simp_all add: awaited_ok_def)
      moreover have "invoke_response ops prog (User_handler h) (payload e) ?s = (r, s')"
        using c Cons ih True by (simp add: consume_def)
      ultimately show ?thesis using invoke_response_steady n by (blast intro: settles_plain steady_trans)
    next
      case False
      then show ?thesis using c Cons ih cat internal ordinary
        by (cases cat) (auto simp: consume_def split: if_splits)
    qed
  next
    case Nil
    show ?thesis
    proof (cases "is_response (mid e)")
      case True
      show ?thesis
      proof (cases "multiplexed_responses s (mid e)")
        case None
        with True Nil c response show ?thesis by (simp add: consume_def)
      next
        case (Some f)
        let ?s = "s\<lparr>multiplexed_responses := (multiplexed_responses s)(mid e := None)\<rparr>"
        have "steady ops mrep s ?s" by (intro steady_fields) (simp_all add: awaited_ok_def)
        moreover have "invoke_response ops prog f (payload e) ?s = (r, s')"
          using c Nil True Some by (simp add: consume_def)
        ultimately show ?thesis using invoke_response_steady response[OF True] by (blast intro: settles_plain steady_trans)
      qed
    next
      case False
      then show ?thesis
        using c Nil cat internal ordinary consume_ordinary_settles[of prog x e s r s']
        by (cases cat) (auto simp: consume_def)
    qed
  qed
qed

text \<open>Elements of the history keep their content while user code runs.\<close>

lemma accepted_known:
  assumes "messages_ok ops mrep cur s c bounced"
  shows "\<forall>x \<in> set (map fst (handled s)) \<union> set bounced \<union> set cur \<union> set (stash s). x \<in> set (accepted s) \<and> x < next_addr s"
proof -
  have "set (map fst (handled s)) \<union> set bounced \<union> set cur \<union> set (stash s) \<subseteq> set_mset (mset (accepted s))"
    using assms by (auto simp: messages_ok_def)
  then show ?thesis using assms by (auto simp: messages_ok_def)
qed

lemma responses_ok_frame:
  assumes f: "frame ops s s'" and m: "messages_ok ops mrep cur s c bounced" and r: "responses_ok ops s bounced"
  shows "responses_ok ops s' bounced"
proof -
  have k: "op_elem ops (mbox s') x = op_elem ops (mbox s) x" if "x \<in> set (map fst (handled s)) \<union> set bounced" for x
    using that accepted_known[OF m] f by (auto simp: frame_def)
  have "bounces ops (mbox s') bounced = bounces ops (mbox s) bounced" using k by (intro bounces_cong) auto
  moreover have "op_elem ops (mbox s') x = op_elem ops (mbox s) x" if "(x, rs) \<in> set (handled s)" for x rs
    using k[of x] that by force
  ultimately show ?thesis using f r unfolding responses_ok_def frame_def Let_def by auto
qed

lemma live_steady:
  assumes "steady ops mrep s s'" "live ops mrep cur s c bounced"
  shows "\<exists>c'. live ops mrep cur s' c' bounced"
proof -
  from assms obtain c' where "messages_ok ops mrep cur s' c' bounced" "frame ops s s'"
    by (auto simp: live_def elim: steadyD)
  moreover from this(2) assms(2) have "responses_ok ops s' bounced" by (auto simp: live_def intro: responses_ok_frame)
  ultimately show ?thesis using assms(2) unfolding live_def frame_def by metis
qed

text \<open>Recording the element at hand with the responses that were sent for it.\<close>

lemma live_logged:
  assumes l: "live ops mrep [x] s c bounced" and st: "steady ops mrep s s1"
    and s': "s' = s1\<lparr>responses := responses s1 @ rs, promised := promised s1 @ pr\<rparr>"
    and e: "e = op_elem ops (mbox s) x" and rs: "rs = [] \<or> answers e rs"
    and ans: "needs_answer e \<Longrightarrow> rs \<noteq> [] \<or> x \<in> set (promised s')"
  shows "\<exists>c'. live ops mrep [] (log_handled x (length (responses s)) s') c' bounced"
proof -
  from live_steady[OF st l] obtain c' where l1: "live ops mrep [x] s1 c' bounced" by blast
  have f: "frame ops s s1" using st l by (auto simp: live_def elim: steadyD)
  then have resp: "responses s1 = responses s" by (simp add: frame_def)
  have "x < next_addr s" using accepted_known[of "[x]" s c bounced] l by (auto simp: live_def)
  then have e1: "op_elem ops (mbox s1) x = e" using f e by (simp add: frame_def)
  let ?s = "log_handled x (length (responses s)) s'"
  have fields: "handled ?s = handled s1 @ [(x, rs)]" "responses ?s = responses s1 @ rs" "mbox ?s = mbox s1"
    "promised ?s = promised s1 @ pr" "rejected ?s = rejected s1"
    by (simp_all add: log_handled_def s' resp)
  have "messages_ok ops mrep [] ?s c' bounced"
    using l1 by (simp add: live_def messages_ok_def log_handled_def s')
  moreover have "responses_ok ops ?s bounced"
    using l1 rs ans e1 unfolding live_def responses_ok_def fields Let_def by (auto simp: s')
  ultimately show ?thesis using l1 by (auto simp: live_def log_handled_def s' awaited_ok_def)
qed

lemma close_mailbox_stops:
  assumes m: "messages_ok ops mrep [] s c bounced" and r: "responses_ok ops s bounced" and o: "\<not> op_closed ops (mbox s)"
    and t: "is_terminated s" "is_initialized s"
  shows "\<exists>s' c' bounced'. close_mailbox ops s = Some s' \<and> stopped ops mrep s' c' bounced'"
proof -
  from m have "mrep (mbox s) c" by (simp add: messages_ok_def)
  from close[OF this o] obtain xs b where b: "op_close ops (mbox s)
      = Some (length (all_elems c), concat (map (\<lambda>x. bounce (op_elem ops (mbox s) x)) xs), b)"
      "mset xs = mset (all_elems c)" "mrep b no_contents" "op_elem ops b = op_elem ops (mbox s)" "op_closed ops b"
    by blast
  let ?f = "map (\<lambda>(a, i). (a, i, Err (sec_error request_receiver_down)))"
  have bs: "?f (concat (map (\<lambda>x. bounce (op_elem ops (mbox s) x)) xs)) = bounces ops (mbox s) xs"
    by (simp add: bounces_def map_concat comp_def bounce_responses_def)
  define s' where "s' = s\<lparr>responses := responses s @ bounces ops (mbox s) (stash s) @ bounces ops (mbox s) xs, stash := [], mbox := b\<rparr>"
  have "close_mailbox ops s = Some s'"
    using o b(1) bs by (simp add: close_mailbox_def Let_def stash_bounces_eq s'_def)
  moreover have "messages_ok ops mrep [] s' no_contents (bounced @ stash s @ xs)"
    using m b(2,3,5) not_both[of b] by (auto simp: messages_ok_def s'_def all_elems_def)
  moreover have "responses_ok ops s' (bounced @ stash s @ xs)"
  proof -
    have "bounces ops b ys = bounces ops (mbox s) ys" for ys by (intro bounces_cong) (simp add: b(4))
    with r show ?thesis by (simp add: responses_ok_def s'_def b(4))
  qed
  ultimately have "stopped ops mrep s' no_contents (bounced @ stash s @ xs)"
    using t b(5) by (simp add: stopped_def s'_def all_elems_def)
  with \<open>close_mailbox ops s = Some s'\<close> show ?thesis by blast
qed

lemma finalize_ok:
  assumes l: "live ops mrep [] s c bounced"
  shows "(\<exists>s' c'. finalize ops prog s = Some (False, s') \<and> live ops mrep [] s' c' bounced \<and> alive s' \<and> steady ops mrep s s') \<or>
    (\<exists>s' c' bounced'. finalize ops prog s = Some (True, s') \<and> stopped ops mrep s' c' bounced')"
proof -
  let ?s = "run_actions ops prog s"
  obtain c1 where l1: "live ops mrep [] ?s c1 bounced" using live_steady[OF run_actions_steady l] by blast
  have nt: "\<not> is_terminated s" "\<not> is_terminated ?s" using l l1 by (simp_all add: live_def)
  show ?thesis
  proof (cases "alive ?s")
    case True
    with nt l1 show ?thesis by (auto simp: finalize_def Let_def run_actions_steady)
  next
    case False
    define s2 where "s2 = ?s\<lparr>is_terminated := True, awaited_responses := [], multiplexed_responses := Map.empty\<rparr>"
    define s3 where "s3 = run_actions ops prog s2"
    have m2: "messages_ok ops mrep [] s2 c1 bounced" "responses_ok ops s2 bounced" "\<not> op_closed ops (mbox s2)" "is_initialized s2"
      using l1 by (auto simp: live_def s2_def messages_ok_def responses_ok_def)
    obtain c3 where m3: "messages_ok ops mrep [] s3 c3 bounced" "frame ops s2 s3"
      using steadyD[OF run_actions_steady m2(1)] unfolding s3_def by metis
    have "\<exists>s' c' bounced'. close_mailbox ops s3 = Some s' \<and> stopped ops mrep s' c' bounced'"
      using m2 m3 responses_ok_frame[OF m3(2) m2(1,2)]
      by (intro close_mailbox_stops[OF m3(1)]) (auto simp: frame_def s2_def)
    moreover have "finalize ops prog s = map_option (Pair True) (close_mailbox ops s3)"
      using nt False by (simp add: finalize_def Let_def cleanup_def on_cleanup_def s2_def s3_def)
    ultimately show ?thesis by auto
  qed
qed

lemma quit_shuts_down:
  assumes "messages_ok ops mrep cur s c bounced"
  shows "is_shutting_down (quit ops prog x s)"
proof (cases "is_shutting_down s")
  case False
  obtain c' where "messages_ok ops mrep cur (begin_quit x s) c' bounced"
    using steadyD[OF begin_quit_steady assms] by metis
  from steadyD[OF run_actions_steady this] have "frame ops (begin_quit x s) (run_actions ops prog (begin_quit x s))" by metis
  moreover have "is_shutting_down (begin_quit x s)" by (simp add: begin_quit_def)
  ultimately show ?thesis using False by (simp add: quit_def frame_def)
qed (simp add: quit_def)

lemma finalize_ended:
  assumes l: "live ops mrep [] s c []" and d: "is_shutting_down s"
  shows "\<exists>fin s'. finalize ops prog s = Some (fin, s') \<and> ended ops mrep s'"
  using finalize_ok[OF l, of prog]
proof (elim disjE exE conjE)
  fix s' c'
  assume f: "finalize ops prog s = Some (False, s')" "live ops mrep [] s' c' []" "steady ops mrep s s'"
  have "frame ops s s'" using f(3) l by (auto simp: live_def elim: steadyD)
  then have "is_shutting_down s'" using d by (simp add: frame_def)
  with f show ?thesis by (auto simp: ended_def)
qed (auto simp: ended_def)

lemma reactivate_cases:
  assumes l: "live ops mrep [x] s c []"
  obtains (skipped) "reactivate ops prog x s = Some (Act_skipped, s)"
  | (dropped) s' where "reactivate ops prog x s = Some (Act_dropped, s')" "live ops mrep [] s' c []" "alive s' = alive s" "stash s' = stash s"
  | (success) s' c' where "reactivate ops prog x s = Some (Act_success, s')" "live ops mrep [] s' c' []" "alive s'"
  | (terminated) s' where "reactivate ops prog x s = Some (Act_terminated, s')" "ended ops mrep s'"
proof -
  let ?e = "op_elem ops (mbox s) x" and ?n = "length (responses s)"
  obtain r s' where cons: "consume ops prog x ?e s = (r, s')" by fastforce
  have "awaited_ok s" using l by (simp add: live_def)
  from consume_settles[OF cons this]
  consider (skip) "r = Inr Skipped" "s' = s" | (drop) "r = Inr Dropped" "\<not> needs_answer ?e" "s' = s"
    | (settle) "settles ops mrep x ?e s (r, s')" by blast
  then show thesis
  proof cases
    case skip
    with cons skipped show ?thesis by (simp add: reactivate_def)
  next
    case drop
    have "messages_ok ops mrep [] (log_handled x ?n s) c []" "responses_ok ops (log_handled x ?n s) []"
      using l drop(2) by (auto simp: live_def messages_ok_def responses_ok_def log_handled_def Let_def)
    then have "live ops mrep [] (log_handled x ?n s) c []" using l by (simp add: live_def log_handled_def awaited_ok_def)
    moreover have "alive (log_handled x ?n s) = alive s" "stash (log_handled x ?n s) = stash s"
      by (simp_all add: alive_def log_handled_def)
    ultimately show ?thesis using cons drop dropped by (simp add: reactivate_def)
  next
    case settle
    then obtain s1 rs pr where s1: "steady ops mrep s s1" "s' = s1\<lparr>responses := responses s1 @ rs, promised := promised s1 @ pr\<rparr>"
      "rs = [] \<or> answers ?e rs" "set pr \<subseteq> {x}" and
      c: "r = Inr Consumed \<and> (needs_answer ?e \<longrightarrow> rs \<noteq> [] \<or> x \<in> set pr) \<or> (\<exists>err. r = Inl err \<and> rs = [])"
      unfolding settles_def fst_conv snd_conv by blast
    from c show ?thesis
    proof
      assume r: "r = Inr Consumed \<and> (needs_answer ?e \<longrightarrow> rs \<noteq> [] \<or> x \<in> set pr)"
      then have "\<exists>c'. live ops mrep [] (log_handled x ?n s') c' []"
        by (intro live_logged[OF l s1(1,2) refl s1(3)]) (auto simp: s1(2))
      then obtain c' where "live ops mrep [] (log_handled x ?n s') c' []" ..
      from finalize_ok[OF this, of prog] show ?thesis
        using cons r success terminated by (fastforce simp: reactivate_def ended_def)
    next
      assume "\<exists>err. r = Inl err \<and> rs = []"
      then obtain err where err: "r = Inl err" "rs = []" by blast
      let ?s = "if x \<in> set (promised s') then s' else respond ?e (Err err) s'"
      obtain rs' where rs': "respond ?e (Err err) s' = s'\<lparr>responses := responses s' @ rs'\<rparr>"
        "rs' = [] \<or> answers ?e rs'" "needs_answer ?e \<longrightarrow> rs' \<noteq> []" using respond_effect by blast
      have "\<exists>c'. live ops mrep [] (log_handled x ?n ?s) c' []"
      proof (cases "x \<in> set (promised s')")
        case True
        then show ?thesis by (simp add: live_logged[OF l s1(1,2) refl s1(3)])
      next
        case False
        have "s'\<lparr>responses := responses s' @ rs'\<rparr> = s1\<lparr>responses := responses s1 @ rs', promised := promised s1 @ pr\<rparr>"
          using s1(2) err(2) by simp
        from live_logged[OF l s1(1) this refl rs'(2)] rs'(3) False show ?thesis by (simp add: rs'(1))
      qed
      then obtain c' where "live ops mrep [] (log_handled x ?n ?s) c' []" ..
      from live_steady[OF quit_steady this] obtain c2 where
        q: "live ops mrep [] (quit ops prog err (log_handled x ?n ?s)) c2 []" by blast
      have "is_shutting_down (quit ops prog err (log_handled x ?n ?s))"
        using \<open>live ops mrep [] (log_handled x ?n ?s) c' []\<close> by (auto simp: live_def intro: quit_shuts_down)
      from finalize_ended[OF q this] show ?thesis
        using cons err(1) terminated by (fastforce simp: reactivate_def Let_def)
    qed
  qed
qed

lemma fold_push_front_frame [simp]:
  "op_elem ops (fold (\<lambda>x b. op_push_front ops b x) xs b) = op_elem ops b"
  "op_closed ops (fold (\<lambda>x b. op_push_front ops b x) xs b) = op_closed ops b"
  "op_blocked ops (fold (\<lambda>x b. op_push_front ops b x) xs b) = op_blocked ops b"
  by (induction xs arbitrary: b) (simp_all add: push_front_frame)

lemma fold_push_front:
  assumes "mrep b c" "distinct (xs @ all_elems c)"
  shows "\<exists>c'. mrep (fold (\<lambda>x b. op_push_front ops b x) xs b) c' \<and> mset (all_elems c') = mset (xs @ all_elems c)"
  using assms
proof (induction xs arbitrary: b c)
  case (Cons x xs)
  let ?c = "if urgent_in (op_elem ops b) x then c\<lparr>urgents := x # urgents c\<rparr> else c\<lparr>normals := x # normals c\<rparr>"
  have 1: "mrep (op_push_front ops b x) ?c" using Cons.prems by (intro push_front) auto
  have 2: "mset (xs @ all_elems ?c) = mset ((x # xs) @ all_elems c)" by (simp add: all_elems_def)
  then have "distinct (xs @ all_elems ?c)" using Cons.prems(2) mset_eq_imp_distinct_iff by blast
  from Cons.IH[OF 1 this] 2 show ?case by auto
qed auto

lemma unstash_ok:
  assumes l: "live ops mrep [] s c bounced"
  shows "\<exists>c'. live ops mrep [] (unstash ops s) c' bounced"
proof -
  have "mset (accepted s) = mset ((stash s @ all_elems c) @ map fst (handled s) @ bounced)" "distinct (accepted s)"
    using l by (auto simp: live_def messages_ok_def)
  then have d: "distinct (stash s @ all_elems c)" by (metis distinct_append mset_eq_imp_distinct_iff)
  have r: "mrep (mbox s) c" using l by (simp add: live_def messages_ok_def)
  from fold_push_front[OF r d] obtain c' where c': "mrep (fold (\<lambda>x b. op_push_front ops b x) (stash s) (mbox s)) c'"
    "mset (all_elems c') = mset (stash s @ all_elems c)" by blast
  have "messages_ok ops mrep [] (unstash ops s) c' bounced"
    using l c' by (auto simp: live_def messages_ok_def unstash_def)
  moreover have "responses_ok ops (unstash ops s) bounced"
  proof -
    have "bounces ops (mbox (unstash ops s)) ys = bounces ops (mbox s) ys" for ys
      by (intro bounces_cong) (simp add: unstash_def)
    then show ?thesis using l by (auto simp: live_def responses_ok_def unstash_def)
  qed
  ultimately show ?thesis using l by (auto simp: live_def unstash_def awaited_ok_def)
qed

lemma unstash_alive [simp]: "alive (unstash ops s) = alive s"
  by (simp add: alive_def unstash_def)

lemma enqueue_live:
  assumes l: "live ops mrep cur s c bounced"
  shows "\<exists>c'. live ops mrep cur (enqueue ops e s) c' bounced"
proof -
  have m: "messages_ok ops mrep cur s c bounced" "\<not> op_closed ops (mbox s)" using l by (simp_all add: live_def)
  obtain b where b: "enqueue ops e s = s\<lparr>next_addr := next_addr s + 1, mbox := b, accepted := accepted s @ [next_addr s],
      scheduled := (if op_blocked ops (mbox s) then True else scheduled s)\<rparr>"
    "messages_ok ops mrep cur (enqueue ops e s) (c\<lparr>incoming := incoming c @ [next_addr s]\<rparr>) bounced"
    "op_elem ops b = (op_elem ops (mbox s))(next_addr s := e)" "\<not> op_closed ops b" "\<not> op_blocked ops b"
    using enqueue_open[OF m] by metis
  have "frame ops s (enqueue ops e s)"
    using b enqueue_open_bounces[OF m, of e] m(2) l by (simp add: frame_def awaited_ok_def live_def)
  from responses_ok_frame[OF this m(1)] l b show ?thesis unfolding live_def by (auto simp: awaited_ok_def)
qed

lemma enqueue_alive [simp]: "alive (enqueue ops e s) = alive s"
  by (simp add: alive_def enqueue_def Let_def split: prod.split inbox_result.split)

lemma arrive_live:
  assumes "live ops mrep cur s c bounced"
  obtains c' where "live ops mrep cur (snd (arrive ops arr s)) c' bounced" "fst (arrive ops arr s) = tl arr"
    "alive (snd (arrive ops arr s)) = alive s" "arr = [] \<longrightarrow> snd (arrive ops arr s) = s \<and> c' = c"
proof (cases arr)
  case Nil
  with assms that show ?thesis by simp
next
  case (Cons es ess)
  have "\<exists>c'. live ops mrep cur (fold (enqueue ops) es s) c' bounced"
    using assms by (induction es arbitrary: s c) (use enqueue_live in fastforce)+
  moreover have "alive (fold (enqueue ops) es s) = alive s" by (induction es arbitrary: s) simp_all
  ultimately show ?thesis using Cons that by auto
qed

end

end
