(* ===== verification/Actor_Life.thy ===== *)
theory Actor_Life
  imports Actor_Loop
begin

text \<open>
  The life of an event-based actor: \<^verbatim>\<open>scheduled_actor::resume\<close> returns for every program and every arrival of
  messages, each step of the actor and of its senders keeps the account of messages and responses, and the actor of the
  default mailbox obeys it. Last come a program that shows a normal end and one that leaves a dropped actor behind.
\<close>

section \<open>Resumption of an actor\<close>

definition loop_returns ::
    "('b, ('p, 'h) content) mailbox_ops \<Rightarrow> ('b \<Rightarrow> contents \<Rightarrow> bool) \<Rightarrow> ('p, 'h, 'u) program \<Rightarrow> nat \<Rightarrow> nat
     \<Rightarrow> ('p, 'h) content mailbox_element list list \<Rightarrow> ('b, 'p, 'h, 'u) sactor \<Rightarrow> bool" where
  "loop_returns ops mrep prog mx n arr s \<longleftrightarrow>
     (\<exists>r n' s'. resume_loop ops prog mx n arr s = Some (r, n', s') \<and> n' \<le> mx \<and> loop_post ops mrep r s')"

text \<open>
  The four situations of an actor between two steps: it has terminated; the scheduler has dropped it although it
  still waits for responses; it is scheduled; it waits for a message. \<open>ready\<close> also covers an actor before its first run.
\<close>

definition ready ::
    "('b, ('p, 'h) content) mailbox_ops \<Rightarrow> ('b \<Rightarrow> contents \<Rightarrow> bool) \<Rightarrow> ('b, 'p, 'h, 'u) sactor \<Rightarrow> contents \<Rightarrow> bool" where
  "ready ops mrep s c \<longleftrightarrow> live ops mrep [] (s\<lparr>is_initialized := True\<rparr>) c [] \<and> (is_initialized s \<longrightarrow> alive s)"

definition actor_ok :: "('b, ('p, 'h) content) mailbox_ops \<Rightarrow> ('b \<Rightarrow> contents \<Rightarrow> bool) \<Rightarrow> ('b, 'p, 'h, 'u) sactor \<Rightarrow> bool" where
  "actor_ok ops mrep s \<longleftrightarrow>
     (if scheduled s then \<exists>c. ready ops mrep s c
      else ended ops mrep s \<or> (\<exists>c. parked ops mrep s c [] \<and> (is_initialized s \<longrightarrow> alive s)))"

lemma ended_stoppedI: "stopped ops mrep s c bounced \<Longrightarrow> ended ops mrep s"
  unfolding ended_def by blast

lemma ended_droppedI: "live ops mrep [] s c [] \<Longrightarrow> is_shutting_down s \<Longrightarrow> ended ops mrep s"
  unfolding ended_def by blast

lemma ok_readyI: "ready ops mrep s c \<Longrightarrow> scheduled s \<Longrightarrow> actor_ok ops mrep s"
  unfolding actor_ok_def by auto

lemma ok_endedI: "ended ops mrep s \<Longrightarrow> \<not> scheduled s \<Longrightarrow> actor_ok ops mrep s"
  unfolding actor_ok_def by simp

lemma ok_parkedI:
  "parked ops mrep s c [] \<Longrightarrow> is_initialized s \<longrightarrow> alive s \<Longrightarrow> \<not> scheduled s \<Longrightarrow> actor_ok ops mrep s"
  unfolding actor_ok_def by auto

lemma mbox_fields [simp]:
  "alive (s\<lparr>mbox := b\<rparr>) = alive s" "alive (s\<lparr>stash := ys\<rparr>) = alive s" "alive (s\<lparr>scheduled := q\<rparr>) = alive s"
  by (simp_all add: alive_def)

context actor_mailbox
begin

text \<open>Replacing the mailbox by one with other contents.\<close>

lemma live_mbox:
  assumes l: "live ops mrep cur s c bounced" and b: "mrep b c'" "op_elem ops b = op_elem ops (mbox s)" "\<not> op_closed ops b"
    "\<not> op_blocked ops b" "mset (all_elems c) + mset cur = mset (all_elems c') + mset cur'"
  shows "live ops mrep cur' (s\<lparr>mbox := b\<rparr>) c' bounced"
proof -
  have "mset (all_elems c) + mset cur + X = mset (all_elems c') + mset cur' + X" for X using b(5) by simp
  from this[of "mset (stash s) + mset (map fst (handled s)) + mset bounced"]
  have "mset (accepted s) = mset (all_elems c') + mset (stash s) + mset (map fst (handled s)) + mset bounced + mset cur'"
    using l by (simp add: live_def messages_ok_def ac_simps)
  moreover have "responses_ok ops (s\<lparr>mbox := b\<rparr>) bounced"
  proof -
    have "bounces ops b ys = bounces ops (mbox s) ys" for ys by (intro bounces_cong) (simp add: b(2))
    then show ?thesis using l b(2) by (auto simp: live_def responses_ok_def)
  qed
  ultimately show ?thesis using l b by (auto simp: live_def messages_ok_def awaited_ok_def)
qed

lemma try_block_ok:
  assumes l: "live ops mrep [] s c bounced"
  obtains (blocked) b where "op_try_block ops (mbox s) = (True, b)" "parked ops mrep (s\<lparr>mbox := b\<rparr>) c bounced"
  | (busy) b where "op_try_block ops (mbox s) = (False, b)" "live ops mrep [] (s\<lparr>mbox := b\<rparr>) c bounced" "all_elems c \<noteq> []"
proof -
  have "mrep (mbox s) c" "\<not> op_closed ops (mbox s)" "\<not> op_blocked ops (mbox s)"
    using l by (simp_all add: live_def messages_ok_def)
  from try_block[OF this] obtain b where b: "op_try_block ops (mbox s) = (all_elems c = [], b)" "mrep b c"
    "op_elem ops b = op_elem ops (mbox s)" "\<not> op_closed ops b" "op_blocked ops b \<longleftrightarrow> all_elems c = []" by blast
  show thesis
  proof (cases "all_elems c = []")
    case False
    have "live ops mrep [] (s\<lparr>mbox := b\<rparr>) c bounced" using b False by (intro live_mbox[OF l]) simp_all
    with b(1) False busy show ?thesis by simp
  next
    case True
    have "bounces ops b ys = bounces ops (mbox s) ys" for ys by (intro bounces_cong) (simp add: b(3))
    then have "parked ops mrep (s\<lparr>mbox := b\<rparr>) c bounced"
      using l b True by (auto simp: parked_def live_def messages_ok_def responses_ok_def awaited_ok_def)
    with b(1) True blocked show ?thesis by simp
  qed
qed

lemma loop_at_limit:
  assumes l: "live ops mrep [] s c []" "alive s" and n: "n \<le> mx" "\<not> n < mx" and arr: "arrive ops arr s0 = (arr', s)"
  shows "loop_returns ops mrep prog mx n arr s0"
  using l(1)
proof (cases rule: try_block_ok)
  case (blocked b)
  have "is_initialized s" using l by (simp add: live_def)
  with blocked(2) l(2) have "loop_post ops mrep Awaiting_message (s\<lparr>mbox := b\<rparr>)" by (auto simp: loop_post_def)
  moreover have "resume_loop ops prog mx n arr s0 = Some (Awaiting_message, n, s\<lparr>mbox := b\<rparr>)"
    unfolding resume_loop.simps[of ops prog mx n arr s0] using n blocked(1) by (simp add: arr)
  ultimately show ?thesis using n by (auto simp: loop_returns_def)
next
  case (busy b)
  from busy(2) l(2) have "loop_post ops mrep Resume_later (s\<lparr>mbox := b\<rparr>)" by (auto simp: loop_post_def)
  moreover have "resume_loop ops prog mx n arr s0 = Some (Resume_later, n, s\<lparr>mbox := b\<rparr>)"
    unfolding resume_loop.simps[of ops prog mx n arr s0] using n busy(1) by (simp add: arr)
  ultimately show ?thesis using n by (auto simp: loop_returns_def)
qed

lemma loop_on_empty:
  assumes arr: "arrive ops arr s0 = (tl arr, s1)" and pop: "op_pop_front ops (mbox s1) = Some (None, b)" and n: "n < mx"
    and l: "live ops mrep [] (s1\<lparr>mbox := b\<rparr>) c []" "alive s1" "all_elems c = []"
    and IH: "\<And>arr' s' c'. length arr' < length arr \<Longrightarrow> live ops mrep [] s' c' [] \<Longrightarrow> alive s' \<Longrightarrow> loop_returns ops mrep prog mx n arr' s'"
  shows "loop_returns ops mrep prog mx n arr s0"
proof -
  obtain c3 s3 where arr3: "arrive ops (tl arr) (s1\<lparr>mbox := b\<rparr>) = (tl (tl arr), s3)"
    and l3: "live ops mrep [] s3 c3 []" "alive s3" and idle: "tl arr = [] \<longrightarrow> c3 = c"
    by (rule arrive_live[OF l(1), of "tl arr"]) (use l(2) in \<open>auto simp: prod_eq_iff\<close>)
  note step = resume_loop.simps[of ops prog mx n arr s0]
  from l3(1) show ?thesis
  proof (cases rule: try_block_ok)
    case (blocked b')
    have "is_initialized s3" using l3 by (simp add: live_def)
    with blocked(2) l3(2) have "loop_post ops mrep Awaiting_message (s3\<lparr>mbox := b'\<rparr>)" by (auto simp: loop_post_def)
    moreover have "resume_loop ops prog mx n arr s0 = Some (Awaiting_message, n, s3\<lparr>mbox := b'\<rparr>)"
      unfolding step using n pop blocked(1) by (simp add: arr arr3)
    ultimately show ?thesis using n by (auto simp: loop_returns_def)
  next
    case (busy b')
    have "tl arr \<noteq> []" using busy(3) idle l(3) by auto
    then have "length (tl (tl arr)) < length arr" by (cases arr) auto
    from IH[OF this busy(2)] l3(2) have "loop_returns ops mrep prog mx n (tl (tl arr)) (s3\<lparr>mbox := b'\<rparr>)" by simp
    with n pop busy(1) show ?thesis unfolding loop_returns_def step by (simp add: arr arr3)
  qed
qed

lemma loop_on_elem:
  assumes arr: "arrive ops arr s0 = (arr', s1)" and pop: "op_pop_front ops (mbox s1) = Some (Some x, b)" and n: "n < mx"
    and l: "live ops mrep [x] (s1\<lparr>mbox := b\<rparr>) c []" "alive s1"
    and again: "\<And>s'. live ops mrep [] s' c [] \<Longrightarrow> alive s' \<Longrightarrow> loop_returns ops mrep prog mx n arr' s'"
    and next_one: "\<And>s' c'. live ops mrep [] s' c' [] \<Longrightarrow> alive s' \<Longrightarrow> loop_returns ops mrep prog mx (n + 1) arr' s'"
  shows "loop_returns ops mrep prog mx n arr s0"
proof -
  let ?s = "s1\<lparr>mbox := b\<rparr>"
  note step = resume_loop.simps[of ops prog mx n arr s0]
  from l(1) show ?thesis
  proof (cases rule: reactivate_cases[where prog = prog])
    case skipped
    have "live ops mrep [] (?s\<lparr>stash := x # stash ?s\<rparr>) c []"
      using l(1) by (auto simp: live_def messages_ok_def responses_ok_def awaited_ok_def)
    from again[OF this] l(2) have "loop_returns ops mrep prog mx n arr' (?s\<lparr>stash := x # stash ?s\<rparr>)" by simp
    with n pop skipped show ?thesis unfolding loop_returns_def step by (simp add: arr)
  next
    case (dropped s')
    have "loop_returns ops mrep prog mx n arr' s'" using again[OF dropped(2)] dropped(3) l(2) by simp
    with n pop dropped(1) show ?thesis unfolding loop_returns_def step by (simp add: arr)
  next
    case (success s' c')
    from unstash_ok[OF success(2)] success(3) next_one have "loop_returns ops mrep prog mx (n + 1) arr' (unstash ops s')" by auto
    with n pop success(1) show ?thesis unfolding loop_returns_def step by (simp add: arr)
  next
    case (terminated s')
    with n pop show ?thesis unfolding loop_returns_def step by (simp add: arr loop_post_def)
  qed
qed

text \<open>
  Each round handles a message, takes arrivals or shortens the mailbox; messages that the actor itself sends while it
  handles a message are paid for by the throughput.
\<close>

lemma resume_loop_returns:
  assumes "live ops mrep [] s c []" "alive s" "n \<le> mx"
  shows "loop_returns ops mrep prog mx n arr s"
  using assms
proof (induction "(mx - n, length arr, length (all_elems c))" arbitrary: n arr s c
    rule: wf_induct_rule[OF wf_lex_prod[OF wf_less_than wf_lex_prod[OF wf_less_than wf_less_than]]])
  case (1 n arr c s)
  note IH = 1(1) and n = 1(4)
  obtain c1 s1 where arr: "arrive ops arr s = (tl arr, s1)" and l1: "live ops mrep [] s1 c1 []" "alive s1"
    and idle: "arr = [] \<longrightarrow> c1 = c"
    by (rule arrive_live[OF 1(2), of arr]) (use 1(3) in \<open>auto simp: prod_eq_iff\<close>)
  show ?case
  proof (cases "n < mx")
    case False
    from loop_at_limit[OF l1 n this arr] show ?thesis .
  next
    case True
    have "mrep (mbox s1) c1" "\<not> op_closed ops (mbox s1)" "\<not> op_blocked ops (mbox s1)"
      using l1 by (simp_all add: live_def messages_ok_def)
    then show ?thesis
    proof (cases rule: pop_front_cases)
      case (empty b c2)
      have "live ops mrep [] (s1\<lparr>mbox := b\<rparr>) c2 []" by (rule live_mbox[OF l1(1)]) (use empty in simp_all)
      from loop_on_empty[OF arr empty(1) True this l1(2) empty(4)] n show ?thesis using IH by simp
    next
      case (elem x b c2)
      have l2: "live ops mrep [x] (s1\<lparr>mbox := b\<rparr>) c2 []" by (rule live_mbox[OF l1(1)]) (use elem in simp_all)
      have dec: "((mx - n, length (tl arr), length (all_elems c2)), (mx - n, length arr, length (all_elems c)))
          \<in> less_than <*lex*> less_than <*lex*> less_than"
      proof (cases arr)
        case Nil
        with idle elem(2) have "length (all_elems c2) < length (all_elems c)"
          by (metis lessI size_add_mset size_mset)
        with Nil show ?thesis by simp
      qed simp
      show ?thesis
      proof (rule loop_on_elem[OF arr elem(1) True l2 l1(2)])
        show "loop_returns ops mrep prog mx n (tl arr) s'" if "live ops mrep [] s' c2 []" "alive s'" for s'
          using IH[OF dec that n] .
        show "loop_returns ops mrep prog mx (n + 1) (tl arr) s'" if "live ops mrep [] s' c' []" "alive s'" for s' c'
          by (rule IH[OF _ that]) (use True diff_less_mono2[of n "n + 1" mx] in simp_all)
      qed
    qed
  qed
qed

section \<open>Steps of an actor\<close>

lemma live_cong:
  assumes "live ops mrep cur s c []"
    "mbox s' = mbox s" "next_addr s' = next_addr s" "accepted s' = accepted s" "rejected s' = rejected s" "stash s' = stash s"
    "handled s' = handled s" "promised s' = promised s" "responses s' = responses s" "awaited_responses s' = awaited_responses s"
    "is_terminated s' = is_terminated s" "is_initialized s'"
  shows "live ops mrep cur s' c []"
  using assms by (simp add: live_def messages_ok_def responses_ok_def awaited_ok_def)

lemma activate_cases:
  assumes r: "ready ops mrep s c"
  obtains (running) s' c' where "activate ops prog s = Some (True, s')" "live ops mrep [] s' c' []" "alive s'"
  | (over) s' where "activate ops prog s = Some (False, s')" "ended ops mrep s'"
proof (cases "is_initialized s")
  case True
  then have "live ops mrep [] s c []" "alive s" using r by (auto simp: ready_def intro: live_cong)
  with True running show ?thesis by (simp add: activate_def)
next
  case False
  obtain cs err u where i: "init_code prog (user s) = (cs, err, u)" by (metis prod_cases3)
  let ?s = "fold (exec ops prog) cs (s\<lparr>is_initialized := True, user := u\<rparr>)"
  obtain c1 where l: "live ops mrep [] ?s c1 []"
    using live_steady[OF exec_all_steady[where s = "s\<lparr>is_initialized := True\<rparr>" and prog = prog and cs = cs and u = u]] r
    unfolding ready_def by metis
  show ?thesis
  proof (cases err)
    case None
    with finalize_ok[OF l, of prog] i False show ?thesis
      using running over ended_stoppedI by (fastforce simp: activate_def)
  next
    case (Some x)
    obtain c2 where q: "live ops mrep [] (quit ops prog x ?s) c2 []" using live_steady[OF quit_steady l] by blast
    have "is_shutting_down (quit ops prog x ?s)" using l by (auto simp: live_def intro: quit_shuts_down)
    from finalize_ended[OF q this] obtain fin s' where
      "finalize ops prog (quit ops prog x ?s) = Some (fin, s')" "ended ops mrep s'" by blast
    with Some i False over show ?thesis by (simp add: activate_def)
  qed
qed

lemma resume_returns:
  assumes r: "ready ops mrep s c"
  shows "\<exists>r n s'. resume ops prog mx arr s = Some (r, n, s') \<and> n \<le> mx \<and> loop_post ops mrep r s'"
  using r
proof (cases rule: activate_cases[where prog = prog])
  case (running s' c')
  from resume_loop_returns[OF running(2,3), of 0 mx prog arr] running(1) show ?thesis
    by (simp add: resume_def loop_returns_def)
next
  case (over s')
  then show ?thesis by (simp add: resume_def loop_post_def)
qed

lemma ready_scheduled [simp]: "ready ops mrep (s\<lparr>scheduled := q\<rparr>) c = ready ops mrep s c"
  by (simp add: ready_def live_def messages_ok_def responses_ok_def awaited_ok_def)

lemma run_ok:
  assumes "actor_ok ops mrep s" "scheduled s" "resume ops prog mx arr (s\<lparr>scheduled := False\<rparr>) = Some (r, n, s')"
  shows "actor_ok ops mrep (s'\<lparr>scheduled := (r = Resume_later)\<rparr>)"
proof -
  from assms(1,2) obtain c where "ready ops mrep (s\<lparr>scheduled := False\<rparr>) c" by (auto simp: actor_ok_def)
  from resume_returns[OF this, of prog mx arr] assms(3) have post: "loop_post ops mrep r s'" by auto
  have upd: "ended ops mrep (s'\<lparr>scheduled := q\<rparr>) = ended ops mrep s'"
    "parked ops mrep (s'\<lparr>scheduled := q\<rparr>) c b = parked ops mrep s' c b" for q c b
    by (simp_all add: ended_def stopped_def parked_def live_def messages_ok_def responses_ok_def awaited_ok_def)
  show ?thesis
  proof (cases r)
    case Awaiting_message
    then obtain c where "parked ops mrep s' c []" "alive s'" using post by (auto simp: loop_post_def)
    with Awaiting_message show ?thesis by (intro ok_parkedI[of _ _ _ c]) (simp_all add: upd)
  next
    case Resume_later
    then obtain c where "live ops mrep [] s' c []" "alive s'" using post by (auto simp: loop_post_def)
    from this(1) have "live ops mrep [] (s'\<lparr>is_initialized := True\<rparr>) c []" by (rule live_cong) simp_all
    with \<open>alive s'\<close> have "ready ops mrep s' c" by (simp add: ready_def)
    with Resume_later show ?thesis by (intro ok_readyI[of _ _ _ c]) simp_all
  next
    case Done
    with post show ?thesis by (intro ok_endedI) (simp_all add: loop_post_def upd)
  qed
qed

lemma enqueue_stopped:
  assumes st: "stopped ops mrep s c bounced"
  shows "stopped ops mrep (enqueue ops e s) c bounced"
proof -
  let ?s = "enqueue ops e s"
  have m: "messages_ok ops mrep [] s c bounced" "op_closed ops (mbox s)" and r: "responses_ok ops s bounced"
    using st by (simp_all add: stopped_def)
  note eq = enqueue_closed[OF m(2), of e]
  have known: "op_elem ops (mbox ?s) x = op_elem ops (mbox s) x" if "x \<in> set (map fst (handled s)) \<union> set bounced" for x
    using that accepted_known[OF m(1)] by (auto simp: eq alloc_elem)
  have "bounces ops (mbox ?s) bounced = bounces ops (mbox s) bounced" by (intro bounces_cong known) simp
  moreover have "op_elem ops (mbox ?s) x = op_elem ops (mbox s) x" if "(x, rs) \<in> set (handled s)" for x rs
    using known[of x] that by force
  moreover have "responses ?s = responses s @ bounce_responses e" "handled ?s = handled s" "promised ?s = promised s"
    by (simp_all add: eq)
  ultimately have "responses_ok ops ?s bounced"
    using r enqueue_closed_ok(2)[OF m(2,1), of e] unfolding responses_ok_def Let_def by (auto simp: ac_simps)
  moreover have "messages_ok ops mrep [] ?s c bounced" by (rule enqueue_closed_ok(1)[OF m(2,1)])
  ultimately show ?thesis using st by (simp add: stopped_def eq alloc_flags)
qed

lemma enqueue_parked:
  assumes p: "parked ops mrep s c bounced"
  shows "\<exists>c'. live ops mrep [] ((enqueue ops e s)\<lparr>is_initialized := True\<rparr>) c' bounced" "scheduled (enqueue ops e s)"
proof -
  have m: "messages_ok ops mrep [] s c bounced" "\<not> op_closed ops (mbox s)" using p by (simp_all add: parked_def)
  obtain b where b: "enqueue ops e s = s\<lparr>next_addr := next_addr s + 1, mbox := b, accepted := accepted s @ [next_addr s],
      scheduled := (if op_blocked ops (mbox s) then True else scheduled s)\<rparr>"
    "messages_ok ops mrep [] (enqueue ops e s) (c\<lparr>incoming := incoming c @ [next_addr s]\<rparr>) bounced"
    "op_elem ops b = (op_elem ops (mbox s))(next_addr s := e)" "\<not> op_closed ops b" "\<not> op_blocked ops b"
    using enqueue_open[OF m] by metis
  have "frame ops s (enqueue ops e s)"
    using b enqueue_open_bounces[OF m, of e] p by (simp add: frame_def awaited_ok_def parked_def)
  from responses_ok_frame[OF this m(1)] p have "responses_ok ops (enqueue ops e s) bounced" by (simp add: parked_def)
  with b p show "\<exists>c'. live ops mrep [] ((enqueue ops e s)\<lparr>is_initialized := True\<rparr>) c' bounced"
    by (intro exI[of _ "c\<lparr>incoming := incoming c @ [next_addr s]\<rparr>"])
      (simp add: live_def parked_def awaited_ok_def messages_ok_def responses_ok_def)
  show "scheduled (enqueue ops e s)" using b p by (simp add: parked_def)
qed

lemma enqueue_flags [simp]:
  "is_initialized (enqueue ops e s) = is_initialized s" "is_shutting_down (enqueue ops e s) = is_shutting_down s"
  "enqueue ops e (s\<lparr>is_initialized := q\<rparr>) = (enqueue ops e s)\<lparr>is_initialized := q\<rparr>"
  by (simp_all add: enqueue_def Let_def split: prod.split inbox_result.split)

lemma enqueue_open_silent:
  assumes "messages_ok ops mrep cur s c bounced" "\<not> op_closed ops (mbox s)" "\<not> op_blocked ops (mbox s)"
  shows "scheduled (enqueue ops e s) = scheduled s" "handled (enqueue ops e s) = handled s" "responses (enqueue ops e s) = responses s"
  by (rule enqueue_open[OF assms(1,2), of e], use assms(3) in simp)+

lemma send_ok:
  assumes ok: "actor_ok ops mrep s"
  shows "actor_ok ops mrep (enqueue ops e s)"
proof (cases "scheduled s")
  case True
  then obtain c where r: "ready ops mrep s c" using ok by (auto simp: actor_ok_def)
  then have l: "live ops mrep [] (s\<lparr>is_initialized := True\<rparr>) c []" by (simp add: ready_def)
  then have "scheduled (enqueue ops e (s\<lparr>is_initialized := True\<rparr>))" using True enqueue_open_silent(1)[of "[]" "s\<lparr>is_initialized := True\<rparr>" c "[]" e]
    by (simp add: live_def)
  moreover obtain c' where "live ops mrep [] ((enqueue ops e s)\<lparr>is_initialized := True\<rparr>) c' []"
    using enqueue_live[OF l, of e] by auto
  then have "ready ops mrep (enqueue ops e s) c'" using r by (simp add: ready_def)
  ultimately show ?thesis by (simp add: ok_readyI)
next
  case False
  with ok consider (stop) c b where "stopped ops mrep s c b" | (drop) c where "live ops mrep [] s c []" "is_shutting_down s"
    | (wait) c where "parked ops mrep s c []" "is_initialized s \<longrightarrow> alive s" by (auto simp: actor_ok_def ended_def)
  then show ?thesis
  proof cases
    case stop
    then have "\<not> scheduled (enqueue ops e s)" using False by (simp add: stopped_def enqueue_closed)
    with ended_stoppedI[OF enqueue_stopped[OF stop]] show ?thesis by (rule ok_endedI)
  next
    case drop
    then have "\<not> scheduled (enqueue ops e s)" using False enqueue_open_silent(1)[of "[]" s c "[]" e] by (simp add: live_def)
    moreover obtain c' where "live ops mrep [] (enqueue ops e s) c' []" using enqueue_live[OF drop(1)] by metis
    then have "ended ops mrep (enqueue ops e s)" using drop(2) by (intro ended_droppedI) simp_all
    ultimately show ?thesis by (intro ok_endedI)
  next
    case wait
    from enqueue_parked(1)[OF wait(1), of e] wait(2) obtain c' where "ready ops mrep (enqueue ops e s) c'"
      by (auto simp: ready_def)
    from ok_readyI[OF this enqueue_parked(2)[OF wait(1)]] show ?thesis .
  qed
qed

lemma launch_ok:
  fixes u :: 'd
  assumes "mrep b no_contents" "\<not> op_closed ops b" "\<not> op_blocked ops b"
  shows "actor_ok ops mrep (launch ops lazy (mk_scheduled_actor b u :: ('b, 'p, 'h, 'd) sactor))"
proof -
  let ?s = "mk_scheduled_actor b u :: ('b, 'p, 'h, 'd) sactor"
  have l: "live ops mrep [] (?s\<lparr>is_initialized := True\<rparr>) no_contents []"
    using assms by (simp add: live_def messages_ok_def responses_ok_def awaited_ok_def mk_scheduled_actor_def all_elems_def)
  show ?thesis
  proof (cases lazy)
    case False
    have "ready ops mrep ?s no_contents" using l by (simp add: ready_def mk_scheduled_actor_def)
    with False show ?thesis by (intro ok_readyI[of _ _ _ no_contents]) (simp_all add: launch_def)
  next
    case True
    from try_block[OF assms] obtain b' where b': "op_try_block ops b = (True, b')" "mrep b' no_contents" "\<not> op_closed ops b'"
      "op_blocked ops b'" by (auto simp: all_elems_def)
    then have "parked ops mrep (?s\<lparr>mbox := b', scheduled := False\<rparr>) no_contents []"
      by (simp add: parked_def messages_ok_def responses_ok_def awaited_ok_def mk_scheduled_actor_def all_elems_def)
    then have "actor_ok ops mrep (?s\<lparr>mbox := b', scheduled := False\<rparr>)"
      by (rule ok_parkedI) (simp_all add: mk_scheduled_actor_def)
    with True b' show ?thesis by (simp add: launch_def mk_scheduled_actor_def)
  qed
qed

lemma reachable_ok:
  assumes "actor_reachable ops prog (mk_scheduled_actor b u) s" "mrep b no_contents" "\<not> op_closed ops b" "\<not> op_blocked ops b"
  shows "actor_ok ops mrep s"
  using assms(1)
proof induction
  case (start lazy)
  show ?case by (rule launch_ok[OF assms(2-4)])
next
  case (step s s')
  from step(2,3) show ?case by cases (auto intro: send_ok run_ok)
qed

end

section \<open>Actors with the default mailbox\<close>

interpretation dma: actor_mailbox default_mailbox_ops mailbox_rep
  by unfold_locales

lemma default_ops [simp]:
  "op_elem default_mailbox_ops = elems" "op_closed default_mailbox_ops = mb_closed" "op_blocked default_mailbox_ops = mb_blocked"
  by (simp_all add: default_mailbox_ops_def)

abbreviation new_actor :: "(addr \<Rightarrow> ('p, 'h) content mailbox_element) \<Rightarrow> 'u \<Rightarrow> (('p, 'h) content mailbox, 'p, 'h, 'u) sactor" where
  "new_actor E u \<equiv> mk_scheduled_actor (new_mailbox E) u"

lemma default_reachable_ok:
  assumes "actor_reachable default_mailbox_ops prog (new_actor E u) s"
  shows "actor_ok default_mailbox_ops mailbox_rep s"
  by (rule dma.reachable_ok[OF assms]) (simp_all add: new_mailbox_rep, simp_all add: new_mailbox_def mb_flags)

text \<open>The account of a reachable state: \<open>bounced\<close> lists the messages that the closing of the mailbox dropped.\<close>

lemma default_account:
  assumes "actor_reachable default_mailbox_ops prog (new_actor E u) s"
  obtains c bounced where "messages_ok default_mailbox_ops mailbox_rep [] s c bounced" "responses_ok default_mailbox_ops s bounced"
    "if is_terminated s then all_elems c = [] \<and> stash s = [] else bounced = []"
proof -
  consider (ready) c where "ready default_mailbox_ops mailbox_rep s c" | (ended) "ended default_mailbox_ops mailbox_rep s"
    | (parked) c where "parked default_mailbox_ops mailbox_rep s c []"
    using default_reachable_ok[OF assms] unfolding actor_ok_def by (cases "scheduled s") auto
  then show thesis
  proof cases
    case ready
    then show ?thesis
      by (intro that[of c "[]"]) (simp_all add: ready_def live_def messages_ok_def responses_ok_def)
  next
    case ended
    then consider c b where "stopped default_mailbox_ops mailbox_rep s c b" | c where "live default_mailbox_ops mailbox_rep [] s c []"
      unfolding ended_def by blast
    then show ?thesis by cases (use that in \<open>auto simp: stopped_def live_def\<close>)
  next
    case parked
    then show ?thesis by (intro that[of c "[]"]) (simp_all add: parked_def)
  qed
qed

section \<open>Sample actors\<close>

definition greeter :: "(nat, nat, nat) program" where
  "greeter = \<lparr>
     init_code = (\<lambda>u. ([Become (Some 0) False], None, u)),
     code = (\<lambda>h c u. \<lparr>matched = True, result = Return (Value u), cmds = [Quit no_error], thrown = None, next_user = u + 1\<rparr>),
     act = (\<lambda>h u. ([], u))\<rparr>"

text \<open>The handler delays an action and throws; the action sends a request.\<close>

definition careless :: "(nat, nat, nat) program" where
  "careless = \<lparr>
     init_code = (\<lambda>u. ([Become (Some 0) False], None, u)),
     code = (\<lambda>h c u. \<lparr>matched = True, result = Return Empty_reply, cmds = [Delay 1 (mk_message_id 9)],
               thrown = Some (sec_error runtime_error), next_user = u\<rparr>),
     act = (\<lambda>h u. ([Then (mk_message_id 10) 2], u))\<rparr>"

definition question :: "(nat, nat) content mailbox_element" where
  "question = \<lparr>sender = Some 4, mid = mk_message_id 7, payload = Ordinary 1\<rparr>"

definition sample_start :: "((nat, nat) content mailbox, nat, nat, nat) sactor" where
  "sample_start = enqueue default_mailbox_ops question (launch default_mailbox_ops False (new_actor (\<lambda>_. question) 3))"

lemma question_id: "is_request (mk_message_id 7)" "\<not> is_response (mk_message_id 7)" "\<not> is_answered (mk_message_id 7)"
  "is_urgent_message (mk_message_id 7)"
  by code_simp+

lemmas actor_eval = resume_def activate_def finalize_def cleanup_def on_cleanup_def close_mailbox_def run_actions_def run_loop.simps
  reactivate_def consume_def consume_ordinary_def categorize_def call_def exec_def quit_def begin_quit_def do_become_def finish_call_def
  visit_result_def respond_def log_handled_def alive_def unstash_def stash_bounces_def enqueue_def launch_def mk_scheduled_actor_def
  delay_def max_inline_actions_per_run_def add_multiplexed_response_handler_def default_mailbox_ops_def Let_def

lemmas mailbox_eval = mb_push_back_def mb_pop_front.simps fetch_more_def fetch_loop.simps mb_try_block_def mb_close_def new_mailbox_def
  mb_flags cached_def urgent_elem_def inbox_push_front_def push_result_def ll_pop_front_def ll_empty_def ll_size_def fresh_store_def
  inbox_take_head_def set_next_def set_size_def ll_before_end_def ll_insert_after_def link_front_def ll_init_def urgent_queue_def
  normal_queue_def ll_drain_def ll_drain_from.simps inbox_close_def inbox_close_from.simps

lemma sample_scheduled: "scheduled sample_start" "next_addr sample_start = 1"
  by (simp_all add: sample_start_def actor_eval mailbox_eval)

lemma sample_reachable:
  "actor_reachable default_mailbox_ops prog (new_actor (\<lambda>_. question) 3) sample_start"
  unfolding sample_start_def by (rule actor_reachable.step[OF actor_reachable.start actor_step.send])

lemma greeter_run:
  "\<exists>s. actor_reachable default_mailbox_ops greeter (new_actor (\<lambda>_. question) 3) s \<and> is_terminated s \<and> accepted s = [0] \<and>
     handled s = [(0, [(4, response_id (mk_message_id 7), Value 3)])]"
proof -
  have "\<exists>s'. resume default_mailbox_ops greeter 5 [] (sample_start\<lparr>scheduled := False\<rparr>) = Some (Done, 0, s') \<and> is_terminated s'
     \<and> accepted s' = [0] \<and> handled s' = [(0, [(4, response_id (mk_message_id 7), Value 3)])]"
    by (simp add: sample_start_def greeter_def actor_eval mailbox_eval resume_loop.simps question_def question_id)
  then obtain s' where s': "resume default_mailbox_ops greeter 5 [] (sample_start\<lparr>scheduled := False\<rparr>) = Some (Done, 0, s')"
    "is_terminated s'" "accepted s' = [0]" "handled s' = [(0, [(4, response_id (mk_message_id 7), Value 3)])]" by blast
  from actor_reachable.step[OF sample_reachable actor_step.run[OF sample_scheduled(1) s'(1)]] s'(2-) show ?thesis by fastforce
qed

text \<open>The same actor receives the question a second time after it has terminated.\<close>

lemma greeter_late_run:
  "\<exists>s. actor_reachable default_mailbox_ops greeter (new_actor (\<lambda>_. question) 3) s \<and> is_terminated s \<and> accepted s = [0] \<and>
     handled s = [(0, [(4, response_id (mk_message_id 7), Value 3)])] \<and> rejected s = [1] \<and> elems (mbox s) 1 = question"
proof -
  have "\<exists>s'. resume default_mailbox_ops greeter 5 [] (sample_start\<lparr>scheduled := False\<rparr>) = Some (Done, 0, s') \<and>
     (let s = enqueue default_mailbox_ops question (s'\<lparr>scheduled := False\<rparr>) in is_terminated s \<and> accepted s = [0] \<and>
        handled s = [(0, [(4, response_id (mk_message_id 7), Value 3)])] \<and> rejected s = [1] \<and> elems (mbox s) 1 = question)"
    by (simp add: sample_start_def greeter_def actor_eval mailbox_eval resume_loop.simps question_def question_id)
  then obtain s' where s': "resume default_mailbox_ops greeter 5 [] (sample_start\<lparr>scheduled := False\<rparr>) = Some (Done, 0, s')"
    "let s = enqueue default_mailbox_ops question (s'\<lparr>scheduled := False\<rparr>) in is_terminated s \<and> accepted s = [0] \<and>
        handled s = [(0, [(4, response_id (mk_message_id 7), Value 3)])] \<and> rejected s = [1] \<and> elems (mbox s) 1 = question" by blast
  from actor_reachable.step[OF sample_reachable actor_step.run[OF sample_scheduled(1) s'(1)]]
  have "actor_reachable default_mailbox_ops greeter (new_actor (\<lambda>_. question) 3) (s'\<lparr>scheduled := False\<rparr>)" by simp
  from actor_reachable.step[OF this actor_step.send[where e = question]] s'(2) show ?thesis unfolding Let_def by blast
qed

lemma careless_run:
  "\<exists>s. actor_reachable default_mailbox_ops careless (new_actor (\<lambda>_. question) 3) s \<and> \<not> scheduled s \<and> \<not> is_terminated s \<and>
     \<not> mb_blocked (mbox s)"
proof -
  have "\<exists>s'. resume default_mailbox_ops careless 5 [] (sample_start\<lparr>scheduled := False\<rparr>) = Some (Done, 0, s') \<and> \<not> is_terminated s'
     \<and> \<not> mb_blocked (mbox s')"
    by (simp add: sample_start_def careless_def actor_eval mailbox_eval resume_loop.simps question_def question_id)
  then obtain s' where s': "resume default_mailbox_ops careless 5 [] (sample_start\<lparr>scheduled := False\<rparr>) = Some (Done, 0, s')"
    "\<not> is_terminated s'" "\<not> mb_blocked (mbox s')" by blast
  from actor_reachable.step[OF sample_reachable actor_step.run[OF sample_scheduled(1) s'(1)]] s'(2-) show ?thesis by fastforce
qed

section \<open>Properties\<close>

text \<open>
  C6: a run of an actor ends. Whatever the handlers and actions do, and for every finite list of message batches that
  arrive during the run, a call of \<^verbatim>\<open>resume\<close> on a scheduled actor returns after at most \<^verbatim>\<open>max_throughput\<close> consumed
  messages; an actor that waits for messages has blocked its mailbox, and an actor that is done has terminated or is
  shutting down. (Skipped and dropped messages do not count as consumed, so an endless stream of them is outside the
  statement.)
\<close>

theorem resume_terminates:
  assumes "actor_reachable default_mailbox_ops prog (new_actor E u) s" "scheduled s"
  shows "\<exists>r n s'. resume default_mailbox_ops prog mx arr (s\<lparr>scheduled := False\<rparr>) = Some (r, n, s') \<and> n \<le> mx \<and>
    (r = Awaiting_message \<longrightarrow> mb_blocked (mbox s')) \<and> (r = Done \<longrightarrow> is_terminated s' \<or> is_shutting_down s')"
proof -
  obtain c where "ready default_mailbox_ops mailbox_rep (s\<lparr>scheduled := False\<rparr>) c"
    using default_reachable_ok[OF assms(1)] assms(2) by (auto simp: actor_ok_def)
  from dma.resume_returns[OF this, of prog mx arr] obtain r n s' where
    r: "resume default_mailbox_ops prog mx arr (s\<lparr>scheduled := False\<rparr>) = Some (r, n, s')" "n \<le> mx"
      "loop_post default_mailbox_ops mailbox_rep r s'" by blast
  from r(3) have "(r = Awaiting_message \<longrightarrow> mb_blocked (mbox s')) \<and> (r = Done \<longrightarrow> is_terminated s' \<or> is_shutting_down s')"
    by (cases r) (auto simp: loop_post_def parked_def ended_def stopped_def)
  with r(1,2) show ?thesis by blast
qed

theorem resume_terminates_witness:
  "\<exists>r n s'. resume default_mailbox_ops greeter 5 [] (sample_start\<lparr>scheduled := False\<rparr>) = Some (r, n, s') \<and> n \<le> 5"
  using resume_terminates[OF sample_reachable sample_scheduled(1), of greeter 5 "[]"] by blast

text \<open>
  C7: the messages of an actor. In every reachable state, each message that the mailbox accepted is in exactly one place:
  pending in the mailbox, stashed, handled, or dropped by the closing of the mailbox. Nothing is dropped before the actor
  terminates, and a terminated actor holds no message.
\<close>

theorem actor_accounts_messages:
  assumes "actor_reachable default_mailbox_ops prog (new_actor E u) s"
  shows "\<exists>c bounced. mailbox_rep (mbox s) c \<and> distinct (accepted s) \<and>
    mset (accepted s) = mset (all_elems c) + mset (stash s) + mset (map fst (handled s)) + mset bounced \<and>
    (if is_terminated s then all_elems c = [] \<and> stash s = [] else bounced = [])"
  using assms
proof (rule default_account)
  fix c bounced
  assume "messages_ok default_mailbox_ops mailbox_rep [] s c bounced"
    "if is_terminated s then all_elems c = [] \<and> stash s = [] else bounced = []"
  then show ?thesis by (intro exI[of _ c] exI[of _ bounced]) (simp add: messages_ok_def)
qed

theorem actor_accounts_messages_witness:
  "\<exists>c. mset (accepted sample_start) = mset (all_elems c) + mset (stash sample_start) + mset (map fst (handled sample_start))"
proof -
  have "\<not> is_terminated sample_start" by (simp add: sample_start_def actor_eval mailbox_eval)
  with actor_accounts_messages[OF sample_reachable[of greeter]] show ?thesis by auto
qed

text \<open>
  C8: requests to an actor that has terminated. All accepted messages were handled or bounced. The actor has sent the
  responses of its handlers and, for each bounced or rejected message that is a request of a known sender, exactly one
  error \<^verbatim>\<open>request_receiver_down\<close> to the sender under the response ID of the request, and nothing else. A handled message
  has at most one response, to its sender and under the response ID of the message, and exactly one if it is an
  unanswered request of a known sender with ordinary content, unless the handler took the response promise.
\<close>

theorem terminated_actor_answers_requests:
  assumes "actor_reachable default_mailbox_ops prog (new_actor E u) s" "is_terminated s"
  shows "\<exists>bounced. mset (accepted s) = mset (map fst (handled s)) + mset bounced \<and>
    mset (responses s) = mset (concat (map snd (handled s))) +
      mset (concat (map (\<lambda>x. let e = elems (mbox s) x in
          case sender e of
            None \<Rightarrow> []
          | Some a \<Rightarrow> if is_request (mid e) then [(a, response_id (mid e), Err (sec_error request_receiver_down))] else [])
        (bounced @ rejected s))) \<and>
    (\<forall>(x, rs) \<in> set (handled s). let e = elems (mbox s) x in
       (rs = [] \<or> (\<exists>a r. sender e = Some a \<and> rs = [(a, response_id (mid e), r)])) \<and>
       (is_request (mid e) \<and> \<not> is_answered (mid e) \<and> sender e \<noteq> None \<and> (\<exists>p. payload e = Ordinary p) \<and>
        x \<notin> set (promised s) \<longrightarrow> rs \<noteq> []))"
  using assms(1)
proof (rule default_account)
  fix c bounced
  assume a: "messages_ok default_mailbox_ops mailbox_rep [] s c bounced" "responses_ok default_mailbox_ops s bounced"
    "if is_terminated s then all_elems c = [] \<and> stash s = [] else bounced = []"
  have "mset (accepted s) = mset (map fst (handled s)) + mset bounced" using a(1,3) assms(2) by (simp add: messages_ok_def)
  moreover have b: "bounce_responses = (\<lambda>e. case sender e of None \<Rightarrow> []
      | Some a \<Rightarrow> if is_request (mid e) then [(a, response_id (mid e), Err (sec_error request_receiver_down))] else [])"
    by (auto simp: bounce_responses_def bounce_def fun_eq_iff split: option.split)
  ultimately show ?thesis
    using a(2) unfolding b responses_ok_def bounces_def needs_answer_def answers_def Let_def default_ops
    by (intro exI[of _ bounced]) auto
qed

theorem terminated_actor_answers_requests_witness:
  "\<exists>s. actor_reachable default_mailbox_ops greeter (new_actor (\<lambda>_. question) 3) s \<and> rejected s = [1] \<and>
    mset (responses s) = {#(4, response_id (mk_message_id 7), Value 3),
      (4, response_id (mk_message_id 7), Err (sec_error request_receiver_down))#}"
proof -
  obtain s where s: "actor_reachable default_mailbox_ops greeter (new_actor (\<lambda>_. question) 3) s" "is_terminated s"
    "accepted s = [0]" "handled s = [(0, [(4, response_id (mk_message_id 7), Value 3)])]" "rejected s = [1]"
    "elems (mbox s) 1 = question" using greeter_late_run by blast
  from terminated_actor_answers_requests[OF s(1,2)] s(3-) have
    "mset (responses s) = {#(4, response_id (mk_message_id 7), Value 3),
      (4, response_id (mk_message_id 7), Err (sec_error request_receiver_down))#}"
    by (auto simp: question_def question_id)
  with s(1,5) show ?thesis by blast
qed

text \<open>
  C9: no lost wake-up. An actor that is neither terminated nor shutting down and that the scheduler does not know has
  blocked its mailbox, the mailbox is empty, and the next message schedules the actor.
\<close>

theorem idle_actor_wakes_up:
  assumes "actor_reachable default_mailbox_ops prog (new_actor E u) s" "\<not> scheduled s" "\<not> is_terminated s" "\<not> is_shutting_down s"
  shows "mb_blocked (mbox s) \<and> (\<exists>c. mailbox_rep (mbox s) c \<and> all_elems c = []) \<and> scheduled (enqueue default_mailbox_ops e s)"
proof -
  obtain c where p: "parked default_mailbox_ops mailbox_rep s c []"
    using default_reachable_ok[OF assms(1)] assms(2-4) by (auto simp: actor_ok_def ended_def stopped_def)
  from dma.enqueue_parked(2)[OF this] p show ?thesis by (auto simp: parked_def messages_ok_def)
qed

theorem idle_actor_wakes_up_witness:
  "scheduled (enqueue default_mailbox_ops question (launch default_mailbox_ops True (new_actor (\<lambda>_. question) (3 :: nat))))"
  using idle_actor_wakes_up[OF actor_reachable.start[of default_mailbox_ops greeter "new_actor (\<lambda>_. question) 3" True], of question]
  by (simp add: launch_def mk_scheduled_actor_def default_mailbox_ops_def mailbox_eval inbox_try_block_def)

text \<open>
  C10: an actor that the scheduler dropped during its shutdown. When an exception ends the actor, \<^verbatim>\<open>reactivate\<close> ignores that
  \<^verbatim>\<open>finalize\<close> failed because an action has sent a request meanwhile: the mailbox stays open and unblocked. From then on
  the actor is never scheduled again, it still accepts messages, and it neither handles nor answers any of them.
\<close>

theorem dropped_actor_never_runs:
  assumes "actor_reachable default_mailbox_ops prog (new_actor E u) s" "\<not> scheduled s" "\<not> is_terminated s" "\<not> mb_blocked (mbox s)"
    and "(actor_step default_mailbox_ops prog)\<^sup>*\<^sup>* s s'"
  shows "\<not> scheduled s' \<and> \<not> is_terminated s' \<and> \<not> mb_closed (mbox s') \<and> handled s' = handled s \<and> responses s' = responses s"
proof -
  have "(\<exists>c. live default_mailbox_ops mailbox_rep [] s c [])"
    using default_reachable_ok[OF assms(1)] assms(2-4) by (auto simp: actor_ok_def ended_def stopped_def parked_def)
  then have l: "(\<exists>c. live default_mailbox_ops mailbox_rep [] s c []) \<and> \<not> scheduled s \<and> handled s = handled s \<and> responses s = responses s"
    using assms(2) by blast
  from assms(5) have "(\<exists>c. live default_mailbox_ops mailbox_rep [] s' c []) \<and> \<not> scheduled s' \<and> handled s' = handled s \<and> responses s' = responses s"
  proof induction
    case base
    show ?case by (rule l)
  next
    case (step s1 s2)
    from step(2) show ?case
    proof cases
      case (send e)
      from step(3) obtain c where c: "live default_mailbox_ops mailbox_rep [] s1 c []" by blast
      then have "messages_ok default_mailbox_ops mailbox_rep [] s1 c []" "\<not> op_closed default_mailbox_ops (mbox s1)"
        "\<not> op_blocked default_mailbox_ops (mbox s1)" by (simp_all add: live_def)
      from dma.enqueue_open_silent[OF this] dma.enqueue_live[OF c, of e] step(3) show ?thesis unfolding send by simp
    next
      case run
      with step(3) show ?thesis by simp
    qed
  qed
  then show ?thesis by (auto simp: live_def)
qed

theorem dropped_actor_never_runs_witness:
  "\<exists>s. actor_reachable default_mailbox_ops careless (new_actor (\<lambda>_. question) 3) s \<and> \<not> scheduled s \<and> \<not> is_terminated s \<and>
    \<not> mb_closed (mbox s)"
proof -
  obtain s where s: "actor_reachable default_mailbox_ops careless (new_actor (\<lambda>_. question) 3) s" "\<not> scheduled s" "\<not> is_terminated s"
    "\<not> mb_blocked (mbox s)" using careless_run by blast
  from dropped_actor_never_runs[OF s rtranclp.rtrancl_refl] s(1) show ?thesis by blast
qed

end
