(* ===== verification/Byte_Order.thy ===== *)
theory Byte_Order
  imports CAF_Prelude
begin

text \<open>
  Network byte order (\<^verbatim>\<open>libcaf_core/caf/detail/network_order.hpp\<close>). Integers are words of a whole number
  of bytes; \<open>as_bytes\<close> is their memory image on the little-endian hosts CAF supports, and
  \<open>to_network_order\<close> the byte swap. The lemmas show that swapping and storing gives the big-endian bytes
  of the value and that reading them back gives the value.
\<close>

section \<open>Model\<close>

definition as_bytes :: "'a::len word \<Rightarrow> bytes" where
  "as_bytes w = map (\<lambda>i. ucast (drop_bit (8 * i) w)) [0 ..< LENGTH('a) div 8]"

definition from_bytes :: "bytes \<Rightarrow> 'a::len word" where
  "from_bytes bs = foldr (\<lambda>b w. push_bit 8 w OR ucast b) bs 0"

definition to_network_order :: "'a::len word \<Rightarrow> 'a word" where
  "to_network_order w = from_bytes (rev (as_bytes w))"

definition from_network_order :: "'a::len word \<Rightarrow> 'a word" where
  "from_network_order w = to_network_order w"

text \<open>The big-endian bytes of a value, as a specification of what goes over the wire.\<close>

definition be_bytes :: "'a::len word \<Rightarrow> bytes" where
  "be_bytes w = rev (as_bytes w)"

section \<open>Memory images\<close>

lemma length_as_bytes [simp]: "length (as_bytes (w :: 'a::len word)) = LENGTH('a) div 8"
  by (simp add: as_bytes_def)

lemma length_be_bytes [simp]: "length (be_bytes (w :: 'a::len word)) = LENGTH('a) div 8"
  by (simp add: be_bytes_def)

lemma bit_from_bytes:
  "bit (from_bytes bs :: 'a::len word) n \<longleftrightarrow>
     n < LENGTH('a) \<and> n div 8 < length bs \<and> bit (bs ! (n div 8)) (n mod 8)"
proof (induction bs arbitrary: n)
  case Nil
  then show ?case by (simp add: from_bytes_def)
next
  case (Cons b bs)
  have step: "from_bytes (b # bs) = (push_bit 8 (from_bytes bs) OR ucast b :: 'a word)"
    by (simp add: from_bytes_def)
  show ?case
  proof (cases "n < 8")
    case True
    then show ?thesis
      by (auto simp: step bit_or_iff bit_push_bit_iff bit_ucast_iff)
  next
    case False
    then have n: "n div 8 = Suc ((n - 8) div 8)" "(n - 8) mod 8 = n mod 8"
      by (simp_all add: le_div_geq le_mod_geq)
    from False have "\<not> bit b n" by (auto dest: bit_imp_le_length)
    with False show ?thesis
      by (auto simp: step bit_or_iff bit_push_bit_iff bit_ucast_iff Cons.IH n)
  qed
qed

lemma as_bytes_nth:
  "i < LENGTH('a) div 8 \<Longrightarrow> as_bytes (w :: 'a::len word) ! i = ucast (drop_bit (8 * i) w)"
  by (simp add: as_bytes_def)

lemma from_as_bytes [simp]:
  assumes "8 dvd LENGTH('a)"
  shows "from_bytes (as_bytes w) = (w :: 'a::len word)"
proof (rule bit_word_eqI)
  fix n assume "n < LENGTH('a)"
  moreover from this assms have "n div 8 < LENGTH('a) div 8"
    by (metis div_less_iff_less_mult dvd_div_mult_self zero_less_numeral)
  moreover have "8 * (n div 8) + n mod 8 = n" by simp
  ultimately show "bit (from_bytes (as_bytes w) :: 'a word) n = bit w n"
    by (simp add: bit_from_bytes as_bytes_nth bit_ucast_iff bit_drop_bit_eq)
qed

lemma as_from_bytes [simp]:
  assumes "length bs = LENGTH('a) div 8"
  shows "as_bytes (from_bytes bs :: 'a::len word) = bs"
proof (rule nth_equalityI)
  fix i assume "i < length (as_bytes (from_bytes bs :: 'a word))"
  then have i: "i < LENGTH('a) div 8" by simp
  show "as_bytes (from_bytes bs :: 'a word) ! i = bs ! i"
  proof (rule bit_word_eqI)
    fix n assume n: "n < LENGTH(8)"
    with i have "8 * i + n < LENGTH('a)" by simp
    with i n assms show "bit (as_bytes (from_bytes bs :: 'a word) ! i) n = bit (bs ! i) n"
      by (simp add: as_bytes_nth bit_ucast_iff bit_drop_bit_eq bit_from_bytes)
  qed
qed (use assms in simp)

section \<open>Network order\<close>

lemma as_bytes_to_network_order: "as_bytes (to_network_order w) = be_bytes w"
  by (simp add: to_network_order_def be_bytes_def)

lemma from_to_network_order:
  assumes "8 dvd LENGTH('a)"
  shows "from_network_order (to_network_order w) = (w :: 'a::len word)"
  using assms by (simp add: from_network_order_def to_network_order_def)

lemma from_network_order_be_bytes:
  assumes "8 dvd LENGTH('a)"
  shows "from_network_order (from_bytes (be_bytes w)) = (w :: 'a::len word)"
  using from_to_network_order [OF assms] by (simp add: to_network_order_def be_bytes_def)

end
