(* ===== verification/Binary_Serializer.thy ===== *)
theory Binary_Serializer
  imports Byte_Order
begin

text \<open>
  The binary serializer (\<^verbatim>\<open>libcaf_core/caf/binary_serializer.cpp\<close>, with the container rules of
  \<^verbatim>\<open>save_inspector_base.hpp\<close>). The state is the output buffer and the write position; an operation returns
  \<^term>\<open>None\<close> only where the code would access the buffer out of bounds. The relation \<open>emits\<close> says that an
  operation writes a given byte string at the write position, overwriting or extending the buffer, and
  changes nothing else; one rule per operation gives the byte string.
\<close>

section \<open>Model\<close>

record binary_serializer =
  buf :: bytes
  write_pos :: nat

type_synonym ser = "binary_serializer \<Rightarrow> binary_serializer option"

definition mk_serializer :: "bytes \<Rightarrow> binary_serializer" where
  "mk_serializer b = \<lparr>buf = b, write_pos = length b\<rparr>"

definition ser_seek :: "nat \<Rightarrow> ser" where
  "ser_seek offset s = Some (s\<lparr>write_pos := offset\<rparr>)"

definition ser_skip :: "nat \<Rightarrow> ser" where
  "ser_skip num_bytes s =
     (let remaining = (2 ^ 64 + length (buf s) - write_pos s) mod 2 ^ 64;
          s = (if remaining < num_bytes
               then s\<lparr>buf := buf s @ replicate (num_bytes - remaining) 0\<rparr> else s)
      in Some (s\<lparr>write_pos := write_pos s + num_bytes\<rparr>))"

text \<open>Sequential composition of two calls on the same serializer.\<close>

definition ser_seq :: "ser \<Rightarrow> ser \<Rightarrow> ser" where
  "ser_seq f g s = (case f s of None \<Rightarrow> None | Some s' \<Rightarrow> g s')"

definition ser_value_span :: "bytes \<Rightarrow> ser" where
  "ser_value_span x s =
     (let buf_size = length (buf s) in
      if buf_size < write_pos s then None
      else
        let b = (if write_pos s = buf_size then buf s @ x
                 else if write_pos s + length x \<le> buf_size
                 then take (write_pos s) (buf s) @ x @ drop (write_pos s + length x) (buf s)
                 else let remaining = buf_size - write_pos s
                      in (take (write_pos s) (buf s) @ take remaining x) @ drop remaining x)
        in Some \<lparr>buf = b, write_pos = write_pos s + length x\<rparr>)"

definition ser_value_byte :: "u8 \<Rightarrow> ser" where
  "ser_value_byte x s =
     (if write_pos s = length (buf s)
      then Some \<lparr>buf = buf s @ [x], write_pos = Suc (write_pos s)\<rparr>
      else if write_pos s < length (buf s)
      then Some \<lparr>buf = (buf s)[write_pos s := x], write_pos = Suc (write_pos s)\<rparr>
      else None)"

definition ser_int_value :: "'a::len word \<Rightarrow> ser" where
  "ser_int_value x = ser_value_span (as_bytes (to_network_order x))"

definition ser_value_u8 :: "u8 \<Rightarrow> ser" where "ser_value_u8 x = ser_value_byte x"
definition ser_value_u16 :: "u16 \<Rightarrow> ser" where "ser_value_u16 x = ser_int_value x"
definition ser_value_u32 :: "u32 \<Rightarrow> ser" where "ser_value_u32 x = ser_int_value x"
definition ser_value_u64 :: "u64 \<Rightarrow> ser" where "ser_value_u64 x = ser_int_value x"

text \<open>
  A signed integer is an \<^typ>\<open>int\<close>; the cast to the unsigned type of the same width takes it modulo the
  power of two.
\<close>

definition ser_value_i8 :: "int \<Rightarrow> ser" where "ser_value_i8 x = ser_value_byte (word_of_int x)"
definition ser_value_i16 :: "int \<Rightarrow> ser" where "ser_value_i16 x = ser_int_value (word_of_int x :: u16)"
definition ser_value_i32 :: "int \<Rightarrow> ser" where "ser_value_i32 x = ser_int_value (word_of_int x :: u32)"
definition ser_value_i64 :: "int \<Rightarrow> ser" where "ser_value_i64 x = ser_int_value (word_of_int x :: u64)"

definition ser_value_bool :: "bool \<Rightarrow> ser" where "ser_value_bool x = ser_value_u8 (of_bool x)"

definition ser_begin_field_opt :: "bool \<Rightarrow> ser" where
  "ser_begin_field_opt is_present = ser_value_u8 (of_bool is_present)"

text \<open>The size of the type list selects the width of the index (\<open>num_types\<close> is \<^verbatim>\<open>types.size()\<close>).\<close>

definition ser_begin_field_variant :: "nat \<Rightarrow> nat \<Rightarrow> ser" where
  "ser_begin_field_variant num_types index =
     (if num_types < 0x7F then ser_value_u8 (of_nat index)
      else if num_types < 0x7FFF then ser_value_u16 (of_nat index)
      else if num_types < 0x7FFFFFFF then ser_value_u32 (of_nat index)
      else ser_value_u64 (of_nat index))"

definition compress_index :: "bool \<Rightarrow> nat \<Rightarrow> 'a::len word" where
  "compress_index is_present v = (if is_present then of_nat v else - 1)"

definition ser_begin_field_opt_variant :: "bool \<Rightarrow> nat \<Rightarrow> nat \<Rightarrow> ser" where
  "ser_begin_field_opt_variant is_present num_types index =
     (if num_types < 0x7F then ser_value_u8 (compress_index is_present index)
      else if num_types < 0x7FFF then ser_value_u16 (compress_index is_present index)
      else if num_types < 0x7FFFFFFF then ser_value_u32 (compress_index is_present index)
      else ser_value_u64 (compress_index is_present index))"

function varbyte_loop :: "u32 \<Rightarrow> bytes" where
  "varbyte_loop x =
     (if 0x7f < x then ((ucast x AND 0x7f) OR 0x80) # varbyte_loop (drop_bit 7 x)
      else [ucast x AND 0x7f])"
  by pat_completeness auto
termination
proof (relation "measure unat", simp)
  fix x :: u32 assume "0x7f < x"
  then have "0 < unat x" by (metis unat_gt_0 word_less_nat_alt word_gt_0_no word_not_simps(1))
  then show "(drop_bit 7 x, x) \<in> measure unat"
    by (simp add: drop_bit_eq_div unat_div)
qed

declare varbyte_loop.simps [simp del]

definition ser_begin_sequence :: "nat \<Rightarrow> ser" where
  "ser_begin_sequence list_size = ser_value_span (varbyte_loop (of_nat list_size))"

definition ser_value_string :: "bytes \<Rightarrow> ser" where
  "ser_value_string x = ser_seq (ser_begin_sequence (length x)) (ser_value_span x)"

primrec ser_ints :: "'a::len word list \<Rightarrow> ser" where
  "ser_ints [] = Some"
| "ser_ints (c # cs) = ser_seq (ser_int_value c) (ser_ints cs)"

definition ser_value_u16string :: "u16 list \<Rightarrow> ser" where
  "ser_value_u16string x = ser_seq (ser_begin_sequence (length x)) (ser_ints x)"

definition ser_value_u32string :: "u32 list \<Rightarrow> ser" where
  "ser_value_u32string x = ser_seq (ser_begin_sequence (length x)) (ser_ints x)"

text \<open>
  One block of at most eight flags: the first flag goes to the highest of the used bits, the last one to
  bit 0, so a full block starts at bit 7 and a trailing block of \<open>k\<close> flags at bit \<open>k - 1\<close>.
\<close>

primrec pack_block :: "bool list \<Rightarrow> u8 \<Rightarrow> u8" where
  "pack_block [] tmp = tmp"
| "pack_block (b # bs) tmp = pack_block bs (if b then tmp OR push_bit (length bs) 1 else tmp)"

primrec ser_bool_blocks :: "nat \<Rightarrow> bool list \<Rightarrow> ser" where
  "ser_bool_blocks 0 x = Some"
| "ser_bool_blocks (Suc blocks) x =
     ser_seq (ser_value_u8 (pack_block (take 8 x) 0)) (ser_bool_blocks blocks (drop 8 x))"

definition ser_value_vector_bool :: "bool list \<Rightarrow> ser" where
  "ser_value_vector_bool x =
     (let len = length x in
      ser_seq (ser_begin_sequence len)
        (if len = 0 then Some
         else
           let blocks = len div 8;
               trailing_block_size = len mod 8
           in ser_seq (ser_bool_blocks blocks x)
                (if 0 < trailing_block_size
                 then ser_value_u8 (pack_block (drop (8 * blocks) x) 0) else Some)))"

text \<open>Containers of \<^verbatim>\<open>save_inspector_base\<close>, over the serialization of their elements.\<close>

primrec save_elements :: "('a \<Rightarrow> ser) \<Rightarrow> 'a list \<Rightarrow> ser" where
  "save_elements save [] = Some"
| "save_elements save (x # xs) = ser_seq (save x) (save_elements save xs)"

definition save_list :: "('a \<Rightarrow> ser) \<Rightarrow> 'a list \<Rightarrow> ser" where
  "save_list save xs = ser_seq (ser_begin_sequence (length xs)) (save_elements save xs)"

definition save_tuple2 :: "('a \<Rightarrow> ser) \<Rightarrow> ('b \<Rightarrow> ser) \<Rightarrow> 'a \<times> 'b \<Rightarrow> ser" where
  "save_tuple2 save1 save2 x = ser_seq (save1 (fst x)) (save2 (snd x))"

primrec save_kvps :: "('k \<Rightarrow> ser) \<Rightarrow> ('v \<Rightarrow> ser) \<Rightarrow> ('k \<times> 'v) list \<Rightarrow> ser" where
  "save_kvps save1 save2 [] = Some"
| "save_kvps save1 save2 (kvp # xs) =
     ser_seq (save1 (fst kvp)) (ser_seq (save2 (snd kvp)) (save_kvps save1 save2 xs))"

text \<open>A map is the list of its pairs in iteration order.\<close>

definition save_map :: "('k \<Rightarrow> ser) \<Rightarrow> ('v \<Rightarrow> ser) \<Rightarrow> ('k \<times> 'v) list \<Rightarrow> ser" where
  "save_map save1 save2 xs =
     ser_seq (ser_begin_sequence (length xs)) (save_kvps save1 save2 xs)"

section \<open>What an operation writes\<close>

definition write_at :: "bytes \<Rightarrow> binary_serializer \<Rightarrow> binary_serializer" where
  "write_at bs s =
     \<lparr>buf = take (write_pos s) (buf s) @ bs @ drop (write_pos s + length bs) (buf s),
      write_pos = write_pos s + length bs\<rparr>"

definition emits :: "ser \<Rightarrow> bytes \<Rightarrow> bool" where
  "emits f bs \<longleftrightarrow> (\<forall>s. write_pos s \<le> length (buf s) \<longrightarrow> f s = Some (write_at bs s))"

lemma ser_seq_Some [simp]: "ser_seq f Some = f"
  by (auto simp: ser_seq_def fun_eq_iff split: option.splits)

named_theorems emits_rules \<open>the bytes each serializer operation writes\<close>

lemma emits_Nil [emits_rules]: "emits Some []"
  by (simp add: emits_def write_at_def)

lemma emits_seq [emits_rules]:
  assumes "emits f a" "emits g b"
  shows "emits (ser_seq f g) (a @ b)"
  unfolding emits_def
proof (intro allI impI)
  fix s :: binary_serializer assume s: "write_pos s \<le> length (buf s)"
  then have "write_pos (write_at a s) \<le> length (buf (write_at a s))"
    by (simp add: write_at_def)
  with assms s show "ser_seq f g s = Some (write_at (a @ b) s)"
    by (simp add: ser_seq_def emits_def) (simp add: write_at_def min_def ac_simps)
qed

lemma emits_span [emits_rules]: "emits (ser_value_span x) x"
  by (auto simp: emits_def ser_value_span_def write_at_def Let_def)

lemma emits_byte [emits_rules]: "emits (ser_value_byte x) [x]"
  by (auto simp: emits_def ser_value_byte_def write_at_def upd_conv_take_nth_drop)

lemma emits_int [emits_rules]: "emits (ser_int_value x) (be_bytes x)"
  unfolding ser_int_value_def as_bytes_to_network_order by (rule emits_span)

lemma emits_u8 [emits_rules]: "emits (ser_value_u8 x) [x]"
  and emits_u16 [emits_rules]: "emits (ser_value_u16 y) (be_bytes y)"
  and emits_u32 [emits_rules]: "emits (ser_value_u32 z) (be_bytes z)"
  and emits_u64 [emits_rules]: "emits (ser_value_u64 v) (be_bytes v)"
  and emits_bool [emits_rules]: "emits (ser_value_bool b) [of_bool b]"
  by (simp_all add: ser_value_u8_def ser_value_u16_def ser_value_u32_def ser_value_u64_def
      ser_value_bool_def emits_rules)

lemma emits_i8 [emits_rules]: "emits (ser_value_i8 i) [word_of_int i]"
  and emits_i16 [emits_rules]: "emits (ser_value_i16 i) (be_bytes (word_of_int i :: u16))"
  and emits_i32 [emits_rules]: "emits (ser_value_i32 i) (be_bytes (word_of_int i :: u32))"
  and emits_i64 [emits_rules]: "emits (ser_value_i64 i) (be_bytes (word_of_int i :: u64))"
  by (simp_all add: ser_value_i8_def ser_value_i16_def ser_value_i32_def ser_value_i64_def emits_rules)

lemma emits_begin_sequence [emits_rules]:
  "emits (ser_begin_sequence n) (varbyte_loop (of_nat n))"
  by (simp add: ser_begin_sequence_def emits_rules)

lemma emits_string [emits_rules]:
  "emits (ser_value_string x) (varbyte_loop (of_nat (length x)) @ x)"
  by (simp add: ser_value_string_def emits_rules)

lemma emits_ints [emits_rules]: "emits (ser_ints xs) (concat (map be_bytes xs))"
  by (induction xs) (simp_all add: emits_rules)

lemma emits_u16string [emits_rules]:
  "emits (ser_value_u16string x) (varbyte_loop (of_nat (length x)) @ concat (map be_bytes x))"
  by (simp add: ser_value_u16string_def emits_rules)

lemma emits_u32string [emits_rules]:
  "emits (ser_value_u32string x) (varbyte_loop (of_nat (length x)) @ concat (map be_bytes x))"
  by (simp add: ser_value_u32string_def emits_rules)

primrec block_bytes :: "nat \<Rightarrow> bool list \<Rightarrow> bytes" where
  "block_bytes 0 x = []"
| "block_bytes (Suc n) x = pack_block (take 8 x) 0 # block_bytes n (drop 8 x)"

definition bool_bytes :: "bool list \<Rightarrow> bytes" where
  "bool_bytes x = block_bytes (length x div 8) x @
     (if 0 < length x mod 8 then [pack_block (drop (8 * (length x div 8)) x) 0] else [])"

lemma emits_blocks [emits_rules]: "emits (ser_bool_blocks n x) (block_bytes n x)"
proof (induction n arbitrary: x)
  case (Suc n)
  then show ?case using emits_seq [OF emits_u8 Suc.IH] by simp
qed (simp add: emits_rules)

lemma emits_vector_bool [emits_rules]:
  "emits (ser_value_vector_bool x) (varbyte_loop (of_nat (length x)) @ bool_bytes x)"
  by (auto simp: ser_value_vector_bool_def bool_bytes_def Let_def
      intro!: emits_seq emits_begin_sequence emits_begin_sequence [of 0, simplified]
        emits_blocks emits_u8)

lemma emits_elements:
  assumes "\<And>x. x \<in> set xs \<Longrightarrow> emits (save x) (enc x)"
  shows "emits (save_elements save xs) (concat (map enc xs))"
  using assms by (induction xs) (simp_all add: emits_rules)

lemma emits_list:
  assumes "\<And>x. x \<in> set xs \<Longrightarrow> emits (save x) (enc x)"
  shows "emits (save_list save xs) (varbyte_loop (of_nat (length xs)) @ concat (map enc xs))"
  unfolding save_list_def by (intro emits_seq emits_begin_sequence emits_elements assms)

text \<open>A fresh serializer on an empty buffer holds exactly the bytes that were written.\<close>

lemma emits_run:
  assumes "emits f bs"
  shows "f (mk_serializer b) = Some (mk_serializer (b @ bs))"
  using assms by (simp add: emits_def mk_serializer_def write_at_def)

section \<open>Size of a sequence header\<close>

text \<open>The header of a sequence never exceeds five bytes, so the 16 bytes of scratch space suffice.\<close>

lemma length_varbyte_bound:
  "unat x < 2 ^ (7 * k) \<Longrightarrow> 0 < k \<Longrightarrow> length (varbyte_loop x) \<le> k"
proof (induction x arbitrary: k rule: varbyte_loop.induct)
  case (1 x)
  show ?case
  proof (cases "0x7f < x")
    case True
    then have "2 ^ 7 \<le> unat x" by (simp add: word_less_nat_alt)
    with 1(2) have "(2::nat) ^ 7 < 2 ^ (7 * k)" by linarith
    then have "7 < 7 * k" by (rule power_less_imp_less_exp [rotated]) simp
    then have k: "1 < k" by simp
    then obtain k' where k': "k = Suc k'" "0 < k'" by (cases k) auto
    from 1(2) k' have "unat (drop_bit 7 x) < 2 ^ (7 * k')"
      by (simp add: drop_bit_eq_div unat_div less_mult_imp_div_less power_add)
    from 1(1) [OF True this k'(2)] k' True show ?thesis
      by (subst varbyte_loop.simps) simp
  next
    case False
    with 1(3) show ?thesis by (subst varbyte_loop.simps) simp
  qed
qed

lemma length_varbyte: "length (varbyte_loop x) \<le> 5"
  using length_varbyte_bound [of x 5] unat_less_exp [of x] by simp

end
