(* ===== verification/Binary_Deserializer.thy ===== *)
theory Binary_Deserializer
  imports Binary_Serializer Error_Codes
begin

text \<open>
  The binary deserializer (\<^verbatim>\<open>libcaf_core/caf/binary_deserializer.cpp\<close>, with the container rules of
  \<^verbatim>\<open>load_inspector_base.hpp\<close>) and the round trips with the serializer. The state is the unread part of
  the input and the last error; an operation loads a value, fails with an error, or reaches undefined
  behaviour of the language (shifting a 32-bit integer by 32 or more bits). The locale \<open>codec\<close> is the
  contract between a save and a load operation that containers rely on.
\<close>

section \<open>Model\<close>

record binary_deserializer =
  unread :: bytes
  des_err :: error

definition mk_deserializer :: "bytes \<Rightarrow> binary_deserializer" where
  "mk_deserializer input = \<lparr>unread = input, des_err = no_error\<rparr>"

datatype 'a load_result =
    Loaded 'a binary_deserializer
  | Failed binary_deserializer
  | Undefined

type_synonym 'a des = "binary_deserializer \<Rightarrow> 'a load_result"

definition des_return :: "'a \<Rightarrow> 'a des" where
  "des_return x d = Loaded x d"

definition des_bind :: "'a des \<Rightarrow> ('a \<Rightarrow> 'b des) \<Rightarrow> 'b des" where
  "des_bind m f d = (case m d of Loaded x d' \<Rightarrow> f x d' | Failed d' \<Rightarrow> Failed d' | Undefined \<Rightarrow> Undefined)"

definition emplace_error :: "sec \<Rightarrow> 'a des" where
  "emplace_error e d = Failed (d\<lparr>des_err := sec_error e\<rparr>)"

definition remaining :: "binary_deserializer \<Rightarrow> nat" where
  "remaining d = length (unread d)"

text \<open>Skipping past the end raises an exception; \<^term>\<open>None\<close> is that outcome.\<close>

definition des_skip :: "nat \<Rightarrow> binary_deserializer \<Rightarrow> binary_deserializer option" where
  "des_skip num_bytes d =
     (if remaining d < num_bytes then None else Some (d\<lparr>unread := drop num_bytes (unread d)\<rparr>))"

definition des_reset :: "bytes \<Rightarrow> binary_deserializer \<Rightarrow> binary_deserializer" where
  "des_reset input d = d\<lparr>unread := input\<rparr>"

definition range_check :: "nat \<Rightarrow> binary_deserializer \<Rightarrow> bool" where
  "range_check read_size d \<longleftrightarrow> read_size \<le> length (unread d)"

definition des_value_byte :: "u8 des" where
  "des_value_byte d =
     (if range_check 1 d then Loaded (hd (unread d)) (d\<lparr>unread := tl (unread d)\<rparr>)
      else emplace_error end_of_stream d)"

definition des_value_i8 :: "int des" where
  "des_value_i8 d =
     (if range_check 1 d then Loaded (sint (hd (unread d))) (d\<lparr>unread := tl (unread d)\<rparr>)
      else emplace_error end_of_stream d)"

definition des_value_u8 :: "u8 des" where
  "des_value_u8 d =
     (if range_check 1 d then Loaded (hd (unread d)) (d\<lparr>unread := tl (unread d)\<rparr>)
      else emplace_error end_of_stream d)"

definition des_value_span :: "nat \<Rightarrow> bytes des" where
  "des_value_span n d =
     (if \<not> range_check n d then emplace_error end_of_stream d
      else Loaded (take n (unread d)) (d\<lparr>unread := drop n (unread d)\<rparr>))"

definition des_int_value :: "('a::len word) des" where
  "des_int_value =
     des_bind (des_value_span (LENGTH('a) div 8))
       (\<lambda>tmp. des_return (from_network_order (from_bytes tmp)))"

definition des_value_u16 :: "u16 des" where "des_value_u16 = des_int_value"
definition des_value_u32 :: "u32 des" where "des_value_u32 = des_int_value"
definition des_value_u64 :: "u64 des" where "des_value_u64 = des_int_value"

text \<open>The cast to the signed type of the same width reads the word as two's complement.\<close>

definition des_value_i16 :: "int des" where
  "des_value_i16 = des_bind (des_int_value :: u16 des) (\<lambda>tmp. des_return (sint tmp))"
definition des_value_i32 :: "int des" where
  "des_value_i32 = des_bind (des_int_value :: u32 des) (\<lambda>tmp. des_return (sint tmp))"
definition des_value_i64 :: "int des" where
  "des_value_i64 = des_bind (des_int_value :: u64 des) (\<lambda>tmp. des_return (sint tmp))"

definition des_value_bool :: "bool des" where
  "des_value_bool = des_bind des_value_i8 (\<lambda>tmp. des_return (tmp \<noteq> 0))"

definition des_begin_field_opt :: "bool des" where
  "des_begin_field_opt = des_bind des_value_u8 (\<lambda>tmp. des_return (tmp \<noteq> 0))"

text \<open>The generic lambda of the two variant overloads, over the integer that was read.\<close>

definition check_index :: "nat \<Rightarrow> 'a::len word \<Rightarrow> nat des" where
  "check_index num_types tmp =
     (if sint tmp < 0 \<or> num_types \<le> nat (sint tmp) then emplace_error invalid_field_type
      else des_return (nat (sint tmp)))"

definition des_begin_field_variant :: "nat \<Rightarrow> nat des" where
  "des_begin_field_variant num_types =
     (if num_types < 0x7F then des_bind des_value_u8 (check_index num_types)
      else if num_types < 0x7FFF then des_bind des_value_u16 (check_index num_types)
      else if num_types < 0x7FFFFFFF then des_bind des_value_u32 (check_index num_types)
      else des_bind des_value_u64 (check_index num_types))"

definition check_opt_index :: "nat \<Rightarrow> 'a::len word \<Rightarrow> nat option des" where
  "check_opt_index num_types tmp =
     (if sint tmp < 0 then des_return None
      else if num_types \<le> nat (sint tmp) then emplace_error invalid_field_type
      else des_return (Some (nat (sint tmp))))"

definition des_begin_field_opt_variant :: "nat \<Rightarrow> nat option des" where
  "des_begin_field_opt_variant num_types =
     (if num_types < 0x7F then des_bind des_value_u8 (check_opt_index num_types)
      else if num_types < 0x7FFF then des_bind des_value_u16 (check_opt_index num_types)
      else if num_types < 0x7FFFFFFF then des_bind des_value_u32 (check_opt_index num_types)
      else des_bind des_value_u64 (check_opt_index num_types))"

function sequence_loop :: "u32 \<Rightarrow> nat \<Rightarrow> nat des" where
  "sequence_loop x n d =
     (case des_value_u8 d of
        Loaded low7 d' \<Rightarrow>
          (if 32 \<le> 7 * n then Undefined
           else
             let x' = x OR push_bit (7 * n) (ucast (low7 AND 0x7F))
             in if low7 AND 0x80 \<noteq> 0 then sequence_loop x' (Suc n) d'
                else Loaded (unat x') d')
      | Failed d' \<Rightarrow> Failed d'
      | Undefined \<Rightarrow> Undefined)"
  by pat_completeness auto
termination
  by (relation "measure (\<lambda>(x, n, d). length (unread d))")
    (auto simp: des_value_u8_def range_check_def emplace_error_def Suc_le_eq split: if_splits)

declare sequence_loop.simps [simp del]

definition des_begin_sequence :: "nat des" where
  "des_begin_sequence = sequence_loop 0 0"

definition des_value_string :: "bytes des" where
  "des_value_string = des_bind des_begin_sequence des_value_span"

text \<open>
  Reading characters without a range check. The caller has checked the range, so a short read, which
  would be out of bounds, is undefined behaviour.
\<close>

definition unsafe_int_value :: "('a::len word) des" where
  "unsafe_int_value d =
     (let n = LENGTH('a) div 8 in
      if length (unread d) < n then Undefined
      else Loaded (from_network_order (from_bytes (take n (unread d))))
             (d\<lparr>unread := drop n (unread d)\<rparr>))"

primrec unsafe_ints :: "nat \<Rightarrow> ('a::len word) list des" where
  "unsafe_ints 0 = des_return []"
| "unsafe_ints (Suc n) =
     des_bind unsafe_int_value (\<lambda>c. des_bind (unsafe_ints n) (\<lambda>cs. des_return (c # cs)))"

definition des_value_u16string :: "u16 list des" where
  "des_value_u16string = des_bind des_begin_sequence
     (\<lambda>str_size d. if \<not> range_check (str_size * 2) d then emplace_error end_of_stream d
                   else unsafe_ints str_size d)"

definition des_value_u32string :: "u32 list des" where
  "des_value_u32string = des_bind des_begin_sequence
     (\<lambda>str_size d. if \<not> range_check (str_size * 4) d then emplace_error end_of_stream d
                   else unsafe_ints str_size d)"

primrec unpack_block :: "nat \<Rightarrow> u8 \<Rightarrow> bool list" where
  "unpack_block 0 tmp = []"
| "unpack_block (Suc k) tmp = (tmp AND push_bit k 1 \<noteq> 0) # unpack_block k tmp"

primrec des_bool_blocks :: "nat \<Rightarrow> bool list des" where
  "des_bool_blocks 0 = des_return []"
| "des_bool_blocks (Suc blocks) =
     des_bind des_value_u8
       (\<lambda>tmp. des_bind (des_bool_blocks blocks) (\<lambda>bs. des_return (unpack_block 8 tmp @ bs)))"

definition des_value_vector_bool :: "bool list des" where
  "des_value_vector_bool = des_bind des_begin_sequence
     (\<lambda>len. if len = 0 then des_return []
        else des_bind (des_bool_blocks (len div 8))
          (\<lambda>bs. if 0 < len mod 8
             then des_bind des_value_u8 (\<lambda>tmp. des_return (bs @ unpack_block (len mod 8) tmp))
             else des_return bs))"

text \<open>Containers of \<^verbatim>\<open>load_inspector_base\<close>, over the deserialization of their elements.\<close>

primrec load_elements :: "'a des \<Rightarrow> nat \<Rightarrow> 'a list des" where
  "load_elements load 0 = des_return []"
| "load_elements load (Suc n) =
     des_bind load (\<lambda>x. des_bind (load_elements load n) (\<lambda>xs. des_return (x # xs)))"

definition load_list :: "'a des \<Rightarrow> 'a list des" where
  "load_list load = des_bind des_begin_sequence (load_elements load)"

definition load_tuple2 :: "'a des \<Rightarrow> 'b des \<Rightarrow> ('a \<times> 'b) des" where
  "load_tuple2 load1 load2 = des_bind load1 (\<lambda>x. des_bind load2 (\<lambda>y. des_return (x, y)))"

text \<open>The loop of \<open>map\<close>; \<open>xs\<close> are the pairs inserted so far.\<close>

primrec load_kvps :: "'k des \<Rightarrow> 'v des \<Rightarrow> nat \<Rightarrow> ('k \<times> 'v) list \<Rightarrow> ('k \<times> 'v) list des" where
  "load_kvps load1 load2 0 xs = des_return xs"
| "load_kvps load1 load2 (Suc n) xs =
     des_bind load1 (\<lambda>key. des_bind load2 (\<lambda>val.
       if key \<in> fst ` set xs then emplace_error runtime_error
       else load_kvps load1 load2 n (xs @ [(key, val)])))"

definition load_map :: "'k des \<Rightarrow> 'v des \<Rightarrow> ('k \<times> 'v) list des" where
  "load_map load1 load2 = des_bind des_begin_sequence (\<lambda>size. load_kvps load1 load2 size [])"

section \<open>What an operation reads\<close>

text \<open>
  \<open>parses m bs x\<close>: from an input that starts with \<open>bs\<close>, the operation loads \<open>x\<close> and consumes exactly
  \<open>bs\<close>; from an input that ends before \<open>bs\<close> is complete, it fails with the end-of-stream error.
\<close>

definition parses :: "'a des \<Rightarrow> bytes \<Rightarrow> 'a \<Rightarrow> bool" where
  "parses m bs x \<longleftrightarrow>
     (\<forall>d r. unread d = bs @ r \<longrightarrow> m d = Loaded x (d\<lparr>unread := r\<rparr>)) \<and>
     (\<forall>d q. q \<noteq> [] \<longrightarrow> bs = unread d @ q \<longrightarrow>
        (\<exists>d'. m d = Failed d' \<and> des_err d' = sec_error end_of_stream))"

named_theorems parses_rules \<open>the bytes each deserializer operation accepts\<close>

lemma parsesI:
  assumes "\<And>d r. unread d = bs @ r \<Longrightarrow> m d = Loaded x (d\<lparr>unread := r\<rparr>)"
    and "\<And>d q. q \<noteq> [] \<Longrightarrow> bs = unread d @ q \<Longrightarrow>
           \<exists>d'. m d = Failed d' \<and> des_err d' = sec_error end_of_stream"
  shows "parses m bs x"
  using assms unfolding parses_def by blast

lemma parses_loaded:
  "parses m bs x \<Longrightarrow> unread d = bs @ r \<Longrightarrow> m d = Loaded x (d\<lparr>unread := r\<rparr>)"
  unfolding parses_def by blast

lemma parses_short:
  "parses m bs x \<Longrightarrow> q \<noteq> [] \<Longrightarrow> bs = unread d @ q \<Longrightarrow>
     \<exists>d'. m d = Failed d' \<and> des_err d' = sec_error end_of_stream"
  unfolding parses_def by blast

lemma parses_return [parses_rules]: "parses (des_return x) [] x"
  by (rule parsesI) (auto simp: des_return_def)

lemma parses_bind:
  assumes m: "parses m a x" and f: "parses (f x) b y"
  shows "parses (des_bind m f) (a @ b) y"
proof (rule parsesI)
  fix d :: binary_deserializer and r assume "unread d = (a @ b) @ r"
  then show "des_bind m f d = Loaded y (d\<lparr>unread := r\<rparr>)"
    using parses_loaded [OF m, of d "b @ r"] parses_loaded [OF f, of "d\<lparr>unread := b @ r\<rparr>" r]
    by (simp add: des_bind_def)
next
  fix d :: binary_deserializer and q assume q: "q \<noteq> []" and d: "a @ b = unread d @ q"
  have in_a: "\<exists>d'. des_bind m f d = Failed d' \<and> des_err d' = sec_error end_of_stream"
    if "a = unread d @ us" "us \<noteq> []" for us
    using parses_short [OF m that(2,1)] by (auto simp: des_bind_def)
  have in_b: "\<exists>d'. des_bind m f d = Failed d' \<and> des_err d' = sec_error end_of_stream"
    if "unread d = a @ us" "b = us @ q" for us
    using parses_short [OF f q, of "d\<lparr>unread := us\<rparr>"] parses_loaded [OF m that(1)] that(2)
    by (simp add: des_bind_def)
  from d consider us where "a = unread d @ us" "us @ b = q" | us where "a @ us = unread d" "b = us @ q"
    by (auto simp: append_eq_append_conv2)
  then show "\<exists>d'. des_bind m f d = Failed d' \<and> des_err d' = sec_error end_of_stream"
  proof cases
    case (1 us)
    then show ?thesis using in_a [of us] in_b [of "[]"] by (cases us) auto
  qed (rule in_b [OF sym])
qed

lemma parses_bind_return:
  "parses m bs x \<Longrightarrow> parses (des_bind m (\<lambda>x. des_return (g x))) bs (g x)"
  using parses_bind [OF _ parses_return] by fastforce

lemma parses_u8 [parses_rules]: "parses des_value_u8 [x] x"
  by (rule parsesI)
    (auto simp: des_value_u8_def range_check_def emplace_error_def Cons_eq_append_conv)

lemma parses_span [parses_rules]: "length bs = n \<Longrightarrow> parses (des_value_span n) bs bs"
  by (rule parsesI) (auto simp: des_value_span_def range_check_def emplace_error_def)

lemma parses_int [parses_rules]:
  assumes "8 dvd LENGTH('a)"
  shows "parses des_int_value (be_bytes x) (x :: 'a::len word)"
proof -
  have "parses (des_value_span (LENGTH('a) div 8)) (be_bytes x) (be_bytes x)"
    by (rule parses_span) simp
  from parses_bind_return [OF this] show ?thesis
    unfolding des_int_value_def by (metis assms from_network_order_be_bytes)
qed

lemma parses_u16 [parses_rules]: "parses des_value_u16 (be_bytes x) x"
  and parses_u32 [parses_rules]: "parses des_value_u32 (be_bytes y) y"
  and parses_u64 [parses_rules]: "parses des_value_u64 (be_bytes z) z"
  by (simp_all add: des_value_u16_def des_value_u32_def des_value_u64_def parses_int)

lemma parses_byte [parses_rules]: "parses des_value_byte [x] x"
  by (rule parsesI)
    (auto simp: des_value_byte_def range_check_def emplace_error_def Cons_eq_append_conv)

lemma parses_i8_word: "parses des_value_i8 [x] (sint x)"
  by (rule parsesI)
    (auto simp: des_value_i8_def range_check_def emplace_error_def Cons_eq_append_conv)

lemma sint_word_of_int_id:
  "- (2 ^ (LENGTH('a) - 1)) \<le> i \<Longrightarrow> i < 2 ^ (LENGTH('a) - 1) \<Longrightarrow> sint (word_of_int i :: 'a::len word) = i"
  by (simp add: signed_of_int signed_take_bit_int_eq_self)

lemma parses_signed:
  assumes "- (2 ^ 7) \<le> i8 \<and> i8 < 2 ^ 7" "- (2 ^ 15) \<le> i16 \<and> i16 < 2 ^ 15"
    "- (2 ^ 31) \<le> i32 \<and> i32 < 2 ^ 31" "- (2 ^ 63) \<le> i64 \<and> i64 < 2 ^ 63"
  shows "parses des_value_i8 [word_of_int i8] i8"
    and "parses des_value_i16 (be_bytes (word_of_int i16 :: u16)) i16"
    and "parses des_value_i32 (be_bytes (word_of_int i32 :: u32)) i32"
    and "parses des_value_i64 (be_bytes (word_of_int i64 :: u64)) i64"
  using assms parses_i8_word [of "word_of_int i8"]
    parses_bind_return [OF parses_int [of "word_of_int i16 :: u16"], of sint]
    parses_bind_return [OF parses_int [of "word_of_int i32 :: u32"], of sint]
    parses_bind_return [OF parses_int [of "word_of_int i64 :: u64"], of sint]
    sint_word_of_int_id [where 'a = 8, of i8] sint_word_of_int_id [where 'a = 16, of i16]
    sint_word_of_int_id [where 'a = 32, of i32] sint_word_of_int_id [where 'a = 64, of i64]
  by (simp_all add: des_value_i16_def des_value_i32_def des_value_i64_def)

lemma parses_bool [parses_rules]: "parses des_value_bool [of_bool b] b"
  using parses_bind_return [OF parses_i8_word [of "of_bool b"], of "\<lambda>tmp. tmp \<noteq> 0"]
  by (cases b) (simp_all add: des_value_bool_def)

section \<open>Sequence headers\<close>

lemma sequence_loop_bind:
  "sequence_loop x n = des_bind des_value_u8
     (\<lambda>low7. if 32 \<le> 7 * n then (\<lambda>d. Undefined)
        else if low7 AND 0x80 \<noteq> 0
          then sequence_loop (x OR push_bit (7 * n) (ucast (low7 AND 0x7F))) (Suc n)
        else des_return (unat (x OR push_bit (7 * n) (ucast (low7 AND 0x7F)))))"
  by (rule ext, subst sequence_loop.simps)
    (simp add: des_bind_def des_return_def Let_def split: load_result.split)

lemmas low7 = and_0x7f and_0x80 or_0x80

lemma low7_bits:
  fixes x :: u32
  shows "ucast (take_bit 7 (set_bit 7 (take_bit 7 (ucast x) :: u8))) = take_bit 7 x"
    and "ucast (take_bit 7 (ucast x) :: u8) = take_bit 7 x"
    and "bit (set_bit 7 (take_bit 7 (ucast x) :: u8)) 7"
    and "\<not> bit (take_bit 7 (ucast x) :: u8) 7"
  by (auto intro!: bit_word_eqI simp: bit_simps)

lemma acc_step:
  fixes x :: u32
  shows "(acc OR push_bit k (take_bit 7 x)) OR push_bit (7 + k) (drop_bit 7 x) = acc OR push_bit k x"
proof (rule bit_word_eqI)
  fix n
  show "bit ((acc OR push_bit k (take_bit 7 x)) OR push_bit (7 + k) (drop_bit 7 x)) n =
    bit (acc OR push_bit k x) n"
  proof (cases "n < 7 + k")
    case False
    then obtain m where "n = 7 + k + m" by (metis le_Suc_ex not_less)
    then show ?thesis by (auto simp: bit_simps)
  qed (auto simp: bit_simps)
qed

lemma take_bit_7_le:
  assumes "(x :: u32) \<le> 0x7F"
  shows "take_bit 7 x = x"
proof (rule bit_word_eqI)
  fix n
  from assms have "unat x < 2 ^ 7" by (simp add: word_le_nat_alt)
  then show "bit (take_bit 7 x) n = bit x n"
    using bit_less_exp [of x n 7] by (auto simp: bit_simps)
qed

lemma parses_sequence_loop:
  "7 * n < 32 \<Longrightarrow> unat x < 2 ^ (32 - 7 * n) \<Longrightarrow>
     parses (sequence_loop acc n) (varbyte_loop x) (unat (acc OR push_bit (7 * n) x))"
proof (induction x arbitrary: acc n rule: varbyte_loop.induct)
  case (1 x)
  show ?case
  proof (cases "0x7f < x")
    case True
    then have "2 ^ 7 \<le> unat x" by (simp add: word_less_nat_alt)
    with 1(3) have "(2::nat) ^ 7 < 2 ^ (32 - 7 * n)" by linarith
    then have n: "7 < 32 - 7 * n" by (rule power_less_imp_less_exp [rotated]) simp
    then have "32 - 7 * n = 7 + (32 - 7 * Suc n)" by simp
    then have "(2::nat) ^ (32 - 7 * n) = 2 ^ 7 * 2 ^ (32 - 7 * Suc n)"
      by (simp only: power_add)
    with 1(3) have less: "unat (drop_bit 7 x) < 2 ^ (32 - 7 * Suc n)"
      by (simp add: drop_bit_eq_div unat_div less_mult_imp_div_less mult.commute)
    let ?acc = "acc OR push_bit (7 * n) (take_bit 7 x)"
    from n have "7 * Suc n < 32" by simp
    from 1(1) [OF True this less, of ?acc]
    have IH: "parses (sequence_loop ?acc (Suc n)) (varbyte_loop (drop_bit 7 x))
      (unat (?acc OR push_bit (7 * Suc n) (drop_bit 7 x)))" .
    have acc: "?acc OR push_bit (7 * Suc n) (drop_bit 7 x) = acc OR push_bit (7 * n) x"
      using acc_step [of acc "7 * n" x] by simp
    have "parses (sequence_loop acc n)
      ([set_bit 7 (take_bit 7 (ucast x))] @ varbyte_loop (drop_bit 7 x))
      (unat (acc OR push_bit (7 * n) x))"
      unfolding sequence_loop_bind [of acc n] low7
      using IH [unfolded acc] 1(2) by (intro parses_bind [OF parses_u8]) (simp add: low7_bits)
    with True show ?thesis
      by (subst varbyte_loop.simps) (simp add: low7)
  next
    case False
    then have "take_bit 7 x = x" by (simp add: take_bit_7_le)
    then have "parses (sequence_loop acc n) ([take_bit 7 (ucast x)] @ [])
      (unat (acc OR push_bit (7 * n) x))"
      unfolding sequence_loop_bind [of acc n] low7
      using 1(2) by (intro parses_bind [OF parses_u8]) (simp add: low7_bits parses_return)
    with False show ?thesis
      by (subst varbyte_loop.simps) (simp add: low7)
  qed
qed

lemma parses_begin_sequence [parses_rules]:
  "n < 2 ^ 32 \<Longrightarrow> parses des_begin_sequence (varbyte_loop (of_nat n)) n"
  using parses_sequence_loop [of 0 "of_nat n" 0]
  by (simp add: des_begin_sequence_def unat_of_nat take_bit_eq_mod unat_less_exp [of "of_nat n :: u32"])

text \<open>Every sequence size is written, but only its lower 32 bits.\<close>

lemma varbyte_truncates: "varbyte_loop (of_nat n) = varbyte_loop (of_nat (n mod 2 ^ 32))"
proof -
  have "(of_nat n :: u32) = of_nat (n mod 2 ^ 32)"
    by (rule unsigned_word_eqI [where ?'a = nat]) (simp add: unat_of_nat)
  then show ?thesis by simp
qed

lemma bind_append:
  assumes "n < 2 ^ 32" "parses (f n) b y"
  shows "parses (des_bind des_begin_sequence f) (varbyte_loop (of_nat n) @ b) y"
  by (rule parses_bind [OF parses_begin_sequence]) (use assms in simp_all)

section \<open>Strings and flags\<close>

lemma parses_string [parses_rules]:
  "length x < 2 ^ 32 \<Longrightarrow> parses des_value_string (varbyte_loop (of_nat (length x)) @ x) x"
  unfolding des_value_string_def by (intro bind_append parses_span refl)

lemma length_concat_be_bytes:
  "length (concat (map be_bytes (xs :: 'a::len word list))) = length xs * (LENGTH('a) div 8)"
  by (induction xs) simp_all

lemma unsafe_ints_loaded:
  assumes "8 dvd LENGTH('a)"
  shows "unread d = concat (map be_bytes xs) @ r \<Longrightarrow>
    unsafe_ints (length xs) d = Loaded (xs :: 'a::len word list) (d\<lparr>unread := r\<rparr>)"
proof (induction xs arbitrary: d)
  case Nil
  then show ?case by (simp add: des_return_def)
next
  case (Cons x xs)
  from Cons.prems have "unsafe_int_value d =
      Loaded x (d\<lparr>unread := concat (map be_bytes xs) @ r\<rparr>)"
    using assms by (simp add: unsafe_int_value_def Let_def from_network_order_be_bytes)
  with Cons.IH [of "d\<lparr>unread := concat (map be_bytes xs) @ r\<rparr>"] show ?case
    by (simp add: des_bind_def des_return_def)
qed

lemma parses_checked_ints:
  fixes xs :: "'a::len word list"
  assumes "8 dvd LENGTH('a)" "k = LENGTH('a) div 8"
  shows "parses (\<lambda>d. if \<not> range_check (length xs * k) d then emplace_error end_of_stream d
                    else unsafe_ints (length xs) d) (concat (map be_bytes xs)) xs"
proof (rule parsesI)
  fix d :: binary_deserializer and r assume d: "unread d = concat (map be_bytes xs) @ r"
  then have "range_check (length xs * k) d"
    using assms(2) by (simp add: range_check_def length_concat_be_bytes)
  with unsafe_ints_loaded [OF assms(1) d]
  show "(if \<not> range_check (length xs * k) d then emplace_error end_of_stream d
         else unsafe_ints (length xs) d) = Loaded xs (d\<lparr>unread := r\<rparr>)" by simp
next
  fix d :: binary_deserializer and q :: bytes
  assume "q \<noteq> []" "concat (map be_bytes xs) = unread d @ q"
  then have "length (unread d) < length xs * k"
    using assms(2) length_concat_be_bytes [of xs] by (cases q) auto
  then show "\<exists>d'. (if \<not> range_check (length xs * k) d then emplace_error end_of_stream d
         else unsafe_ints (length xs) d) = Failed d' \<and> des_err d' = sec_error end_of_stream"
    by (simp add: range_check_def emplace_error_def)
qed

lemma parses_u16string [parses_rules]:
  "length x < 2 ^ 32 \<Longrightarrow>
     parses des_value_u16string (varbyte_loop (of_nat (length x)) @ concat (map be_bytes x)) x"
  unfolding des_value_u16string_def by (rule bind_append, assumption, rule parses_checked_ints) simp_all

lemma parses_u32string [parses_rules]:
  "length x < 2 ^ 32 \<Longrightarrow>
     parses des_value_u32string (varbyte_loop (of_nat (length x)) @ concat (map be_bytes x)) x"
  unfolding des_value_u32string_def by (rule bind_append, assumption, rule parses_checked_ints) simp_all

lemma bit_pack_block:
  "length bs \<le> 8 \<Longrightarrow> bit (pack_block bs tmp) i \<longleftrightarrow>
     bit tmp i \<or> i < length bs \<and> bs ! (length bs - Suc i)"
proof (induction bs arbitrary: tmp)
  case (Cons b bs)
  have head: "bit (if b then tmp OR push_bit (length bs) 1 else tmp) i \<longleftrightarrow>
      bit tmp i \<or> b \<and> i = length bs"
    using Cons.prems by (auto simp: bit_or_iff bit_exp_iff)
  have nth: "i < length bs \<Longrightarrow> (b # bs) ! (length bs - i) = bs ! (length bs - Suc i)"
    by (simp add: nth_Cons')
  from Cons show ?case
    by (cases i "length bs" rule: linorder_cases) (simp_all add: head nth bit_or_iff bit_exp_iff)
qed simp

lemma unpack_block_nth:
  "k \<le> 8 \<Longrightarrow> unpack_block k tmp = map (\<lambda>i. bit tmp (k - Suc i)) [0 ..< k]"
proof (induction k)
  case (Suc k)
  have "(tmp AND push_bit k 1 \<noteq> 0) = bit tmp k" by (simp add: bit_iff_and_push_bit_not_eq_0)
  with Suc show ?case by (simp add: upt_rec [of 0] map_Suc_upt [symmetric] del: upt_Suc)
qed simp

lemma unpack_pack_block: "length bs \<le> 8 \<Longrightarrow> unpack_block (length bs) (pack_block bs 0) = bs"
  by (auto simp: unpack_block_nth bit_pack_block intro!: nth_equalityI)

lemma parses_bool_blocks:
  "8 * n \<le> length x \<Longrightarrow> parses (des_bool_blocks n) (block_bytes n x) (take (8 * n) x)"
proof (induction n arbitrary: x)
  case (Suc n)
  from Suc.prems have len: "length (take 8 x) = 8" by simp
  from Suc.prems have "8 * n \<le> length (drop 8 x)" by simp
  from parses_bind_return [OF Suc.IH [OF this], of "\<lambda>bs. take 8 x @ bs"]
  have "parses (des_bind (des_bool_blocks n) (\<lambda>bs. des_return (unpack_block 8 (pack_block (take 8 x) 0) @ bs)))
     (block_bytes n (drop 8 x)) (take (8 * Suc n) x)"
    using unpack_pack_block [of "take 8 x"] len by (simp add: take_add)
  then show ?case
    using parses_bind [OF parses_u8, of _ "pack_block (take 8 x) 0"] by simp
qed (simp add: parses_return)

lemma parses_bool_body:
  "x \<noteq> [] \<Longrightarrow> parses (des_bind (des_bool_blocks (length x div 8))
     (\<lambda>bs. if 0 < length x mod 8
        then des_bind des_value_u8 (\<lambda>tmp. des_return (bs @ unpack_block (length x mod 8) tmp))
        else des_return bs)) (bool_bytes x) x"
proof -
  let ?n = "length x div 8" and ?k = "length x mod 8"
  let ?t = "drop (8 * ?n) x"
  have k: "length ?t = ?k" by (simp add: minus_mult_div_eq_mod)
  then have t: "unpack_block ?k (pack_block ?t 0) = ?t"
    using unpack_pack_block [of ?t] by simp
  have blocks: "parses (des_bool_blocks ?n) (block_bytes ?n x) (take (8 * ?n) x)"
    by (rule parses_bool_blocks) simp
  have rest: "parses (if 0 < ?k
        then des_bind des_value_u8 (\<lambda>tmp. des_return (take (8 * ?n) x @ unpack_block ?k tmp))
        else des_return (take (8 * ?n) x))
      (if 0 < ?k then [pack_block ?t 0] else []) x"
    using parses_bind_return [OF parses_u8 [of "pack_block ?t 0"],
        of "\<lambda>tmp. take (8 * ?n) x @ unpack_block ?k tmp"] t k
    by (auto intro: parses_return simp: parses_return dvd_mult_div_cancel)
  show ?thesis unfolding bool_bytes_def by (rule parses_bind [OF blocks]) (rule rest)
qed

lemma parses_vector_bool [parses_rules]:
  "length x < 2 ^ 32 \<Longrightarrow>
     parses des_value_vector_bool (varbyte_loop (of_nat (length x)) @ bool_bytes x) x"
  unfolding des_value_vector_bool_def
proof (rule bind_append)
  show "parses (if length x = 0 then des_return []
      else des_bind (des_bool_blocks (length x div 8))
        (\<lambda>bs. if 0 < length x mod 8
           then des_bind des_value_u8 (\<lambda>tmp. des_return (bs @ unpack_block (length x mod 8) tmp))
           else des_return bs)) (bool_bytes x) x"
    using parses_bool_body [of x] by (cases "x = []") (simp_all add: parses_return bool_bytes_def)
qed

section \<open>Variant fields\<close>

lemma sint_of_nat_small:
  assumes "n < 2 ^ (LENGTH('a) - 1)"
  shows "sint (of_nat n :: 'a::len word) = int n"
proof -
  have "- (2 ^ (LENGTH('a) - 1)) \<le> int n" by (rule order_trans [of _ 0]) simp_all
  with assms show ?thesis
    by (simp add: signed_of_nat signed_take_bit_int_eq_self)
qed

lemma parses_index:
  assumes m: "parses m (be_bytes (of_nat i :: 'a::len word)) (of_nat i :: 'a word)"
    and i: "i < n" "i < 2 ^ (LENGTH('a) - 1)"
  shows "parses (des_bind m (check_index n)) (be_bytes (of_nat i :: 'a word)) i"
  using parses_bind [OF m, of "check_index n" "[]" i] i
  by (simp add: check_index_def sint_of_nat_small parses_return)

lemma parses_opt_index:
  assumes m: "parses m (be_bytes (compress_index p i :: 'a::len word)) (compress_index p i :: 'a word)"
    and i: "p \<Longrightarrow> i < n" "p \<Longrightarrow> i < 2 ^ (LENGTH('a) - 1)"
  shows "parses (des_bind m (check_opt_index n)) (be_bytes (compress_index p i :: 'a word))
    (if p then Some i else None)"
  using parses_bind [OF m, of "check_opt_index n" "[]"] i
  by (cases p) (simp_all add: check_opt_index_def compress_index_def sint_of_nat_small parses_return)

lemma be_bytes_u8 [simp]: "be_bytes (x :: u8) = [x]"
  by (simp add: be_bytes_def as_bytes_def)

definition index_bytes :: "nat \<Rightarrow> (bool \<times> nat) \<Rightarrow> bytes" where
  "index_bytes n i =
     (if n < 0x7F then be_bytes (case_prod compress_index i :: u8)
      else if n < 0x7FFF then be_bytes (case_prod compress_index i :: u16)
      else if n < 0x7FFFFFFF then be_bytes (case_prod compress_index i :: u32)
      else be_bytes (case_prod compress_index i :: u64))"

lemma emits_opt_variant [emits_rules]:
  "emits (ser_begin_field_opt_variant p n i) (index_bytes n (p, i))"
  by (auto simp: ser_begin_field_opt_variant_def index_bytes_def emits_rules)

lemma emits_variant [emits_rules]:
  "emits (ser_begin_field_variant n i) (index_bytes n (True, i))"
  by (auto simp: ser_begin_field_variant_def index_bytes_def compress_index_def emits_rules)

lemma parses_variant [parses_rules]:
  assumes "i < n" "n \<le> 2 ^ 63"
  shows "parses (des_begin_field_variant n) (index_bytes n (True, i)) i"
proof -
  have u8: "parses des_value_u8 (be_bytes x) x" for x by (simp add: parses_u8)
  show ?thesis
    using assms parses_index [OF u8, of i n] parses_index [OF parses_u16, of i n]
      parses_index [OF parses_u32, of i n] parses_index [OF parses_u64, of i n]
    by (simp add: des_begin_field_variant_def index_bytes_def compress_index_def)
qed

lemma parses_opt_variant [parses_rules]:
  assumes "p \<Longrightarrow> i < n" "n \<le> 2 ^ 63"
  shows "parses (des_begin_field_opt_variant n) (index_bytes n (p, i)) (if p then Some i else None)"
proof -
  have u8: "parses des_value_u8 (be_bytes x) x" for x by (simp add: parses_u8)
  show ?thesis
    using assms parses_opt_index [OF u8, of p i n] parses_opt_index [OF parses_u16, of p i n]
      parses_opt_index [OF parses_u32, of p i n] parses_opt_index [OF parses_u64, of p i n]
    by (cases p) (simp_all add: des_begin_field_opt_variant_def index_bytes_def)
qed

section \<open>The contract between saving and loading\<close>

locale codec =
  fixes ok :: "'a \<Rightarrow> bool" and enc :: "'a \<Rightarrow> bytes" and save :: "'a \<Rightarrow> ser" and load :: "'a des"
  assumes save_emits: "ok x \<Longrightarrow> emits (save x) (enc x)"
    and load_parses: "ok x \<Longrightarrow> parses load (enc x) x"
begin

lemma roundtrip:
  assumes "ok x"
  shows "save x (mk_serializer b) = Some (mk_serializer (b @ enc x))"
    and "load (mk_deserializer (enc x @ r)) = Loaded x (mk_deserializer r)"
  using emits_run [OF save_emits [OF assms]]
    parses_loaded [OF load_parses [OF assms], of "mk_deserializer (enc x @ r)"]
  by (simp_all add: mk_deserializer_def)

lemma truncated:
  assumes "ok x" "enc x = p @ q" "q \<noteq> []"
  shows "\<exists>d. load (mk_deserializer p) = Failed d \<and> des_err d = sec_error end_of_stream"
  using parses_short [OF load_parses [OF assms(1)] assms(3), of "mk_deserializer p"] assms(2)
  by (simp add: mk_deserializer_def)

lemma prefix_free:
  assumes "ok x" "ok y" "enc x @ r = enc y @ r'"
  shows "x = y \<and> r = r'"
  using roundtrip(2) [OF assms(1), of r] roundtrip(2) [OF assms(2), of r'] assms(3)
  by (simp add: mk_deserializer_def)

lemma load_elements_parses:
  "list_all ok xs \<Longrightarrow> parses (load_elements load (length xs)) (concat (map enc xs)) xs"
proof (induction xs)
  case (Cons x xs)
  then have "parses (des_bind (load_elements load (length xs)) (\<lambda>xs. des_return (x # xs)))
      (concat (map enc xs)) (x # xs)"
    using parses_bind_return by fastforce
  with Cons.prems show ?case
    using parses_bind [OF load_parses, of x] by simp
qed (simp add: parses_return)

lemma list_codec:
  "codec (\<lambda>xs. length xs < 2 ^ 32 \<and> list_all ok xs)
     (\<lambda>xs. varbyte_loop (of_nat (length xs)) @ concat (map enc xs)) (save_list save) (load_list load)"
proof
  fix xs assume xs: "length xs < 2 ^ 32 \<and> list_all ok xs"
  then show "emits (save_list save xs) (varbyte_loop (of_nat (length xs)) @ concat (map enc xs))"
    by (intro emits_list) (auto simp: list_all_iff intro: save_emits)
  from xs show "parses (load_list load) (varbyte_loop (of_nat (length xs)) @ concat (map enc xs)) xs"
    unfolding load_list_def by (intro bind_append load_elements_parses) auto
qed

end

definition ok_pair :: "('k \<Rightarrow> bool) \<Rightarrow> ('v \<Rightarrow> bool) \<Rightarrow> 'k \<times> 'v \<Rightarrow> bool" where
  "ok_pair ok1 ok2 x \<longleftrightarrow> ok1 (fst x) \<and> ok2 (snd x)"

definition enc_pair :: "('k \<Rightarrow> bytes) \<Rightarrow> ('v \<Rightarrow> bytes) \<Rightarrow> 'k \<times> 'v \<Rightarrow> bytes" where
  "enc_pair enc1 enc2 x = enc1 (fst x) @ enc2 (snd x)"

locale codec_pair =
  c1: codec ok1 enc1 save1 load1 + c2: codec ok2 enc2 save2 load2
  for ok1 :: "'k \<Rightarrow> bool" and enc1 save1 load1
    and ok2 :: "'v \<Rightarrow> bool" and enc2 save2 load2
begin

lemma tuple_codec: "codec (ok_pair ok1 ok2) (enc_pair enc1 enc2) (save_tuple2 save1 save2) (load_tuple2 load1 load2)"
proof
  fix x assume x: "(ok_pair ok1 ok2) x"
  then show "emits (save_tuple2 save1 save2 x) ((enc_pair enc1 enc2) x)"
    by (auto simp: ok_pair_def enc_pair_def save_tuple2_def
        intro!: emits_seq c1.save_emits c2.save_emits)
  from x have "parses (des_bind load2 (\<lambda>y. des_return (fst x, y))) (enc2 (snd x)) x"
    using parses_bind_return [OF c2.load_parses, of "snd x" "Pair (fst x)"] by (simp add: ok_pair_def)
  with x show "parses (load_tuple2 load1 load2) ((enc_pair enc1 enc2) x) x"
    unfolding load_tuple2_def enc_pair_def
    by (intro parses_bind [OF c1.load_parses]) (auto simp: ok_pair_def)
qed

lemma emits_kvps:
  "list_all (ok_pair ok1 ok2) xs \<Longrightarrow> emits (save_kvps save1 save2 xs) (concat (map (enc_pair enc1 enc2) xs))"
proof (induction xs)
  case (Cons x xs)
  then show ?case
    using emits_seq [OF c1.save_emits emits_seq [OF c2.save_emits Cons.IH]]
    by (simp add: ok_pair_def enc_pair_def)
qed (simp add: emits_rules)

lemma load_kvps_parses:
  "list_all (ok_pair ok1 ok2) xs \<Longrightarrow> distinct (map fst (ys @ xs)) \<Longrightarrow>
     parses (load_kvps load1 load2 (length xs) ys) (concat (map (enc_pair enc1 enc2) xs)) (ys @ xs)"
proof (induction xs arbitrary: ys)
  case (Cons x xs)
  then have "parses (load_kvps load1 load2 (length xs) (ys @ [(fst x, snd x)]))
      (concat (map (enc_pair enc1 enc2) xs)) (ys @ x # xs)"
    using Cons.IH [of "ys @ [x]"] by simp
  moreover from Cons.prems have "fst x \<notin> fst ` set ys" "ok1 (fst x)" "ok2 (snd x)"
    by (auto simp: ok_pair_def)
  ultimately show ?case
    by (auto simp: enc_pair_def [of enc1 enc2 x]
        intro!: parses_bind [OF c1.load_parses] parses_bind [OF c2.load_parses])
qed (simp add: parses_return)

lemma load_kvps_duplicate:
  "list_all (ok_pair ok1 ok2) xs \<Longrightarrow> distinct (map fst ys) \<Longrightarrow> \<not> distinct (map fst (ys @ xs)) \<Longrightarrow>
     unread d = concat (map (enc_pair enc1 enc2) xs) @ r \<Longrightarrow>
     \<exists>d'. load_kvps load1 load2 (length xs) ys d = Failed d' \<and> des_err d' = sec_error runtime_error"
proof (induction xs arbitrary: ys d)
  case (Cons x xs)
  let ?r = "concat (map (enc_pair enc1 enc2) xs) @ r"
  from Cons.prems have ok: "ok1 (fst x)" "ok2 (snd x)"
    and d: "unread d = enc1 (fst x) @ enc2 (snd x) @ ?r"
    by (simp_all add: ok_pair_def [of ok1 ok2 x] enc_pair_def [of enc1 enc2 x])
  note key = parses_loaded [OF c1.load_parses [OF ok(1)] d]
  note val = parses_loaded [OF c2.load_parses [OF ok(2)], of "d\<lparr>unread := enc2 (snd x) @ ?r\<rparr>" ?r]
  show ?case
  proof (cases "fst x \<in> fst ` set ys")
    case True
    with key val show ?thesis by (simp add: des_bind_def emplace_error_def)
  next
    case False
    with Cons.prems Cons.IH [of "ys @ [x]" "d\<lparr>unread := ?r\<rparr>"] key val show ?thesis
      by (simp add: des_bind_def)
  qed
qed simp

lemma map_codec:
  "codec (\<lambda>xs. length xs < 2 ^ 32 \<and> list_all (ok_pair ok1 ok2) xs \<and> distinct (map fst xs))
     (\<lambda>xs. varbyte_loop (of_nat (length xs)) @ concat (map (enc_pair enc1 enc2) xs))
     (save_map save1 save2) (load_map load1 load2)"
proof
  fix xs assume xs: "length xs < 2 ^ 32 \<and> list_all (ok_pair ok1 ok2) xs \<and> distinct (map fst xs)"
  then show "emits (save_map save1 save2 xs)
      (varbyte_loop (of_nat (length xs)) @ concat (map (enc_pair enc1 enc2) xs))"
    unfolding save_map_def by (intro emits_seq emits_begin_sequence emits_kvps) auto
  from xs show "parses (load_map load1 load2)
      (varbyte_loop (of_nat (length xs)) @ concat (map (enc_pair enc1 enc2) xs)) xs"
    unfolding load_map_def using load_kvps_parses [of xs "[]"] by (intro bind_append) auto
qed

end

interpretation codec_u8: codec "\<lambda>_. True" "\<lambda>x. [x]" ser_value_u8 des_value_u8
  by unfold_locales (simp_all add: emits_rules parses_rules)

interpretation codec_u16: codec "\<lambda>_. True" be_bytes ser_value_u16 des_value_u16
  by unfold_locales (simp_all add: emits_rules parses_rules)

interpretation codec_u32: codec "\<lambda>_. True" be_bytes ser_value_u32 des_value_u32
  by unfold_locales (simp_all add: emits_rules parses_rules)

interpretation codec_u64: codec "\<lambda>_. True" be_bytes ser_value_u64 des_value_u64
  by unfold_locales (simp_all add: emits_rules parses_rules)

interpretation codec_bool: codec "\<lambda>_. True" "\<lambda>b. [of_bool b]" ser_value_bool des_value_bool
  by unfold_locales (simp_all add: emits_rules parses_rules)

interpretation codec_string: codec "\<lambda>x. length x < 2 ^ 32"
  "\<lambda>x. varbyte_loop (of_nat (length x)) @ x" ser_value_string des_value_string
  by unfold_locales (rule emits_string, rule parses_string)

interpretation codec_u16string: codec "\<lambda>x. length x < 2 ^ 32"
  "\<lambda>x. varbyte_loop (of_nat (length x)) @ concat (map be_bytes x)" ser_value_u16string des_value_u16string
  by unfold_locales (rule emits_u16string, rule parses_u16string)

interpretation codec_u32string: codec "\<lambda>x. length x < 2 ^ 32"
  "\<lambda>x. varbyte_loop (of_nat (length x)) @ concat (map be_bytes x)" ser_value_u32string des_value_u32string
  by unfold_locales (rule emits_u32string, rule parses_u32string)

interpretation codec_vector_bool: codec "\<lambda>x. length x < 2 ^ 32"
  "\<lambda>x. varbyte_loop (of_nat (length x)) @ bool_bytes x" ser_value_vector_bool des_value_vector_bool
  by unfold_locales (rule emits_vector_bool, rule parses_vector_bool)

interpretation codec_string_u64: codec_pair "\<lambda>x. length x < 2 ^ 32"
  "\<lambda>x. varbyte_loop (of_nat (length x)) @ x" ser_value_string des_value_string
  "\<lambda>_. True" be_bytes ser_value_u64 des_value_u64
  by unfold_locales

section \<open>Properties\<close>

lemma des_begin_sequence_header:
  "des_begin_sequence (mk_deserializer (varbyte_loop (of_nat n) @ r)) =
     Loaded (n mod 2 ^ 32) (mk_deserializer r)"
proof -
  have "n mod 2 ^ 32 < (2 ^ 32 :: nat)" by simp
  from parses_loaded [OF parses_begin_sequence [OF this], of "mk_deserializer _" r] show ?thesis
    unfolding varbyte_truncates [of n] by (simp add: mk_deserializer_def)
qed

lemma sequence_loop_more:
  assumes "7 * n < 32" "b AND 0x80 \<noteq> 0"
  shows "\<exists>x'. sequence_loop x n (mk_deserializer (b # r)) = sequence_loop x' (Suc n) (mk_deserializer r)"
  using assms unfolding sequence_loop_bind [of x n]
  by (auto simp: des_bind_def des_value_u8_def range_check_def mk_deserializer_def)

lemma sequence_loop_shift:
  "32 \<le> 7 * n \<Longrightarrow> sequence_loop x n (mk_deserializer (b # r)) = Undefined"
  unfolding sequence_loop_bind [of x n]
  by (auto simp: des_bind_def des_value_u8_def range_check_def mk_deserializer_def)

lemma emits_parses_run:
  assumes "emits f bs" "parses m bs x"
  shows "\<exists>bs. f (mk_serializer out) = Some (mk_serializer (out @ bs)) \<and>
              m (mk_deserializer (bs @ r)) = Loaded x (mk_deserializer r)"
  using emits_run [OF assms(1)] parses_loaded [OF assms(2), of "mk_deserializer (bs @ r)" r]
  by (auto simp: mk_deserializer_def)



text \<open>
  C14: If keys and values of a map can be saved and loaded, a map of fewer than \<open>2 ^ 32\<close> pairs with
  distinct keys can: its bytes are appended to the buffer and read back to the same pairs. Input with a
  repeated key is rejected with a runtime error, and every proper prefix of the bytes with an
  end-of-stream error.
\<close>

theorem binary_map_roundtrip:
  assumes "codec ok1 enc1 save1 load1" "codec ok2 enc2 save2 load2"
    and "length xs < 2 ^ 32" "list_all (ok_pair ok1 ok2) xs"
  shows "\<exists>bs. save_map save1 save2 xs (mk_serializer out) = Some (mk_serializer (out @ bs)) \<and>
    (if distinct (map fst xs)
     then load_map load1 load2 (mk_deserializer (bs @ r)) = Loaded xs (mk_deserializer r) \<and>
          (\<forall>p q. bs = p @ q \<and> q \<noteq> [] \<longrightarrow>
             (\<exists>d. load_map load1 load2 (mk_deserializer p) = Failed d \<and>
                  des_err d = sec_error end_of_stream))
     else \<exists>d. load_map load1 load2 (mk_deserializer (bs @ r)) = Failed d \<and>
              des_err d = sec_error runtime_error)"
proof -
  have pair: "codec_pair ok1 enc1 save1 load1 ok2 enc2 save2 load2"
    using assms(1,2) by (simp add: codec_pair_def)
  note mc = codec_pair.map_codec [OF pair]
  let ?bs = "varbyte_loop (of_nat (length xs)) @ concat (map (enc_pair enc1 enc2) xs)"
  have save: "save_map save1 save2 xs (mk_serializer out) = Some (mk_serializer (out @ ?bs))"
    unfolding save_map_def
    by (intro emits_run emits_seq emits_begin_sequence codec_pair.emits_kvps [OF pair] assms(4))
  show ?thesis
  proof (cases "distinct (map fst xs)")
    case True
    with assms have ok: "length xs < 2 ^ 32 \<and> list_all (ok_pair ok1 ok2) xs \<and> distinct (map fst xs)"
      by simp
    show ?thesis
      using save codec.roundtrip(2) [OF mc ok, of r] codec.truncated [OF mc ok] True by auto
  next
    case False
    have "des_begin_sequence (mk_deserializer (?bs @ r)) = Loaded (length xs)
        (mk_deserializer (concat (map (enc_pair enc1 enc2) xs) @ r))"
      using des_begin_sequence_header [of "length xs"] assms(3) by simp
    with codec_pair.load_kvps_duplicate [OF pair assms(4), of "[]" "mk_deserializer _" r] False save
    show ?thesis by (auto simp: load_map_def des_bind_def mk_deserializer_def intro!: exI [of _ ?bs])
  qed
qed

theorem binary_map_roundtrip_witness:
  "\<exists>bs. save_map ser_value_u16 ser_value_bool [(1, True), (2, False)] (mk_serializer []) =
      Some (mk_serializer ([] @ bs)) \<and>
    (if distinct (map fst [(1 :: u16, True), (2, False)])
     then load_map des_value_u16 des_value_bool (mk_deserializer (bs @ [9])) =
            Loaded [(1, True), (2, False)] (mk_deserializer [9]) \<and>
          (\<forall>p q. bs = p @ q \<and> q \<noteq> [] \<longrightarrow>
             (\<exists>d. load_map des_value_u16 des_value_bool (mk_deserializer p) = Failed d \<and>
                  des_err d = sec_error end_of_stream))
     else \<exists>d. load_map des_value_u16 des_value_bool (mk_deserializer (bs @ [9])) = Failed d \<and>
              des_err d = sec_error runtime_error)"
  by (rule binary_map_roundtrip [OF codec_u16.codec_axioms codec_bool.codec_axioms])
    (simp_all add: ok_pair_def)

text \<open>
  C15: Cutting the bytes of a string, a wide string or a flag vector short anywhere makes the
  corresponding load operation fail with the end-of-stream error.
\<close>

theorem binary_truncated_input_fails:
  assumes "length str < 2 ^ 32" "length s16 < 2 ^ 32" "length s32 < 2 ^ 32" "length flags < 2 ^ 32"
    and "q \<noteq> []"
  shows "(ser_value_string str (mk_serializer []) = Some (mk_serializer (p @ q)) \<longrightarrow>
            (\<exists>d. des_value_string (mk_deserializer p) = Failed d \<and> des_err d = sec_error end_of_stream)) \<and>
         (ser_value_u16string s16 (mk_serializer []) = Some (mk_serializer (p @ q)) \<longrightarrow>
            (\<exists>d. des_value_u16string (mk_deserializer p) = Failed d \<and> des_err d = sec_error end_of_stream)) \<and>
         (ser_value_u32string s32 (mk_serializer []) = Some (mk_serializer (p @ q)) \<longrightarrow>
            (\<exists>d. des_value_u32string (mk_deserializer p) = Failed d \<and> des_err d = sec_error end_of_stream)) \<and>
         (ser_value_vector_bool flags (mk_serializer []) = Some (mk_serializer (p @ q)) \<longrightarrow>
            (\<exists>d. des_value_vector_bool (mk_deserializer p) = Failed d \<and> des_err d = sec_error end_of_stream))"
proof -
  have inj: "mk_serializer a = mk_serializer b \<Longrightarrow> a = b" for a b by (simp add: mk_serializer_def)
  note rt = codec_string.roundtrip(1) [OF assms(1)] codec_u16string.roundtrip(1) [OF assms(2)]
    codec_u32string.roundtrip(1) [OF assms(3)] codec_vector_bool.roundtrip(1) [OF assms(4)]
  show ?thesis
    unfolding rt using assms
    by (auto dest!: inj intro: codec_string.truncated codec_u16string.truncated
        codec_u32string.truncated codec_vector_bool.truncated)
qed

theorem binary_truncated_input_fails_witness:
  "ser_value_string [0x61, 0x62] (mk_serializer []) = Some (mk_serializer ([2, 0x61] @ [0x62])) \<and>
   (\<exists>d. des_value_string (mk_deserializer [2, 0x61]) = Failed d \<and> des_err d = sec_error end_of_stream)"
proof -
  have save: "ser_value_string [0x61, 0x62] (mk_serializer []) = Some (mk_serializer ([2, 0x61] @ [0x62]))"
    by (simp add: ser_value_string_def ser_seq_def ser_begin_sequence_def ser_value_span_def
        mk_serializer_def varbyte_loop.simps)
  then show ?thesis
    using binary_truncated_input_fails [of "[0x61, 0x62]" "[]" "[]" "[]" "[0x62]" "[2, 0x61]"] by simp
qed

text \<open>
  C16: The type index of a variant field and of an optional variant field is read back as it was written,
  an absent optional as absent, at every width the number of types selects.
\<close>

theorem variant_index_roundtrip:
  assumes "i < n" "n \<le> 2 ^ 63"
  shows "\<exists>bs. ser_begin_field_variant n i (mk_serializer out) = Some (mk_serializer (out @ bs)) \<and>
              des_begin_field_variant n (mk_deserializer (bs @ r)) = Loaded i (mk_deserializer r) \<and>
              (\<exists>bs'. ser_begin_field_opt_variant p n i (mk_serializer out) =
                       Some (mk_serializer (out @ bs')) \<and>
                     des_begin_field_opt_variant n (mk_deserializer (bs' @ r)) =
                       Loaded (if p then Some i else None) (mk_deserializer r))"
proof -
  have "parses (des_begin_field_opt_variant n) (index_bytes n (p, i)) (if p then Some i else None)"
    using assms by (intro parses_opt_variant) simp_all
  from emits_parses_run [OF emits_opt_variant this, of out r]
    emits_parses_run [OF emits_variant parses_variant [OF assms], of out r]
  show ?thesis by blast
qed

theorem variant_index_roundtrip_witness:
  "\<exists>bs. ser_begin_field_variant 300 299 (mk_serializer []) = Some (mk_serializer ([] @ bs)) \<and>
              des_begin_field_variant 300 (mk_deserializer (bs @ [1])) = Loaded 299 (mk_deserializer [1]) \<and>
              (\<exists>bs'. ser_begin_field_opt_variant False 300 299 (mk_serializer []) =
                       Some (mk_serializer ([] @ bs')) \<and>
                     des_begin_field_opt_variant 300 (mk_deserializer (bs' @ [1])) =
                       Loaded (if False then Some 299 else None) (mk_deserializer [1]))"
  by (rule variant_index_roundtrip) simp_all

text \<open>
  C17: The header of a sequence has at most five bytes and carries only the lower 32 bits of the size: a
  string of \<open>n\<close> bytes is announced with \<open>n mod 2 ^ 32\<close> bytes.
\<close>

theorem sequence_header_is_32_bit:
  "\<exists>bs. ser_begin_sequence n (mk_serializer out) = Some (mk_serializer (out @ bs)) \<and> length bs \<le> 5 \<and>
        des_begin_sequence (mk_deserializer (bs @ r)) = Loaded (n mod 2 ^ 32) (mk_deserializer r)"
  using emits_run [OF emits_begin_sequence, of n out] length_varbyte [of "of_nat n"]
    des_begin_sequence_header [of n r] by blast

text \<open>
  C18: A sequence header whose first five bytes all announce another byte makes the deserializer shift a
  32-bit integer by 35 bits, which the language leaves undefined, when it reads the sixth byte.
\<close>

theorem overlong_header_is_undefined:
  assumes "length hs = 5" "list_all (\<lambda>b. b AND 0x80 \<noteq> 0) hs"
  shows "des_begin_sequence (mk_deserializer (hs @ b # r)) = Undefined"
proof -
  from assms(1) obtain h0 h1 h2 h3 h4 where hs: "hs = [h0, h1, h2, h3, h4]"
    by (auto simp: numeral_eq_Suc length_Suc_conv)
  with assms(2) have more: "h0 AND 0x80 \<noteq> 0" "h1 AND 0x80 \<noteq> 0" "h2 AND 0x80 \<noteq> 0"
    "h3 AND 0x80 \<noteq> 0" "h4 AND 0x80 \<noteq> 0" by simp_all
  obtain x1 where "sequence_loop 0 0 (mk_deserializer (h0 # h1 # h2 # h3 # h4 # b # r)) =
      sequence_loop x1 1 (mk_deserializer (h1 # h2 # h3 # h4 # b # r))"
    using sequence_loop_more [OF _ more(1), of 0] by fastforce
  moreover obtain x2 where "\<dots> = sequence_loop x2 2 (mk_deserializer (h2 # h3 # h4 # b # r))"
    using sequence_loop_more [OF _ more(2), of 1] by (fastforce simp: numeral_eq_Suc)
  moreover obtain x3 where "\<dots> = sequence_loop x3 3 (mk_deserializer (h3 # h4 # b # r))"
    using sequence_loop_more [OF _ more(3), of 2] by (fastforce simp: numeral_eq_Suc)
  moreover obtain x4 where "\<dots> = sequence_loop x4 4 (mk_deserializer (h4 # b # r))"
    using sequence_loop_more [OF _ more(4), of 3] by (fastforce simp: numeral_eq_Suc)
  moreover obtain x5 where "\<dots> = sequence_loop x5 5 (mk_deserializer (b # r))"
    using sequence_loop_more [OF _ more(5), of 4] by (fastforce simp: numeral_eq_Suc)
  ultimately show ?thesis
    using sequence_loop_shift [of 5 x5 b r] by (simp add: des_begin_sequence_def hs)
qed

theorem overlong_header_is_undefined_witness:
  "des_begin_sequence (mk_deserializer ([0x80, 0x80, 0x80, 0x80, 0x80] @ 0 # [])) = Undefined"
  by (rule overlong_header_is_undefined) simp_all

end
