(* ===== verification/Octet_Stream.thy ===== *)
theory Octet_Stream
  imports Error_Codes
begin

text \<open>
  The octet stream transport (\<^verbatim>\<open>libcaf_net/caf/net/octet_stream/transport.cpp\<close>): it reads bytes from a
  socket into a buffer, hands them to a protocol layer according to the receive policy the layer has
  configured, and flushes the output of the layer. The record \<open>lower\<close> holds the members that a layer can
  reach through its \<^verbatim>\<open>lower_layer\<close> pointer, with the registration flags of the socket manager; the
  protocol layer is a table of functions on its own state and on \<open>lower\<close>. What the operating system
  returns from read and write is an input of the model.
\<close>

section \<open>Model\<close>

record receive_policy =
  min_size :: nat
  max_size :: nat

definition up_to :: "nat \<Rightarrow> receive_policy" where
  "up_to n = \<lparr>min_size = 1, max_size = n\<rparr>"

definition exactly :: "nat \<Rightarrow> receive_policy" where
  "exactly n = \<lparr>min_size = n, max_size = n\<rparr>"

definition between :: "nat \<Rightarrow> nat \<Rightarrow> receive_policy" where
  "between m n = \<lparr>min_size = m, max_size = n\<rparr>"

definition stop :: receive_policy where
  "stop = \<lparr>min_size = 0, max_size = 0\<rparr>"

text \<open>
  The buffered bytes are the first \<^verbatim>\<open>buffered_\<close> bytes of \<^verbatim>\<open>read_buf_\<close>; \<open>read_buf_size\<close> is the size of that
  buffer. \<open>scheduled\<close> counts the calls to \<^verbatim>\<open>handle_buffered_data\<close> that were scheduled on the socket
  manager, \<open>mgr_shutdown\<close> records that its shutdown function was called.
\<close>

record 'u lower =
  min_read_size :: nat
  max_read_size :: nat
  buffered :: bytes
  read_buf_size :: nat
  delta_offset :: nat
  write_buf :: bytes
  max_write_buf_size :: nat
  wanted_read_from_write_event :: bool
  wanted_write_from_read_event :: bool
  shutting_down :: bool
  next_up :: "'u option"
  mgr_reading :: bool
  mgr_writing :: bool
  mgr_shutdown :: bool
  scheduled :: nat

type_synonym 'u layer = "'u \<times> 'u lower"

definition can_send_more :: "'u lower \<Rightarrow> bool" where
  "can_send_more lo \<longleftrightarrow> length (write_buf lo) < max_write_buf_size lo"

definition register_reading :: "'u lower \<Rightarrow> 'u lower" where
  "register_reading lo = lo\<lparr>mgr_reading := True\<rparr>"

definition register_writing :: "'u lower \<Rightarrow> 'u lower" where
  "register_writing lo = lo\<lparr>mgr_writing := True\<rparr>"

definition deregister_reading :: "'u lower \<Rightarrow> 'u lower" where
  "deregister_reading lo = lo\<lparr>mgr_reading := False\<rparr>"

definition deregister_writing :: "'u lower \<Rightarrow> 'u lower" where
  "deregister_writing lo = lo\<lparr>mgr_writing := False\<rparr>"

definition deregister :: "'u lower \<Rightarrow> 'u lower" where
  "deregister lo = lo\<lparr>mgr_reading := False, mgr_writing := False\<rparr>"

definition manager_shutdown :: "'u lower \<Rightarrow> 'u lower" where
  "manager_shutdown lo = lo\<lparr>mgr_shutdown := True\<rparr>"

definition configure_read :: "receive_policy \<Rightarrow> 'u lower \<Rightarrow> 'u lower" where
  "configure_read rd lo =
     (let restarting = (max_size rd > 0 \<and> max_read_size lo = 0);
          lo = lo\<lparr>min_read_size := min_size rd, max_read_size := max_size rd\<rparr>
      in if restarting \<and> \<not> mgr_reading lo
         then if length (buffered lo) > 0 \<and> length (buffered lo) \<ge> min_read_size lo \<and>
                 delta_offset lo < length (buffered lo)
              then lo\<lparr>scheduled := Suc (scheduled lo)\<rparr>
              else register_reading lo
         else if max_read_size lo = 0 then deregister_reading lo
         else lo)"

definition begin_output :: "'u lower \<Rightarrow> 'u lower" where
  "begin_output lo = (if write_buf lo = [] then register_writing lo else lo)"

definition append_output :: "bytes \<Rightarrow> 'u lower \<Rightarrow> 'u lower" where
  "append_output bs lo = lo\<lparr>write_buf := write_buf lo @ bs\<rparr>"

definition is_reading :: "'u lower \<Rightarrow> bool" where
  "is_reading lo \<longleftrightarrow> max_read_size lo > 0"

definition write_later :: "'u lower \<Rightarrow> 'u lower" where
  "write_later lo = register_writing lo"

definition shutdown :: "'u lower \<Rightarrow> 'u lower" where
  "shutdown lo =
     (if write_buf lo = [] then manager_shutdown lo
      else (deregister_reading (configure_read stop lo))\<lparr>shutting_down := True\<rparr>)"

definition switch_protocol :: "'u \<Rightarrow> 'u lower \<Rightarrow> 'u lower" where
  "switch_protocol next lo = lo\<lparr>next_up := Some next\<rparr>"

definition switching_protocol :: "'u lower \<Rightarrow> bool" where
  "switching_protocol lo \<longleftrightarrow> next_up lo \<noteq> None"

text \<open>
  The virtual functions of a protocol layer. \<open>up_consume\<close> gets the buffered bytes and the offset of the
  new ones; since the span it gets is writable, it also returns the bytes.
\<close>

record 'u upper_layer =
  up_start :: "'u layer \<Rightarrow> error \<times> 'u layer"
  up_abort :: "error \<Rightarrow> 'u layer \<Rightarrow> 'u layer"
  up_consume :: "bytes \<Rightarrow> nat \<Rightarrow> 'u layer \<Rightarrow> int \<times> bytes \<times> 'u layer"
  up_prepare_send :: "'u layer \<Rightarrow> 'u layer"
  up_done_sending :: "'u layer \<Rightarrow> bool"
  up_written :: "nat \<Rightarrow> 'u layer \<Rightarrow> 'u layer"

datatype errc = temporary | want_read | want_write | permanent

text \<open>Results of the transport policy: bytes or a byte count, or an error code; zero is end of file.\<close>

datatype read_result = Read bytes | Read_error errc
datatype write_result = Written nat | Write_error errc

record 'u transport =
  low :: "'u lower"
  up :: "'u option"
  reads :: "read_result list"
  writes :: "write_result list"

definition on_lower :: "('u lower \<Rightarrow> 'u lower) \<Rightarrow> 'u transport \<Rightarrow> 'u transport" where
  "on_lower f t = t\<lparr>low := f (low t)\<rparr>"

text \<open>Calling the layer; \<^term>\<open>None\<close> if it was reset before.\<close>

definition call_up :: "('u layer \<Rightarrow> 'u layer) \<Rightarrow> 'u transport \<Rightarrow> 'u transport option" where
  "call_up f t = (case up t of None \<Rightarrow> None | Some u \<Rightarrow>
     (case f (u, low t) of (u', lo') \<Rightarrow> Some (t\<lparr>up := Some u', low := lo'\<rparr>)))"

definition fail :: "'u upper_layer \<Rightarrow> error \<Rightarrow> 'u transport \<Rightarrow> 'u transport option" where
  "fail vt reason t =
     Option.bind (call_up (up_abort vt reason) t)
       (\<lambda>t. Some (on_lower (manager_shutdown \<circ> deregister) (t\<lparr>up := None\<rparr>)))"

definition transport_start :: "'u upper_layer \<Rightarrow> nat \<Rightarrow> 'u transport \<Rightarrow> (error \<times> 'u transport) option" where
  "transport_start vt socket_buf_size t = (case up t of None \<Rightarrow> None | Some u \<Rightarrow>
     (case up_start vt (u, (low t)\<lparr>max_write_buf_size := socket_buf_size\<rparr>) of
        (err, u', lo') \<Rightarrow> Some (err, t\<lparr>up := Some u', low := lo'\<rparr>)))"

definition transport_abort :: "'u upper_layer \<Rightarrow> error \<Rightarrow> 'u transport \<Rightarrow> 'u transport option" where
  "transport_abort vt reason t =
     Option.bind (call_up (up_abort vt reason) t)
       (\<lambda>t. Some (on_lower (\<lambda>lo. lo\<lparr>shutting_down := True\<rparr>) t))"

definition finalized :: "'u transport \<Rightarrow> bool" where
  "finalized t \<longleftrightarrow> write_buf (low t) = []"

text \<open>The local function of \<^verbatim>\<open>handle_buffered_data\<close>; the flag says whether the new layer has started.\<close>

definition switch_to_next_protocol :: "'u upper_layer \<Rightarrow> 'u transport \<Rightarrow> (bool \<times> 'u transport) option" where
  "switch_to_next_protocol vt t = (case next_up (low t) of None \<Rightarrow> None | Some u \<Rightarrow>
     let lo1 = (configure_read stop (low t))\<lparr>next_up := None\<rparr> in
     (case up_start vt (u, lo1) of (err, u', lo2) \<Rightarrow>
        if err \<noteq> no_error
        then Some (False, t\<lparr>up := None, low := manager_shutdown (deregister lo2)\<rparr>)
        else Some (True, t\<lparr>up := Some u', low := lo2\<rparr>)))"

text \<open>
  One iteration of the loop of \<^verbatim>\<open>handle_buffered_data\<close>; the flag says whether the loop continues.
  \<^term>\<open>None\<close> is an access to a layer that was reset or a \<^verbatim>\<open>subspan\<close> out of range.
\<close>

definition consume_once :: "'u upper_layer \<Rightarrow> 'u transport \<Rightarrow> (bool \<times> 'u transport) option" where
  "consume_once vt t = (case up t of None \<Rightarrow> None | Some u \<Rightarrow>
     (let all = buffered (low t);
          n = min (length all) (max_read_size (low t))
      in if n < delta_offset (low t) then None
         else case up_consume vt (take n all) (delta_offset (low t)) (u, low t) of
           (consumed, bytes, u', lo') \<Rightarrow>
             let t1 = t\<lparr>up := Some u', low := lo'\<lparr>buffered := bytes @ drop n all\<rparr>\<rparr>
             in if consumed < 0
                then Option.bind (call_up (up_abort vt (sec_error runtime_error)) t1)
                       (\<lambda>t2. Some (False, on_lower deregister_reading t2))
                else if n < nat consumed
                then Option.bind (call_up (up_abort vt (sec_error logic_error)) t1)
                       (\<lambda>t2. Some (False, on_lower deregister_reading t2))
                else if consumed = 0
                then if switching_protocol (low t1) then switch_to_next_protocol vt t1
                     else let t2 = on_lower (\<lambda>lo. lo\<lparr>delta_offset := n\<rparr>) t1
                          in Some (n \<noteq> min (length (buffered (low t2))) (max_read_size (low t2)), t2)
                else Option.bind
                       (if switching_protocol (low t1) then switch_to_next_protocol vt t1 else Some (True, t1))
                       (\<lambda>(ok, t2). if \<not> ok then Some (False, t2)
                          else Some (True, on_lower (\<lambda>lo. lo\<lparr>buffered := drop (nat consumed) (buffered lo),
                                                       delta_offset := 0\<rparr>) t2))))"

partial_function (option) handle_buffered_data :: "'u upper_layer \<Rightarrow> 'u transport \<Rightarrow> 'u transport option" where
  "handle_buffered_data vt t =
     (if mgr_reading (low t) \<and> max_read_size (low t) > 0 \<and>
         length (buffered (low t)) \<ge> min_read_size (low t)
      then Option.bind (consume_once vt t)
             (\<lambda>r. if fst r then handle_buffered_data vt (snd r) else Some (snd r))
      else Some t)"

text \<open>
  The function that \<^verbatim>\<open>configure_read\<close> schedules when the buffer already has enough data, and the socket manager
  running the scheduled functions.
\<close>

definition scheduled_fn :: "'u upper_layer \<Rightarrow> 'u transport \<Rightarrow> 'u transport option" where
  "scheduled_fn vt t = handle_buffered_data vt (on_lower register_reading t)"

partial_function (option) run_scheduled :: "'u upper_layer \<Rightarrow> 'u transport \<Rightarrow> 'u transport option" where
  "run_scheduled vt t =
     (if scheduled (low t) = 0 then Some t
      else Option.bind (scheduled_fn vt (on_lower (\<lambda>lo. lo\<lparr>scheduled := scheduled lo - 1\<rparr>) t))
             (run_scheduled vt))"

text \<open>
  \<^verbatim>\<open>handle_read_event\<close> after its prologue: the read buffer grows to the maximal read size, and the result of
  the policy is appended. (A policy without an internal buffer, as the default one, returns 0 from
  \<^verbatim>\<open>buffered()\<close>, so there is no second read.)
\<close>

definition read_body :: "'u upper_layer \<Rightarrow> 'u transport \<Rightarrow> 'u transport option" where
  "read_body vt t =
     (let t = on_lower (\<lambda>lo. lo\<lparr>read_buf_size := max (read_buf_size lo) (max_read_size lo)\<rparr>) t;
          rd = (case reads t of [] \<Rightarrow> Read_error temporary | r # _ \<Rightarrow> r);
          t = t\<lparr>reads := tl (reads t)\<rparr>
      in case rd of
           Read_error temporary \<Rightarrow> Some t
         | Read_error want_read \<Rightarrow> Some t
         | Read_error want_write \<Rightarrow>
             Some (on_lower (\<lambda>lo. deregister_reading (register_writing
               (lo\<lparr>wanted_write_from_read_event := True\<rparr>))) t)
         | Read_error permanent \<Rightarrow> fail vt (sec_error socket_operation_failed) t
         | Read [] \<Rightarrow> fail vt (sec_error socket_disconnected) t
         | Read bs \<Rightarrow> handle_buffered_data vt (on_lower (\<lambda>lo. lo\<lparr>buffered := buffered lo @ bs\<rparr>) t))"

text \<open>\<^verbatim>\<open>handle_write_event\<close> after its prologue.\<close>

definition write_body :: "'u upper_layer \<Rightarrow> 'u transport \<Rightarrow> 'u transport option" where
  "write_body vt t =
     (if shutting_down (low t) \<and> write_buf (low t) = [] then Some (on_lower manager_shutdown t)
      else Option.bind
        (if \<not> shutting_down (low t) \<and> can_send_more (low t) then call_up (up_prepare_send vt) t else Some t)
        (\<lambda>t. let wr = (case writes t of [] \<Rightarrow> Write_error temporary | w # _ \<Rightarrow> w);
                 t = t\<lparr>writes := tl (writes t)\<rparr>
             in case wr of
                  Write_error temporary \<Rightarrow> Some t
                | Write_error want_write \<Rightarrow> Some t
                | Write_error want_read \<Rightarrow>
                    Some (on_lower (\<lambda>lo. deregister_writing (register_reading
                      (lo\<lparr>wanted_read_from_write_event := True\<rparr>))) t)
                | Write_error permanent \<Rightarrow> fail vt (sec_error socket_operation_failed) t
                | Written n \<Rightarrow>
                    if n = 0 then fail vt (sec_error socket_disconnected) t
                    else Option.bind
                      (call_up (up_written vt n) (on_lower (\<lambda>lo. lo\<lparr>write_buf := drop n (write_buf lo)\<rparr>) t))
                      (\<lambda>t. case up t of None \<Rightarrow> None | Some u \<Rightarrow>
                         Some (if write_buf (low t) = [] \<and> up_done_sending vt (u, low t)
                               then if \<not> shutting_down (low t) then on_lower deregister_writing t
                                    else on_lower manager_shutdown t
                               else t))))"

text \<open>
  The two event handlers call each other when a previous call had to wait for the opposite event. A
  handler clears its flag before the call, so at most two nested calls happen. After a failed handler the
  layer is reset and the registration flags tell the caller to stop.
\<close>

definition flags_set :: "'u transport \<Rightarrow> nat" where
  "flags_set t = of_bool (wanted_read_from_write_event (low t)) + of_bool (wanted_write_from_read_event (low t))"

function handle_read_event :: "'u upper_layer \<Rightarrow> 'u transport \<Rightarrow> 'u transport option"
  and handle_write_event :: "'u upper_layer \<Rightarrow> 'u transport \<Rightarrow> 'u transport option" where
  "handle_read_event vt t =
     (if wanted_read_from_write_event (low t)
      then Option.bind
        (handle_write_event vt
          (on_lower (\<lambda>lo. register_writing (lo\<lparr>wanted_read_from_write_event := False\<rparr>)) t))
        (\<lambda>t. if \<not> mgr_reading (low t) then Some t
             else if max_read_size (low t) = 0
             then Some (if \<not> wanted_read_from_write_event (low t) then on_lower deregister_reading t else t)
             else read_body vt t)
      else read_body vt t)"
| "handle_write_event vt t =
     (if wanted_write_from_read_event (low t)
      then Option.bind
        (handle_read_event vt
          (on_lower (\<lambda>lo. register_writing (lo\<lparr>wanted_write_from_read_event := False\<rparr>)) t))
        (\<lambda>t. if \<not> mgr_writing (low t) then Some t else write_body vt t)
      else write_body vt t)"
  by pat_completeness auto
termination
  by (relation "measure (\<lambda>x. case x of Inl (vt, t) \<Rightarrow> flags_set t | Inr (vt, t) \<Rightarrow> flags_set t)")
    (auto simp: flags_set_def on_lower_def register_writing_def)

declare handle_read_event.simps [simp del] handle_write_event.simps [simp del]

end
