(* ===== verification/Spsc_Buffer.thy ===== *)
theory Spsc_Buffer
  imports Error_Codes
begin

text \<open>
  The single-producer single-consumer buffer (\<^verbatim>\<open>libcaf_core/caf/async/spsc_buffer.hpp\<close>). Every operation
  that holds the mutex from start to end is one function on the state; \<^verbatim>\<open>pull_unsafe\<close> gives up the lock
  while it passes a batch to the observer, so it is split into the sections it executes under the lock, and
  the step relation \<open>spsc_step\<close> interleaves them with the operations of the producer. Callbacks on producer,
  consumer and observer are recorded in the order in which they happen.
\<close>

section \<open>Model\<close>

datatype 'a callback =
    On_consumer_ready | On_consumer_demand nat | On_consumer_cancel
  | On_producer_ready | On_producer_wakeup
  | On_next 'a | On_complete | On_error error

record 'a spsc_buffer =
  items :: "'a list"
  capacity :: nat
  min_pull_size :: nat
  demand :: nat
  closed :: bool
  canceled :: bool
  err :: error
  consumer :: bool
  producer :: bool
  callbacks :: "'a callback list"

definition mk_spsc_buffer :: "nat \<Rightarrow> nat \<Rightarrow> 'a spsc_buffer" where
  "mk_spsc_buffer cap mps =
     \<lparr>items = [], capacity = cap, min_pull_size = mps, demand = 0, closed = False, canceled = False,
      err = no_error, consumer = False, producer = False, callbacks = []\<rparr>"

definition notify :: "'a callback \<Rightarrow> 'a spsc_buffer \<Rightarrow> 'a spsc_buffer" where
  "notify c s = s\<lparr>callbacks := callbacks s @ [c]\<rparr>"

definition signal_demand :: "nat \<Rightarrow> 'a spsc_buffer \<Rightarrow> 'a spsc_buffer" where
  "signal_demand new_demand s =
     (let s = s\<lparr>demand := demand s + new_demand\<rparr>
      in if demand s \<ge> min_pull_size s \<and> producer s
         then (notify (On_consumer_demand (demand s)) s)\<lparr>demand := 0\<rparr>
         else s)"

definition ready :: "'a spsc_buffer \<Rightarrow> 'a spsc_buffer" where
  "ready s =
     (let s = notify On_producer_ready (notify On_consumer_ready s)
      in if items s \<noteq> []
         then let s = notify On_producer_wakeup s
              in if capacity s > length (items s) then signal_demand (capacity s - length (items s)) s else s
         else signal_demand (capacity s) s)"

definition push :: "'a list \<Rightarrow> 'a spsc_buffer \<Rightarrow> nat \<times> 'a spsc_buffer" where
  "push xs s =
     (let s = s\<lparr>items := items s @ xs\<rparr>;
          s = (if length (items s) = length xs \<and> consumer s then notify On_producer_wakeup s else s)
      in (if capacity s > length (items s) then capacity s - length (items s) else 0, s))"

definition has_data :: "'a spsc_buffer \<Rightarrow> bool" where
  "has_data s \<longleftrightarrow> items s \<noteq> []"

definition has_consumer_event :: "'a spsc_buffer \<Rightarrow> bool" where
  "has_consumer_event s \<longleftrightarrow> items s \<noteq> [] \<or> closed s"

definition available :: "'a spsc_buffer \<Rightarrow> nat" where
  "available s = length (items s)"

definition abort_reason :: "'a spsc_buffer \<Rightarrow> error" where
  "abort_reason s = err s"

definition abort :: "error \<Rightarrow> 'a spsc_buffer \<Rightarrow> 'a spsc_buffer" where
  "abort reason s =
     (if closed s then s
      else let s = s\<lparr>closed := True, err := reason, producer := False\<rparr>
           in if items s = [] \<and> consumer s then notify On_producer_wakeup s else s)"

definition close :: "'a spsc_buffer \<Rightarrow> 'a spsc_buffer" where
  "close s = abort no_error s"

definition cancel :: "'a spsc_buffer \<Rightarrow> 'a spsc_buffer" where
  "cancel s =
     (if canceled s then s
      else let s = s\<lparr>canceled := True, consumer := False\<rparr>
           in if producer s then notify On_consumer_cancel s else s)"

text \<open>Setting a second consumer or producer raises an exception (\<^term>\<open>None\<close>).\<close>

definition set_consumer :: "'a spsc_buffer \<Rightarrow> 'a spsc_buffer option" where
  "set_consumer s =
     (if consumer s then None
      else let s = s\<lparr>consumer := True\<rparr>
           in Some (if producer s then ready s else if closed s then notify On_producer_wakeup s else s))"

definition set_producer :: "'a spsc_buffer \<Rightarrow> 'a spsc_buffer option" where
  "set_producer s =
     (if producer s then None
      else let s = s\<lparr>producer := True\<rparr>
           in Some (if consumer s then ready s else if canceled s then notify On_consumer_cancel s else s))"

datatype error_policy = prioritize_errors | delay_errors

text \<open>
  The part of \<^verbatim>\<open>pull_unsafe\<close> between acquiring the lock (or entering the function) and releasing it: either a
  batch has been taken out of the buffer and is about to be passed to the observer, or the call returns with
  a flag that says whether the consumer may pull again.
\<close>

datatype 'a section_result = Batch "'a list" | Return bool

definition overflow :: "'a spsc_buffer \<Rightarrow> nat" where
  "overflow s = (if length (items s) \<le> capacity s then 0 else length (items s) - capacity s)"

definition pull_section :: "nat \<Rightarrow> 'a spsc_buffer \<Rightarrow> 'a section_result \<times> 'a spsc_buffer" where
  "pull_section d s =
     (let n = min d (length (items s)) in
      if n > 0
      then let s' = s\<lparr>items := drop n (items s)\<rparr>
           in (Batch (take n (items s)), if n > overflow s then signal_demand (n - overflow s) s' else s')
      else if items s \<noteq> [] \<or> \<not> closed s then (Return True, s)
      else (Return False,
            notify (if err s = no_error then On_complete else On_error (err s)) (s\<lparr>consumer := False\<rparr>)))"

definition pull_enter :: "error_policy \<Rightarrow> nat \<Rightarrow> 'a spsc_buffer \<Rightarrow> 'a section_result \<times> 'a spsc_buffer" where
  "pull_enter policy d s =
     (if policy = prioritize_errors \<and> err s \<noteq> no_error
      then (Return False, notify (On_error (err s)) (s\<lparr>consumer := False\<rparr>))
      else pull_section d s)"

definition deliver :: "'a list \<Rightarrow> 'a spsc_buffer \<Rightarrow> 'a spsc_buffer" where
  "deliver xs s = s\<lparr>callbacks := callbacks s @ map On_next xs\<rparr>"

text \<open>The loop of a call when no other thread acquires the lock in between.\<close>

function pull_loop :: "nat \<Rightarrow> nat \<Rightarrow> 'a spsc_buffer \<Rightarrow> (bool \<times> nat) \<times> 'a spsc_buffer" where
  "pull_loop d consumed s =
     (case pull_section d s of
        (Return again, s') \<Rightarrow> ((again, consumed), s')
      | (Batch xs, s') \<Rightarrow> pull_loop (d - length xs) (consumed + length xs) (deliver xs s'))"
  by pat_completeness auto
termination
  by (relation "measure fst") (auto simp: pull_section_def Let_def split: if_splits)

declare pull_loop.simps [simp del]

definition pull :: "error_policy \<Rightarrow> nat \<Rightarrow> 'a spsc_buffer \<Rightarrow> (bool \<times> nat) \<times> 'a spsc_buffer" where
  "pull policy d s =
     (case pull_enter policy d s of
        (Return again, s') \<Rightarrow> ((again, 0), s')
      | (Batch xs, s') \<Rightarrow> pull_loop (d - length xs) (length xs) (deliver xs s'))"

text \<open>
  A resource gives access to the buffer to the first caller of \<^verbatim>\<open>try_open\<close> only; \<^term>\<open>None\<close> is the null
  pointer. Destroying an unopened resource aborts or cancels the buffer.
\<close>

definition try_open :: "'b option \<Rightarrow> 'b option \<times> 'b option" where
  "try_open ctrl = (ctrl, None)"

definition destroy_producer_resource :: "unit option \<Rightarrow> 'a spsc_buffer \<Rightarrow> 'a spsc_buffer" where
  "destroy_producer_resource ctrl s = (if ctrl \<noteq> None then abort (sec_error disposed) s else s)"

definition destroy_consumer_resource :: "unit option \<Rightarrow> 'a spsc_buffer \<Rightarrow> 'a spsc_buffer" where
  "destroy_consumer_resource ctrl s = (if ctrl \<noteq> None then cancel s else s)"

text \<open>
  The concurrent system: the buffer, the state of the consumer's pull (idle, or passing a batch to the
  observer without the lock, with the demand that remains after it), the two resources, and as a history the
  items pushed so far. The capacity is a soft bound: the producer may push more than the consumer asked for,
  also before a consumer is connected. Whether it always kept within the demand it was told about is recorded
  in \<open>within\<close>.
\<close>

datatype 'a pull_state = Idle | Delivering "'a list" nat

record 'a spsc_sys =
  shared :: "'a spsc_buffer"
  pc :: "'a pull_state"
  consumer_res :: "unit option"
  producer_res :: "unit option"
  pushed :: "'a list"
  within :: bool

fun nexts :: "'a callback list \<Rightarrow> 'a list" where
  "nexts [] = []"
| "nexts (On_next x # cs) = x # nexts cs"
| "nexts (_ # cs) = nexts cs"

fun signalled :: "'a callback list \<Rightarrow> nat" where
  "signalled [] = 0"
| "signalled (On_consumer_demand n # cs) = n + signalled cs"
| "signalled (_ # cs) = signalled cs"

definition pc_after :: "nat \<Rightarrow> 'a section_result \<Rightarrow> 'a pull_state" where
  "pc_after d r = (case r of Batch xs \<Rightarrow> Delivering xs (d - length xs) | Return _ \<Rightarrow> Idle)"

definition init_spsc :: "nat \<Rightarrow> nat \<Rightarrow> 'a spsc_sys" where
  "init_spsc cap mps =
     \<lparr>shared = mk_spsc_buffer cap mps, pc = Idle, consumer_res = Some (), producer_res = Some (), pushed = [],
      within = True\<rparr>"

inductive spsc_step :: "'a spsc_sys \<Rightarrow> 'a spsc_sys \<Rightarrow> bool" where
  open_consumer:
    "try_open (consumer_res S) = (Some b, r) \<Longrightarrow> set_consumer (shared S) = Some s' \<Longrightarrow>
     spsc_step S (S\<lparr>shared := s', consumer_res := r\<rparr>)"
| open_producer:
    "try_open (producer_res S) = (Some b, r) \<Longrightarrow> set_producer (shared S) = Some s' \<Longrightarrow>
     spsc_step S (S\<lparr>shared := s', producer_res := r\<rparr>)"
| drop_consumer:
    "spsc_step S (S\<lparr>shared := destroy_consumer_resource (consumer_res S) (shared S), consumer_res := None\<rparr>)"
| drop_producer:
    "spsc_step S (S\<lparr>shared := destroy_producer_resource (producer_res S) (shared S), producer_res := None\<rparr>)"
| push_items:
    "producer (shared S) \<Longrightarrow> \<not> closed (shared S) \<Longrightarrow>
     spsc_step S (S\<lparr>shared := snd (push xs (shared S)), pushed := pushed S @ xs,
       within := (within S \<and> length (pushed S) + length xs \<le> signalled (callbacks (shared S)))\<rparr>)"
| abort_buffer:
    "producer (shared S) \<Longrightarrow> spsc_step S (S\<lparr>shared := abort reason (shared S)\<rparr>)"
| cancel_buffer:
    "consumer (shared S) \<Longrightarrow> spsc_step S (S\<lparr>shared := cancel (shared S)\<rparr>)"
| pull_start:
    "pc S = Idle \<Longrightarrow> consumer (shared S) \<Longrightarrow> pull_enter policy d (shared S) = (r, s') \<Longrightarrow>
     spsc_step S (S\<lparr>shared := s', pc := pc_after d r\<rparr>)"
| pull_continue:
    "pc S = Delivering xs d \<Longrightarrow> pull_section d (deliver xs (shared S)) = (r, s') \<Longrightarrow>
     spsc_step S (S\<lparr>shared := s', pc := pc_after d r\<rparr>)"

inductive spsc_reachable :: "nat \<Rightarrow> nat \<Rightarrow> 'a spsc_sys \<Rightarrow> bool" for cap mps where
  initial: "spsc_reachable cap mps (init_spsc cap mps)"
| step: "spsc_reachable cap mps S \<Longrightarrow> spsc_step S S' \<Longrightarrow> spsc_reachable cap mps S'"

inductive_cases spsc_stepE: "spsc_step S S'"

section \<open>Pushing\<close>

lemma push_items [simp]:
  "items (snd (push xs q)) = items q @ xs" "capacity (snd (push xs q)) = capacity q"
  by (simp_all add: push_def Let_def notify_def)

lemma push_result: "fst (push xs q) = capacity q - (length (items q) + length xs)"
  by (auto simp: push_def Let_def notify_def)

section \<open>Histories\<close>

lemma nexts_append [simp]: "nexts (cs @ ds) = nexts cs @ nexts ds"
  by (induction cs rule: nexts.induct) simp_all

lemma signalled_append [simp]: "signalled (cs @ ds) = signalled cs + signalled ds"
  by (induction cs rule: signalled.induct) simp_all

lemma nexts_map [simp]: "nexts (map On_next xs) = xs"
  by (induction xs) simp_all

lemma signalled_map [simp]: "signalled (map On_next xs) = 0"
  by (induction xs) simp_all

lemma On_complete_map [simp]:
  "On_complete \<notin> On_next ` A" "On_consumer_ready \<notin> On_next ` A"
  by auto

fun in_flight :: "'a pull_state \<Rightarrow> 'a list" where
  "in_flight Idle = []"
| "in_flight (Delivering xs d) = xs"

lemmas op_defs = push_def abort_def cancel_def set_consumer_def set_producer_def ready_def
  signal_demand_def notify_def deliver_def destroy_consumer_resource_def destroy_producer_resource_def
  Let_def

section \<open>Invariants\<close>

definition order_inv :: "'a spsc_sys \<Rightarrow> bool" where
  "order_inv S \<longleftrightarrow>
     pushed S = nexts (callbacks (shared S)) @ in_flight (pc S) @ items (shared S)"

lemma pull_section_order:
  assumes "pull_section d s = (r, s')"
  shows "nexts (callbacks s') @ in_flight (pc_after d r) @ items s' = nexts (callbacks s) @ items s"
  using assms by (auto simp: pull_section_def pc_after_def op_defs split: if_splits)

lemma pull_enter_order:
  assumes "pull_enter policy d s = (r, s')"
  shows "nexts (callbacks s') @ in_flight (pc_after d r) @ items s' = nexts (callbacks s) @ items s"
  using assms pull_section_order [of d s r s']
  by (auto simp: pull_enter_def pc_after_def notify_def split: if_splits)

lemma order_inv_step: "spsc_step S S' \<Longrightarrow> order_inv S \<Longrightarrow> order_inv S'"
proof (induction rule: spsc_step.induct)
  case (pull_start S policy d r s')
  then show ?case using pull_enter_order [OF pull_start(3)] by (simp add: order_inv_def)
next
  case (pull_continue S xs d r s')
  then show ?case using pull_section_order [OF pull_continue(2)]
    by (simp add: order_inv_def deliver_def)
qed (auto simp: order_inv_def op_defs split: if_splits)

definition readied :: "'a spsc_buffer \<Rightarrow> bool" where
  "readied s \<longleftrightarrow> On_consumer_ready \<in> set (callbacks s)"

definition handle_inv :: "'a spsc_sys \<Rightarrow> bool" where
  "handle_inv S \<longleftrightarrow>
     (let s = shared S in
      (consumer s \<longrightarrow> consumer_res S = None) \<and> (producer s \<longrightarrow> producer_res S = None) \<and>
      (closed s \<longrightarrow> producer_res S = None \<and> \<not> producer s) \<and>
      (readied s \<longrightarrow> consumer_res S = None \<and> producer_res S = None) \<and>
      (pc S \<noteq> Idle \<longrightarrow> consumer_res S = None))"

text \<open>As long as producer and consumer have not met, no demand has been collected.\<close>

definition fresh_inv :: "'a spsc_sys \<Rightarrow> bool" where
  "fresh_inv S \<longleftrightarrow>
     (let s = shared S in
      \<not> readied s \<and> (producer s \<or> producer_res S \<noteq> None) \<longrightarrow>
        demand s = 0 \<and> pc S = Idle \<and> \<not> (consumer s \<and> producer s) \<and> (producer_res S \<noteq> None \<longrightarrow> items s = []))"

definition bound_inv :: "'a spsc_sys \<Rightarrow> bool" where
  "bound_inv S \<longleftrightarrow>
     (let s = shared S in
      within S \<longrightarrow>
      length (pushed S) \<le> signalled (callbacks s) \<and>
      (if readied s
       then signalled (callbacks s) + demand s + length (items s) = capacity s + length (pushed S)
       else signalled (callbacks s) = 0 \<and> demand s = 0 \<and> items s = [] \<and> pc S = Idle))"

definition demand_inv :: "'a spsc_sys \<Rightarrow> bool" where
  "demand_inv S \<longleftrightarrow> (let s = shared S in producer s \<and> 0 < min_pull_size s \<longrightarrow> demand s < min_pull_size s)"

definition complete_inv :: "'a spsc_sys \<Rightarrow> bool" where
  "complete_inv S \<longleftrightarrow>
     (let s = shared S in
      On_complete \<in> set (callbacks s) \<longrightarrow> closed s \<and> items s = [] \<and> pc S = Idle \<and> \<not> consumer s \<and> consumer_res S = None)"

lemmas inv_defs = handle_inv_def fresh_inv_def bound_inv_def demand_inv_def complete_inv_def try_open_def

lemma readied_signal [simp]:
  "On_consumer_ready \<in> set (callbacks (signal_demand n s)) \<longleftrightarrow> On_consumer_ready \<in> set (callbacks s)"
  "On_complete \<in> set (callbacks (signal_demand n s)) \<longleftrightarrow> On_complete \<in> set (callbacks s)"
  by (auto simp: op_defs)

lemma signal_demand_simps [simp]:
  "items (signal_demand n s) = items s" "consumer (signal_demand n s) = consumer s"
  "producer (signal_demand n s) = producer s" "closed (signal_demand n s) = closed s"
  "capacity (signal_demand n s) = capacity s" "min_pull_size (signal_demand n s) = min_pull_size s"
  "signalled (callbacks (signal_demand n s)) + demand (signal_demand n s) =
     signalled (callbacks s) + demand s + n"
  "producer s \<Longrightarrow> 0 < min_pull_size s \<Longrightarrow> demand (signal_demand n s) < min_pull_size s"
  by (auto simp: op_defs)

lemma signalled_mono [simp]: "signalled (callbacks s) \<le> signalled (callbacks (signal_demand n s))"
  by (auto simp: op_defs)

lemma signal_demand_items [simp]:
  "signalled (callbacks s) \<le> signalled (callbacks (signal_demand n (s\<lparr>items := xs\<rparr>)))"
  "producer s \<Longrightarrow> 0 < min_pull_size s \<Longrightarrow> demand (signal_demand n (s\<lparr>items := xs\<rparr>)) < min_pull_size s"
  by (auto simp: op_defs)

lemma pull_section_frame:
  assumes "pull_section d s = (r, s')"
  shows "producer s' = producer s" "closed s' = closed s" "capacity s' = capacity s"
    "min_pull_size s' = min_pull_size s" "consumer s' \<Longrightarrow> consumer s" "readied s' = readied s"
    "signalled (callbacks s) \<le> signalled (callbacks s')"
    "length (items s) \<le> capacity s \<Longrightarrow>
      signalled (callbacks s') + demand s' + length (items s') = signalled (callbacks s) + demand s + length (items s)"
    "producer s \<Longrightarrow> 0 < min_pull_size s \<Longrightarrow> demand s < min_pull_size s \<Longrightarrow> demand s' < min_pull_size s"
    "On_complete \<in> set (callbacks s') \<Longrightarrow> On_complete \<notin> set (callbacks s) \<Longrightarrow>
       closed s \<and> items s' = [] \<and> \<not> consumer s' \<and> r = Return False"
    "items s = [] \<Longrightarrow> pc_after d r = Idle \<and> items s' = [] \<and> demand s' = demand s \<and>
       signalled (callbacks s') = signalled (callbacks s)"
  using assms
  by (auto simp: pull_section_def overflow_def readied_def notify_def pc_after_def Let_def split: if_splits)

lemma pull_enter_frame:
  assumes "pull_enter policy d s = (r, s')"
  shows "producer s' = producer s" "closed s' = closed s" "capacity s' = capacity s"
    "min_pull_size s' = min_pull_size s" "consumer s' \<Longrightarrow> consumer s" "readied s' = readied s"
    "signalled (callbacks s) \<le> signalled (callbacks s')"
    "length (items s) \<le> capacity s \<Longrightarrow>
      signalled (callbacks s') + demand s' + length (items s') = signalled (callbacks s) + demand s + length (items s)"
    "producer s \<Longrightarrow> 0 < min_pull_size s \<Longrightarrow> demand s < min_pull_size s \<Longrightarrow> demand s' < min_pull_size s"
    "On_complete \<in> set (callbacks s') \<Longrightarrow> On_complete \<notin> set (callbacks s) \<Longrightarrow>
       closed s \<and> items s' = [] \<and> \<not> consumer s' \<and> r = Return False"
    "items s = [] \<Longrightarrow> pc_after d r = Idle \<and> items s' = [] \<and> demand s' = demand s \<and>
       signalled (callbacks s') = signalled (callbacks s)"
  using assms pull_section_frame [of d s r s']
  by (auto simp: pull_enter_def readied_def notify_def pc_after_def split: if_splits)

definition spsc_inv :: "'a spsc_sys \<Rightarrow> bool" where
  "spsc_inv S \<longleftrightarrow> order_inv S \<and> handle_inv S \<and> fresh_inv S \<and> bound_inv S \<and> demand_inv S \<and> complete_inv S"

lemma bounded_items: "bound_inv S \<Longrightarrow> within S \<Longrightarrow> length (items (shared S)) \<le> capacity (shared S)"
  by (auto simp: bound_inv_def Let_def split: if_splits)

lemma deliver_simps [simp]:
  "items (deliver xs s) = items s" "demand (deliver xs s) = demand s" "capacity (deliver xs s) = capacity s"
  "min_pull_size (deliver xs s) = min_pull_size s" "closed (deliver xs s) = closed s"
  "producer (deliver xs s) = producer s" "consumer (deliver xs s) = consumer s"
  "signalled (callbacks (deliver xs s)) = signalled (callbacks s)" "readied (deliver xs s) = readied s"
  "On_complete \<in> set (callbacks (deliver xs s)) \<longleftrightarrow> On_complete \<in> set (callbacks s)"
  by (auto simp: deliver_def readied_def)

lemma handle_inv_step: "spsc_step S S' \<Longrightarrow> handle_inv S \<Longrightarrow> handle_inv S'"
proof (induction rule: spsc_step.induct)
  case (pull_start S policy d r s')
  then show ?case using pull_enter_frame [OF pull_start(3)] by (auto simp: handle_inv_def Let_def)
next
  case (pull_continue S xs d r s')
  then show ?case using pull_section_frame [OF pull_continue(2)] by (auto simp: handle_inv_def Let_def)
qed (auto simp: inv_defs readied_def op_defs split: if_splits)

lemma fresh_inv_step: "spsc_step S S' \<Longrightarrow> handle_inv S \<Longrightarrow> fresh_inv S \<Longrightarrow> fresh_inv S'"
proof (induction rule: spsc_step.induct)
  case (pull_start S policy d r s')
  then show ?case using pull_enter_frame [OF pull_start(3)] by (auto simp: inv_defs Let_def)
next
  case (pull_continue S xs d r s')
  then show ?case using pull_section_frame [OF pull_continue(2)] by (auto simp: inv_defs Let_def)
qed (auto simp: inv_defs readied_def op_defs split: if_splits)

lemma bound_inv_step: "spsc_step S S' \<Longrightarrow> handle_inv S \<Longrightarrow> bound_inv S \<Longrightarrow> bound_inv S'"
proof (induction rule: spsc_step.induct)
  case (pull_start S policy d r s')
  then show ?case using pull_enter_frame [OF pull_start(3)] bounded_items [of S]
    by (auto simp: inv_defs Let_def split: if_splits)
next
  case (pull_continue S xs d r s')
  then show ?case using pull_section_frame [OF pull_continue(2)] bounded_items [of S]
    by (auto simp: inv_defs Let_def split: if_splits)
qed (auto simp: inv_defs readied_def op_defs split: if_splits)

lemma demand_inv_step: "spsc_step S S' \<Longrightarrow> fresh_inv S \<Longrightarrow> handle_inv S \<Longrightarrow> demand_inv S \<Longrightarrow> demand_inv S'"
proof (induction rule: spsc_step.induct)
  case (pull_start S policy d r s')
  then show ?case using pull_enter_frame [OF pull_start(3)] by (auto simp: demand_inv_def Let_def)
next
  case (pull_continue S xs d r s')
  then show ?case using pull_section_frame [OF pull_continue(2)] by (auto simp: demand_inv_def Let_def)
qed (auto simp: inv_defs readied_def op_defs split: if_splits)

lemma complete_inv_step: "spsc_step S S' \<Longrightarrow> handle_inv S \<Longrightarrow> complete_inv S \<Longrightarrow> complete_inv S'"
proof (induction rule: spsc_step.induct)
  case (pull_start S policy d r s')
  then show ?case using pull_enter_frame [OF pull_start(3)]
    by (auto simp: handle_inv_def complete_inv_def Let_def pc_after_def)
next
  case (pull_continue S xs d r s')
  then show ?case using pull_section_frame [OF pull_continue(2)]
    by (auto simp: handle_inv_def complete_inv_def Let_def pc_after_def)
qed (auto simp: inv_defs readied_def op_defs split: if_splits)

lemma spsc_reachable_inv: "spsc_reachable cap mps S \<Longrightarrow>
  spsc_inv S \<and> capacity (shared S) = cap \<and> min_pull_size (shared S) = mps"
proof (induction rule: spsc_reachable.induct)
  case initial
  show ?case
    by (simp add: spsc_inv_def order_inv_def inv_defs readied_def Let_def init_spsc_def mk_spsc_buffer_def)
next
  case (step S S')
  from step.hyps(2) step.IH have "spsc_inv S'"
    by (simp add: spsc_inv_def order_inv_step handle_inv_step fresh_inv_step bound_inv_step demand_inv_step
        complete_inv_step)
  moreover from step.hyps(2) have
    "capacity (shared S') = capacity (shared S) \<and> min_pull_size (shared S') = min_pull_size (shared S)"
  proof (induction rule: spsc_step.induct)
    case (pull_start S policy d r s')
    then show ?case using pull_enter_frame [OF pull_start(3)] by simp
  next
    case (pull_continue S xs d r s')
    then show ?case using pull_section_frame [OF pull_continue(2)] by simp
  qed (auto simp: op_defs split: if_splits)
  ultimately show ?case using step.IH by simp
qed

lemma pull_loop_result:
  "\<exists>s'. pull_loop d c s = ((\<not> (closed s \<and> length (items s) \<le> d), c + min d (length (items s))), s') \<and>
        nexts (callbacks s') = nexts (callbacks s) @ take d (items s) \<and> items s' = drop d (items s) \<and>
        (closed s \<and> length (items s) \<le> d \<longrightarrow>
           \<not> consumer s' \<and> last (callbacks s') = (if err s = no_error then On_complete else On_error (err s)))"
proof (induction d c s rule: pull_loop.induct)
  case (1 d c s)
  show ?case
  proof (cases "min d (length (items s)) > 0")
    case False
    then show ?thesis
      by (subst pull_loop.simps) (auto simp: pull_section_def Let_def notify_def)
  next
    case True
    let ?n = "min d (length (items s))"
    obtain s1 where s1: "pull_section d s = (Batch (take ?n (items s)), s1)"
      using True by (simp add: pull_section_def Let_def)
    have f: "closed s1 = closed s" "items s1 = drop ?n (items s)" "nexts (callbacks s1) = nexts (callbacks s)"
      "err s1 = err s"
      using s1 True by (auto simp: pull_section_def Let_def op_defs split: if_splits)
    show ?thesis
      using 1 [OF s1 [symmetric] refl] True f
      by (subst pull_loop.simps) (auto simp: s1 deliver_def min_def not_le split: if_splits)
  qed
qed

text \<open>
  Two runs of a buffer with capacity 2: in the first one the producer pushes one item, in the second one
  three items at once although the demand was two. The consumer is passing on the first item.
\<close>

definition demo_buffer :: "nat callback list \<Rightarrow> nat list \<Rightarrow> nat spsc_buffer" where
  "demo_buffer cs xs =
     \<lparr>items = xs, capacity = 2, min_pull_size = 1, demand = 0, closed = False, canceled = False,
      err = no_error, consumer = True, producer = True, callbacks = cs\<rparr>"

definition demo_sys :: "nat callback list \<Rightarrow> nat list \<Rightarrow> nat pull_state \<Rightarrow> nat list \<Rightarrow> bool \<Rightarrow> nat spsc_sys" where
  "demo_sys cs xs p ys w =
     \<lparr>shared = demo_buffer cs xs, pc = p, consumer_res = None, producer_res = None, pushed = ys, within = w\<rparr>"

definition demo_run :: "nat spsc_sys" where
  "demo_run = demo_sys [On_consumer_ready, On_producer_ready, On_consumer_demand 2, On_producer_wakeup,
                On_consumer_demand 1] [] (Delivering [5] 0) [5] True"

definition demo_overrun :: "nat spsc_sys" where
  "demo_overrun = demo_sys [On_consumer_ready, On_producer_ready, On_consumer_demand 2, On_producer_wakeup]
                    [6, 7] (Delivering [5] 0) [5, 6, 7] False"

lemma demo_reachable:
  shows demo_run_reachable: "spsc_reachable 2 1 demo_run"
    and demo_overrun_reachable: "spsc_reachable 2 1 demo_overrun"
proof -
  note defs = init_spsc_def mk_spsc_buffer_def op_defs try_open_def demo_sys_def demo_buffer_def
  note pull_defs = pull_enter_def pull_section_def overflow_def pc_after_def
  let ?c = "(init_spsc 2 1)\<lparr>shared := (mk_spsc_buffer 2 1)\<lparr>consumer := True\<rparr>, consumer_res := None\<rparr>"
  have 1: "spsc_reachable 2 1 ?c"
    by (rule spsc_reachable.step [OF spsc_reachable.initial], rule spsc_step.open_consumer [where b = "()"])
      (simp_all add: defs)
  let ?cs = "[On_consumer_ready, On_producer_ready, On_consumer_demand 2]"
  let ?p = "demo_sys ?cs [] Idle [] True"
  have 2: "spsc_reachable 2 1 ?p"
    using spsc_reachable.step [OF 1 spsc_step.open_producer [of ?c "()" None "demo_buffer ?cs []"]]
    by (simp add: defs)
  let ?q = "demo_sys (?cs @ [On_producer_wakeup]) [5] Idle [5] True"
  have 3: "spsc_reachable 2 1 ?q"
    using spsc_reachable.step [OF 2 spsc_step.push_items [of ?p "[5]"]]
    by (simp add: defs)
  show "spsc_reachable 2 1 demo_run"
    using spsc_reachable.step [OF 3 spsc_step.pull_start [of ?q delay_errors 1 "Batch [5]" "shared demo_run"]]
    by (simp add: defs demo_run_def pull_defs)
  let ?r = "demo_sys (?cs @ [On_producer_wakeup]) [5, 6, 7] Idle [5, 6, 7] False"
  have 4: "spsc_reachable 2 1 ?r"
    using spsc_reachable.step [OF 2 spsc_step.push_items [of ?p "[5, 6, 7]"]]
    by (simp add: defs)
  show "spsc_reachable 2 1 demo_overrun"
    using spsc_reachable.step [OF 4 spsc_step.pull_start [of ?r delay_errors 1 "Batch [5]" "shared demo_overrun"]]
    by (simp add: defs demo_overrun_def pull_defs)
qed

text \<open>
  C19: Whatever the interleaving of the producer and the consumer, and also if the producer pushes more than
  the consumer asked for, the items passed to the observer, the batch being passed and the items in the
  buffer are together exactly the pushed items in push order. When the observer has been told that the flow
  is complete, it has received every pushed item.
\<close>

theorem spsc_delivers_in_order:
  assumes "spsc_reachable cap mps S"
  shows "pushed S = nexts (callbacks (shared S)) @ in_flight (pc S) @ items (shared S) \<and>
         (On_complete \<in> set (callbacks (shared S)) \<longrightarrow> nexts (callbacks (shared S)) = pushed S)"
  using spsc_reachable_inv [OF assms]
  by (auto simp: spsc_inv_def order_inv_def complete_inv_def Let_def)

theorem spsc_delivers_in_order_witness:
  "pushed demo_overrun = nexts (callbacks (shared demo_overrun)) @ in_flight (pc demo_overrun) @ items (shared demo_overrun) \<and>
   pushed demo_overrun = [5, 6, 7] \<and> signalled (callbacks (shared demo_overrun)) = 2"
  using spsc_delivers_in_order [OF demo_overrun_reachable]
  by (simp add: demo_overrun_def demo_sys_def demo_buffer_def)

text \<open>
  C20: A producer that has always kept within the signalled demand never fills the buffer beyond its capacity.
  And demand never gets lost: with a minimum pull size between 1 and the capacity, a producer that is
  connected to a consumer with an empty buffer always has demand left to push.
\<close>

theorem spsc_demand_is_bounded_and_live:
  assumes "spsc_reachable cap mps S" "within S"
  shows "length (items (shared S)) \<le> cap \<and>
         (0 < mps \<and> mps \<le> cap \<and> producer (shared S) \<and> On_consumer_ready \<in> set (callbacks (shared S)) \<and>
          items (shared S) = [] \<longrightarrow> length (pushed S) < signalled (callbacks (shared S)))"
  using spsc_reachable_inv [OF assms(1)] bounded_items [of S] assms(2)
  by (auto simp: spsc_inv_def bound_inv_def demand_inv_def readied_def Let_def)

theorem spsc_demand_is_bounded_and_live_witness:
  "length (pushed demo_run) < signalled (callbacks (shared demo_run)) \<and> length (items (shared demo_run)) \<le> 2"
proof -
  have "within demo_run" by (simp add: demo_run_def demo_sys_def)
  with spsc_demand_is_bounded_and_live [OF demo_run_reachable] show ?thesis
    by (simp add: demo_run_def demo_sys_def demo_buffer_def)
qed

text \<open>
  A pull that is not interrupted passes as many items to the observer as the demand and the buffer allow,
  reports their number, and ends the flow exactly if the producer has closed the buffer and no item is left;
  the last callback then is the completion or the error of the producer.
\<close>

theorem pull_delivers_demand:
  "\<exists>s'. pull delay_errors d s =
          ((\<not> (closed s \<and> length (items s) \<le> d), min d (length (items s))), s') \<and>
        nexts (callbacks s') = nexts (callbacks s) @ take d (items s) \<and> items s' = drop d (items s) \<and>
        (closed s \<and> length (items s) \<le> d \<longrightarrow>
           \<not> consumer s' \<and> last (callbacks s') = (if err s = no_error then On_complete else On_error (err s)))"
proof -
  have "pull delay_errors d s = pull_loop d 0 s"
    unfolding pull_def pull_enter_def pull_loop.simps [of d 0 s]
    by (auto split: prod.splits section_result.splits)
  then show ?thesis using pull_loop_result [of d 0 s] by simp
qed

theorem pull_delivers_demand_witness:
  "\<exists>s'. pull delay_errors 5 (snd (push [7, 8 :: nat] (mk_spsc_buffer 4 1))) = ((True, 2), s') \<and>
        nexts (callbacks s') = [7, 8]"
  using pull_delivers_demand [of 5 "snd (push [7, 8 :: nat] (mk_spsc_buffer 4 1))"]
  by (auto simp: push_def mk_spsc_buffer_def Let_def notify_def)

end
