(* ===== verification/Length_Prefix.thy ===== *)
theory Length_Prefix
  imports Octet_Stream Spsc_Buffer Byte_Order
begin

text \<open>
  Length-prefix framing on top of the octet stream transport (\<^verbatim>\<open>libcaf_net/caf/net/lp/framing.cpp\<close>) and the
  flow bridge above it (\<^verbatim>\<open>libcaf_net/caf/internal/lp_flow_bridge.cpp\<close>), which pushes the received messages
  to an SPSC buffer. The main result is end to end: for every way in which the operating system splits the
  byte stream, the application receives exactly the messages that were framed.
\<close>

section \<open>Model\<close>

datatype size_field_type = size_u1 | size_u2 | size_u4 | size_u8

primrec field_size :: "size_field_type \<Rightarrow> nat" where
  "field_size size_u1 = 1"
| "field_size size_u2 = 2"
| "field_size size_u4 = 4"
| "field_size size_u8 = 8"

primrec read_size :: "size_field_type \<Rightarrow> bytes \<Rightarrow> nat" where
  "read_size size_u1 bs = unat (from_bytes bs :: u8)"
| "read_size size_u2 bs = unat (from_network_order (from_bytes bs :: u16))"
| "read_size size_u4 bs = unat (from_network_order (from_bytes bs :: u32))"
| "read_size size_u8 bs = unat (from_network_order (from_bytes bs :: u64))"

primrec size_bytes :: "size_field_type \<Rightarrow> nat \<Rightarrow> bytes" where
  "size_bytes size_u1 n = as_bytes (of_nat n :: u8)"
| "size_bytes size_u2 n = as_bytes (to_network_order (of_nat n :: u16))"
| "size_bytes size_u4 n = as_bytes (to_network_order (of_nat n :: u32))"
| "size_bytes size_u8 n = as_bytes (to_network_order (of_nat n :: u64))"

text \<open>The framing layer; \<open>app\<close> is the state of the layer above it.\<close>

record 'a lp_framing =
  app :: 'a
  size_field :: size_field_type
  message_offset :: nat
  hdr_size :: nat
  max_message_size :: nat

definition mk_lp_framing :: "'a \<Rightarrow> size_field_type \<Rightarrow> nat \<Rightarrow> 'a lp_framing" where
  "mk_lp_framing a sf mms =
     \<lparr>app = a, size_field = sf, message_offset = 0, hdr_size = field_size sf, max_message_size = mms\<rparr>"

type_synonym 'a lp_layer = "'a lp_framing layer"

record 'a lp_upper_layer =
  lp_start :: "'a lp_layer \<Rightarrow> error \<times> 'a lp_layer"
  lp_abort :: "error \<Rightarrow> 'a lp_layer \<Rightarrow> 'a lp_layer"
  lp_consume :: "bytes \<Rightarrow> 'a lp_layer \<Rightarrow> int \<times> 'a lp_layer"
  lp_prepare_send :: "'a lp_layer \<Rightarrow> 'a lp_layer"
  lp_done_sending :: "'a lp_layer \<Rightarrow> bool"

definition suspend_reading :: "'a lp_layer \<Rightarrow> 'a lp_layer" where
  "suspend_reading l = (case l of (f, lo) \<Rightarrow> (f, configure_read stop lo))"

definition request_messages :: "'a lp_layer \<Rightarrow> 'a lp_layer" where
  "request_messages l = (case l of (f, lo) \<Rightarrow>
     (f, if \<not> is_reading lo then configure_read (exactly (hdr_size f)) lo else lo))"

definition begin_message :: "'a lp_layer \<Rightarrow> 'a lp_layer" where
  "begin_message l = (case l of (f, lo) \<Rightarrow>
     let lo = begin_output lo
     in (f\<lparr>message_offset := length (write_buf lo)\<rparr>, append_output (replicate (hdr_size f) 0) lo))"

definition message_append :: "bytes \<Rightarrow> 'a lp_layer \<Rightarrow> 'a lp_layer" where
  "message_append bs l = (case l of (f, lo) \<Rightarrow> (f, append_output bs lo))"

definition end_message :: "'a lp_layer \<Rightarrow> bool \<times> 'a lp_layer" where
  "end_message l = (case l of (f, lo) \<Rightarrow>
     let buf = write_buf lo;
         msg_size = length buf - (message_offset f + hdr_size f)
     in if msg_size > 0 \<and> msg_size > max_message_size f then (False, f, lo)
        else (True, f, lo\<lparr>write_buf := take (message_offset f) buf @ size_bytes (size_field f) msg_size @
                                  drop (message_offset f + hdr_size f) buf\<rparr>))"

definition lp_shutdown :: "'a lp_layer \<Rightarrow> 'a lp_layer" where
  "lp_shutdown l = (case l of (f, lo) \<Rightarrow> (f, shutdown lo))"

definition consume_impl :: "'a lp_upper_layer \<Rightarrow> bytes \<Rightarrow> 'a lp_layer \<Rightarrow> int \<times> 'a lp_layer" where
  "consume_impl au input l = (case l of (f, lo) \<Rightarrow>
     let sz = field_size (size_field f) in
     if length input < sz then (- 1, lp_abort au (sec_error logic_error) (f, lo))
     else if length input = hdr_size f
     then let msg_size = read_size (size_field f) (take sz input)
          in if msg_size = 0 then (- 1, lp_abort au (sec_error logic_error) (f, lo))
             else if msg_size > max_message_size f
             then (- 1, lp_abort au (sec_error protocol_error) (f, lo))
             else (0, f, configure_read (exactly (hdr_size f + msg_size)) lo)
     else let msg_size = read_size (size_field f) (take sz input);
              msg = drop sz input
          in if msg_size = length msg \<and> msg_size + hdr_size f = length input
             then (case lp_consume au msg (f, lo) of (res, f', lo') \<Rightarrow>
                     if res \<ge> 0
                     then (int (length input), f',
                           if is_reading lo' then configure_read (exactly (hdr_size f')) lo' else lo')
                     else (- 1, f', lo'))
             else (- 1, lp_abort au (sec_error protocol_error) (f, lo)))"

text \<open>The function table the transport calls.\<close>

definition lp_vtable :: "'a lp_upper_layer \<Rightarrow> 'a lp_framing upper_layer" where
  "lp_vtable au =
     \<lparr>up_start = lp_start au, up_abort = lp_abort au,
      up_consume = (\<lambda>input delta l. case consume_impl au input l of (res, l') \<Rightarrow> (res, input, l')),
      up_prepare_send = lp_prepare_send au, up_done_sending = lp_done_sending au,
      up_written = (\<lambda>n l. l)\<rparr>"

text \<open>
  The flow bridge: its output is an SPSC buffer of messages, which it shares with the application and gives up
  when it closes it; its input are the messages that the application wants to send (\<^term>\<open>None\<close> once
  canceled).
\<close>

record flow_bridge =
  out :: "bytes spsc_buffer"
  out_open :: bool
  inp :: "bytes list option"

definition bridge_write :: "bytes \<Rightarrow> flow_bridge lp_layer \<Rightarrow> bool \<times> flow_bridge lp_layer" where
  "bridge_write item l = end_message (message_append item (begin_message l))"

definition bridge_consume :: "bytes \<Rightarrow> flow_bridge lp_layer \<Rightarrow> int \<times> flow_bridge lp_layer" where
  "bridge_consume b l = (case l of (f, lo) \<Rightarrow>
     if \<not> out_open (app f) then (- 1, f, lo)
     else case push [b] (out (app f)) of (n, q) \<Rightarrow>
       let l' = (f\<lparr>app := (app f)\<lparr>out := q\<rparr>\<rparr>, lo)
       in (int (length b), if n = 0 then suspend_reading l' else l'))"

definition bridge_abort :: "error \<Rightarrow> flow_bridge lp_layer \<Rightarrow> flow_bridge lp_layer" where
  "bridge_abort reason l = (case l of (f, lo) \<Rightarrow>
     let a = app f;
         a = (if out_open a
              then a\<lparr>out := (if reason \<in> {no_error, sec_error connection_closed,
                                sec_error socket_disconnected, sec_error disposed}
                             then close (out a) else abort reason (out a)), out_open := False\<rparr>
              else a)
     in (f\<lparr>app := a\<lparr>inp := None\<rparr>\<rparr>, lo))"

text \<open>
  The send loop: it writes queued messages while the transport accepts more output; an empty queue means to
  try again later.
\<close>

primrec send_loop :: "bytes list \<Rightarrow> flow_bridge lp_layer \<Rightarrow> flow_bridge lp_layer" where
  "send_loop [] l = l"
| "send_loop (m # ms) l = (case l of (f, lo) \<Rightarrow>
     if \<not> can_send_more lo then l
     else case bridge_write m (f\<lparr>app := (app f)\<lparr>inp := Some ms\<rparr>\<rparr>, lo) of
       (True, l') \<Rightarrow> send_loop ms l'
     | (False, l') \<Rightarrow> lp_shutdown (bridge_abort (sec_error runtime_error) l'))"

definition bridge_prepare_send :: "flow_bridge lp_layer \<Rightarrow> flow_bridge lp_layer" where
  "bridge_prepare_send l = (case inp (app (fst l)) of None \<Rightarrow> l | Some ms \<Rightarrow> send_loop ms l)"

text \<open>
  The bridge asks for the first messages when the buffer signals its initial demand, which happens while it
  starts.
\<close>

definition bridge_upper :: "flow_bridge lp_upper_layer" where
  "bridge_upper =
     \<lparr>lp_start = (\<lambda>l. (no_error, request_messages l)), lp_abort = bridge_abort, lp_consume = bridge_consume,
      lp_prepare_send = bridge_prepare_send,
      lp_done_sending = (\<lambda>l. inp (app (fst l)) = Some [] \<or> inp (app (fst l)) = None)\<rparr>"

section \<open>Frames\<close>

definition frame :: "size_field_type \<Rightarrow> bytes \<Rightarrow> bytes" where
  "frame sf m = size_bytes sf (length m) @ m"

lemma length_size_bytes [simp]: "length (size_bytes sf n) = field_size sf"
  by (cases sf) simp_all

lemma field_size_pos [simp]: "0 < field_size sf"
  by (cases sf) simp_all

lemma field_size_neq [simp]: "field_size sf \<noteq> 0"
  by (cases sf) simp_all

lemma read_size_bytes:
  assumes "n < 2 ^ (8 * field_size sf)"
  shows "read_size sf (size_bytes sf n) = n"
  using assms by (cases sf) (simp_all add: from_to_network_order unat_of_nat take_bit_eq_mod)

lemma take_frame [simp]: "take (field_size sf) (frame sf m @ r) = size_bytes sf (length m)"
  by (simp add: frame_def)

text \<open>What the sender puts into the output buffer of the transport.\<close>

lemma bridge_write_frame:
  assumes "hdr_size f = field_size (size_field f)" "length m \<le> max_message_size f"
  shows "\<exists>f' lo'. bridge_write m (f, lo) = (True, f', lo') \<and>
           write_buf lo' = write_buf lo @ frame (size_field f) m \<and> app f' = app f"
  using assms
  by (auto simp: bridge_write_def begin_message_def message_append_def end_message_def begin_output_def
      append_output_def register_writing_def frame_def Let_def)

section \<open>The receiver\<close>

lemma configure_exactly:
  assumes "0 < max_read_size lo" "0 < k"
  shows "configure_read (exactly k) lo = lo\<lparr>min_read_size := k, max_read_size := k\<rparr>"
  using assms by (simp add: configure_read_def exactly_def Let_def)

definition lp_wait :: "flow_bridge lp_framing \<Rightarrow> flow_bridge lp_framing lower \<Rightarrow> bool" where
  "lp_wait f lo \<longleftrightarrow>
     (let h = field_size (size_field f); m = read_size (size_field f) (take h (buffered lo)) in
      mgr_reading lo \<and> min_read_size lo = max_read_size lo \<and>
      length (items (out (app f))) < capacity (out (app f)) \<and>
      (max_read_size lo = h \<and> delta_offset lo = 0 \<or>
       h \<le> length (buffered lo) \<and> 0 < m \<and> max_read_size lo = h + m \<and> delta_offset lo = h))"

definition lp_suspended :: "flow_bridge lp_framing \<Rightarrow> flow_bridge lp_framing lower \<Rightarrow> bool" where
  "lp_suspended f lo \<longleftrightarrow>
     \<not> mgr_reading lo \<and> max_read_size lo = 0 \<and> length (items (out (app f))) = capacity (out (app f))"

definition lp_frame_ok :: "flow_bridge lp_framing \<Rightarrow> bytes \<Rightarrow> bool" where
  "lp_frame_ok f m \<longleftrightarrow>
     0 < length m \<and> length m \<le> max_message_size f \<and> length m < 2 ^ (8 * field_size (size_field f))"

text \<open>Everything but the policy, the buffered bytes and the messages stays as it is.\<close>

definition lp_same :: "flow_bridge lp_framing transport \<Rightarrow> flow_bridge lp_framing transport \<Rightarrow> bool" where
  "lp_same t t' \<longleftrightarrow>
     reads t' = reads t \<and> next_up (low t') = next_up (low t) \<and>
     wanted_read_from_write_event (low t') = wanted_read_from_write_event (low t)"

abbreviation "bridge_vt \<equiv> lp_vtable bridge_upper"

lemma consume_impl_header:
  assumes "length hdr = hdr_size f" "hdr_size f = field_size (size_field f)"
    and "read_size (size_field f) hdr = m" "0 < m" "m \<le> max_message_size f"
  shows "consume_impl au hdr (f, lo) = (0, f, configure_read (exactly (hdr_size f + m)) lo)"
  using assms by (simp add: consume_impl_def Let_def)

lemma consume_header:
  assumes t: "up t = Some f" "next_up (low t) = None" "hdr_size f = field_size (size_field f)"
    and wait: "max_read_size (low t) = field_size (size_field f)" "delta_offset (low t) = 0"
    and m: "field_size (size_field f) \<le> length (buffered (low t))"
      "read_size (size_field f) (take (field_size (size_field f)) (buffered (low t))) = m"
      "0 < m" "m \<le> max_message_size f"
  shows "consume_once bridge_vt t =
    Some (field_size (size_field f) < length (buffered (low t)),
          t\<lparr>low := (low t)\<lparr>min_read_size := field_size (size_field f) + m,
                        max_read_size := field_size (size_field f) + m,
                        delta_offset := field_size (size_field f)\<rparr>\<rparr>)"
proof -
  let ?h = "field_size (size_field f)"
  have n: "min (length (buffered (low t))) ?h = ?h" using m by simp
  have conf: "configure_read (exactly (?h + m)) (low t) =
      (low t)\<lparr>min_read_size := ?h + m, max_read_size := ?h + m\<rparr>"
    using wait by (simp add: configure_exactly)
  have "up_consume bridge_vt (take ?h (buffered (low t))) 0 (f, low t) =
      (0, take ?h (buffered (low t)), f, configure_read (exactly (?h + m)) (low t))"
    using consume_impl_header [of "take ?h (buffered (low t))" f m bridge_upper "low t"] m t
    by (simp add: lp_vtable_def)
  then show ?thesis
    using t wait m(1,3) n
    by (auto simp: consume_once_def Let_def conf on_lower_def switching_protocol_def min_def)
qed

lemma consume_impl_message:
  assumes "length m \<noteq> 0" "length m < 2 ^ (8 * field_size (size_field f))"
    "hdr_size f = field_size (size_field f)"
  shows "consume_impl au (frame (size_field f) m) (f, lo) =
    (case lp_consume au m (f, lo) of (res, f', lo') \<Rightarrow>
       if res \<ge> 0
       then (int (length (frame (size_field f) m)), f',
             if is_reading lo' then configure_read (exactly (hdr_size f')) lo' else lo')
       else (- 1, f', lo'))"
proof -
  have "length (frame (size_field f) m) = field_size (size_field f) + length m"
    by (simp add: frame_def)
  moreover have "read_size (size_field f) (take (field_size (size_field f)) (frame (size_field f) m)) = length m"
    using assms(2) by (simp add: frame_def read_size_bytes)
  moreover have "drop (field_size (size_field f)) (frame (size_field f) m) = m"
    by (simp add: frame_def)
  ultimately show ?thesis
    using assms(1,3) by (simp add: consume_impl_def Let_def)
qed

text \<open>The state after the bridge has taken a message.\<close>

definition lp_took :: "bytes \<Rightarrow> flow_bridge lp_framing \<Rightarrow> flow_bridge lp_framing" where
  "lp_took m f = f\<lparr>app := (app f)\<lparr>out := snd (push [m] (out (app f)))\<rparr>\<rparr>"

lemma consume_message:
  assumes t: "up t = Some f" "next_up (low t) = None" "hdr_size f = field_size (size_field f)"
      "out_open (app f)" "mgr_reading (low t)"
    and wait: "max_read_size (low t) = length (frame (size_field f) m)"
      "delta_offset (low t) = field_size (size_field f)"
    and m: "buffered (low t) = frame (size_field f) m @ r" "lp_frame_ok f m"
    and q: "length (items (out (app f))) < capacity (out (app f))"
  shows "\<exists>t'. consume_once bridge_vt t = Some (True, t') \<and> up t' = Some (lp_took m f) \<and> lp_same t t' \<and>
    buffered (low t') = r \<and> delta_offset (low t') = 0 \<and>
    (if Suc (length (items (out (app f)))) < capacity (out (app f))
     then mgr_reading (low t') \<and> min_read_size (low t') = field_size (size_field f) \<and>
          max_read_size (low t') = field_size (size_field f)
     else \<not> mgr_reading (low t') \<and> max_read_size (low t') = 0)"
proof -
  let ?fr = "frame (size_field f) m"
  have len: "length ?fr = field_size (size_field f) + length m" by (simp add: frame_def)
  have n: "min (length (buffered (low t))) (max_read_size (low t)) = length ?fr"
    using wait m(1) by simp
  have ok: "length m \<noteq> 0" "length m < 2 ^ (8 * field_size (size_field f))"
    using m(2) by (simp_all add: lp_frame_ok_def)
  have "lp_consume bridge_upper m (f, low t) =
    (int (length m), if Suc (length (items (out (app f)))) < capacity (out (app f))
       then (lp_took m f, low t) else (lp_took m f, configure_read stop (low t)))"
    using t(4) push_result [of "[m]" "out (app f)"]
    by (auto simp: bridge_upper_def bridge_consume_def lp_took_def suspend_reading_def Let_def
        split: prod.splits)
  then have "up_consume bridge_vt ?fr (field_size (size_field f)) (f, low t) =
    (int (length ?fr), ?fr, lp_took m f,
      if Suc (length (items (out (app f)))) < capacity (out (app f))
      then (low t)\<lparr>min_read_size := field_size (size_field f), max_read_size := field_size (size_field f)\<rparr>
      else configure_read stop (low t))"
    using consume_impl_message [OF ok t(3), of bridge_upper "low t"] wait len t(3)
    by (auto simp: lp_vtable_def is_reading_def configure_exactly lp_took_def)
      (simp_all add: configure_read_def stop_def Let_def deregister_reading_def)
  moreover have nz: "int (field_size (size_field f)) + int (length m) \<noteq> 0"
    using field_size_pos [of "size_field f"] by linarith
  ultimately show ?thesis
    using t wait n len ok m(1)
    by (auto simp: nz consume_once_def Let_def switching_protocol_def on_lower_def lp_same_def
        configure_read_def stop_def deregister_reading_def)
qed

definition lp_inv :: "flow_bridge lp_framing transport \<Rightarrow> flow_bridge lp_framing \<Rightarrow> bytes list \<Rightarrow> bytes \<Rightarrow> bool" where
  "lp_inv t f ms F \<longleftrightarrow>
     up t = Some f \<and> next_up (low t) = None \<and> hdr_size f = field_size (size_field f) \<and> out_open (app f) \<and>
     list_all (lp_frame_ok f) ms \<and> buffered (low t) @ F = concat (map (frame (size_field f)) ms) \<and>
     (lp_wait f (low t) \<or> lp_suspended f (low t))"

text \<open>\<open>lp_drained t f ms F t' j\<close>: the transport went from \<open>t\<close> to \<open>t'\<close> and handed over the first \<open>j\<close> messages.\<close>

definition lp_drained where
  "lp_drained t f ms F t' j \<longleftrightarrow>
     (\<exists>f'. lp_inv t' f' (drop j ms) F \<and> lp_same t t' \<and>
           items (out (app f')) = items (out (app f)) @ take j ms \<and>
           capacity (out (app f')) = capacity (out (app f)) \<and> size_field f' = size_field f \<and>
           max_message_size f' = max_message_size f \<and>
           (lp_wait f' (low t') \<longrightarrow> length (buffered (low t')) < min_read_size (low t')))"

lemma lp_inv_frame:
  assumes "lp_inv t f ms F" "field_size (size_field f) \<le> length (buffered (low t))"
  obtains m ms' where "ms = m # ms'" "lp_frame_ok f m"
    "read_size (size_field f) (take (field_size (size_field f)) (buffered (low t))) = length m"
proof -
  let ?h = "field_size (size_field f)"
  have bF: "buffered (low t) @ F = concat (map (frame (size_field f)) ms)"
    and ok: "list_all (lp_frame_ok f) ms" using assms(1) by (simp_all add: lp_inv_def)
  have "buffered (low t) \<noteq> []" using assms(2) field_size_pos [of "size_field f"] by auto
  then obtain m ms' where ms: "ms = m # ms'" using bF by (cases ms) auto
  then have "take ?h (buffered (low t)) = take ?h (frame (size_field f) m)"
    using bF assms(2) by (intro take_append_same [of _ F _ "concat (map (frame (size_field f)) ms')"])
      (simp_all add: frame_def)
  then have "take ?h (buffered (low t)) = size_bytes (size_field f) (length m)"
    by (simp add: frame_def)
  moreover have "lp_frame_ok f m" using ok ms by simp
  ultimately show thesis
    using that [OF ms] by (simp add: read_size_bytes lp_frame_ok_def)
qed

lemma lp_drain: "lp_inv t f ms F \<Longrightarrow>
  \<exists>t' j. handle_buffered_data bridge_vt t = Some t' \<and> lp_drained t f ms F t' j"
proof (induction "2 * length (buffered (low t)) + of_bool (delta_offset (low t) = 0)"
    arbitrary: t f ms rule: less_induct)
  case less
  let ?h = "field_size (size_field f)" and ?lo = "low t"
  note inv = less.prems
  note unf = handle_buffered_data.simps [of bridge_vt t]
  have stop: ?case if "\<not> (mgr_reading ?lo \<and> max_read_size ?lo > 0 \<and> length (buffered ?lo) \<ge> min_read_size ?lo)"
  proof -
    have "handle_buffered_data bridge_vt t = Some t" using that by (subst unf) auto
    moreover have "lp_drained t f ms F t 0"
      using inv that unfolding lp_drained_def
      by (intro exI [of _ f]) (auto simp: lp_same_def lp_wait_def Let_def)
    ultimately show ?thesis by blast
  qed
  show ?case
  proof (cases "mgr_reading ?lo \<and> max_read_size ?lo > 0 \<and> length (buffered ?lo) \<ge> min_read_size ?lo")
    case True
    have wait: "lp_wait f ?lo" using inv True by (auto simp: lp_inv_def lp_suspended_def)
    have len: "?h \<le> length (buffered ?lo)" using wait True by (auto simp: lp_wait_def Let_def)
    obtain m ms' where ms: "ms = m # ms'" and ok: "lp_frame_ok f m"
      and size: "read_size (size_field f) (take ?h (buffered ?lo)) = length m"
      using lp_inv_frame [OF inv len] .
    have base: "up t = Some f" "next_up ?lo = None" "hdr_size f = ?h" "out_open (app f)" "mgr_reading ?lo"
      "length (items (out (app f))) < capacity (out (app f))"
      using inv True wait by (auto simp: lp_inv_def lp_wait_def Let_def)
    have m: "0 < length m" "length m \<le> max_message_size f" using ok by (auto simp: lp_frame_ok_def)
    consider (hdr) "max_read_size ?lo = ?h" "delta_offset ?lo = 0"
      | (msg) "max_read_size ?lo = ?h + length m" "delta_offset ?lo = ?h"
      using wait size by (auto simp: lp_wait_def Let_def)
    then show ?thesis
    proof cases
      case hdr
      let ?t1 = "t\<lparr>low := ?lo\<lparr>min_read_size := ?h + length m, max_read_size := ?h + length m,
        delta_offset := ?h\<rparr>\<rparr>"
      have once: "consume_once bridge_vt t = Some (?h < length (buffered ?lo), ?t1)"
        by (rule consume_header [OF base(1-3) hdr len size m])
      have inv1: "lp_inv ?t1 f ms F"
        using inv base len size m by (auto simp: lp_inv_def lp_wait_def Let_def)
      have same: "lp_same t ?t1" by (simp add: lp_same_def)
      show ?thesis
      proof (cases "?h < length (buffered ?lo)")
        case False
        with once True have "handle_buffered_data bridge_vt t = Some ?t1" by (subst unf) simp
        moreover have "length (buffered ?lo) < ?h + length m" using False m by linarith
        then have "lp_drained t f ms F ?t1 0"
          using inv1 same unfolding lp_drained_def by (intro exI [of _ f]) auto
        ultimately show ?thesis by blast
      next
        case True2: True
        have "2 * length (buffered (low ?t1)) + of_bool (delta_offset (low ?t1) = 0)
            < 2 * length (buffered ?lo) + of_bool (delta_offset ?lo = (0::nat))"
          using hdr field_size_pos [of "size_field f"] by simp
        from less.hyps [OF this inv1] obtain t' j where
          t': "handle_buffered_data bridge_vt ?t1 = Some t'" "lp_drained ?t1 f ms F t' j" by blast
        have "handle_buffered_data bridge_vt t = Some t'" using once True True2 t'(1) by (subst unf) simp
        moreover have "lp_drained t f ms F t' j"
          using t'(2) same by (auto simp: lp_drained_def lp_same_def)
        ultimately show ?thesis by blast
      qed
    next
      case msg
      let ?fr = "frame (size_field f) m"
      have lfr: "length ?fr = ?h + length m" by (simp add: frame_def)
      have "buffered ?lo @ F = ?fr @ concat (map (frame (size_field f)) ms')"
        using inv ms by (simp add: lp_inv_def)
      moreover have "length ?fr \<le> length (buffered ?lo)"
        using True msg wait lfr by (auto simp: lp_wait_def Let_def)
      ultimately obtain r where r: "buffered ?lo = ?fr @ r" "r @ F = concat (map (frame (size_field f)) ms')"
        using append_split_le by blast
      obtain t1 where once: "consume_once bridge_vt t = Some (True, t1)" and t1: "up t1 = Some (lp_took m f)"
        "lp_same t t1" "buffered (low t1) = r" "delta_offset (low t1) = 0"
        "if Suc (length (items (out (app f)))) < capacity (out (app f))
         then mgr_reading (low t1) \<and> min_read_size (low t1) = ?h \<and> max_read_size (low t1) = ?h
         else \<not> mgr_reading (low t1) \<and> max_read_size (low t1) = 0"
        using consume_message [OF base(1-5) _ msg(2) r(1) ok base(6)] msg(1) lfr by auto
      have inv1: "lp_inv t1 (lp_took m f) ms' F"
        using inv base t1 r ms
        by (auto simp: lp_inv_def lp_same_def lp_took_def lp_wait_def lp_suspended_def lp_frame_ok_def
            list_all_iff Let_def split: if_splits)
      have "2 * length (buffered (low t1)) + of_bool (delta_offset (low t1) = 0)
          < 2 * length (buffered ?lo) + of_bool (delta_offset ?lo = (0::nat))"
        using r(1) t1(3,4) lfr m(1) by (cases m) auto
      from less.hyps [OF this inv1] obtain t' j where
        t': "handle_buffered_data bridge_vt t1 = Some t'" "lp_drained t1 (lp_took m f) ms' F t' j" by blast
      have "handle_buffered_data bridge_vt t = Some t'" using once True t'(1) by (subst unf) simp
      moreover have "lp_drained t f ms F t' (Suc j)"
        using t'(2) t1(2) ms by (auto simp: lp_drained_def lp_same_def lp_took_def)
      ultimately show ?thesis by blast
    qed
  qed (rule stop)
qed

lemma lp_read_event:
  assumes inv: "lp_inv t f ms (c # cs @ F)" and t: "reads t = Read (c # cs) # rs"
    "\<not> wanted_read_from_write_event (low t)"
  shows "\<exists>t' j. handle_read_event bridge_vt t = Some t' \<and> reads t' = rs \<and>
    \<not> wanted_read_from_write_event (low t') \<and> lp_drained (t\<lparr>reads := rs\<rparr>) f ms F t' j"
proof -
  let ?t1 = "t\<lparr>reads := rs, low := (low t)\<lparr>read_buf_size := max (read_buf_size (low t)) (max_read_size (low t)),
    buffered := buffered (low t) @ c # cs\<rparr>\<rparr>"
  have "lp_inv ?t1 f ms F"
    using inv by (auto simp: lp_inv_def lp_wait_def lp_suspended_def Let_def)
  then obtain t' j where t': "handle_buffered_data bridge_vt ?t1 = Some t'" "lp_drained ?t1 f ms F t' j"
    using lp_drain by blast
  have "handle_read_event bridge_vt t = handle_buffered_data bridge_vt ?t1"
    using t by (simp add: handle_read_event.simps read_body_def on_lower_def Let_def)
  with t' t show ?thesis by (auto simp: lp_drained_def lp_same_def)
qed

text \<open>Handling a number of read events in a row.\<close>

primrec read_events :: "'u upper_layer \<Rightarrow> nat \<Rightarrow> 'u transport \<Rightarrow> 'u transport option" where
  "read_events vt 0 t = Some t"
| "read_events vt (Suc n) t = Option.bind (handle_read_event vt t) (read_events vt n)"

lemma lp_read_events:
  "lp_inv t f ms (concat chunks @ F) \<Longrightarrow> [] \<notin> set chunks \<Longrightarrow> reads t = map Read chunks \<Longrightarrow>
   \<not> wanted_read_from_write_event (low t) \<Longrightarrow>
   (lp_wait f (low t) \<longrightarrow> length (buffered (low t)) < min_read_size (low t)) \<Longrightarrow>
   \<exists>t' j. read_events bridge_vt (length chunks) t = Some t' \<and> lp_drained (t\<lparr>reads := []\<rparr>) f ms F t' j"
proof (induction chunks arbitrary: t f ms)
  case Nil
  then have "lp_drained (t\<lparr>reads := []\<rparr>) f ms F t 0"
    unfolding lp_drained_def by (intro exI [of _ f]) (auto simp: lp_same_def lp_inv_def)
  then show ?case by auto
next
  case (Cons chunk chunks)
  then obtain c cs where c: "chunk = c # cs" by (cases chunk) auto
  with Cons.prems obtain t1 j1 where t1: "handle_read_event bridge_vt t = Some t1"
    "reads t1 = map Read chunks" "\<not> wanted_read_from_write_event (low t1)"
    "lp_drained (t\<lparr>reads := map Read chunks\<rparr>) f ms (concat chunks @ F) t1 j1"
    using lp_read_event [of t f ms c cs "concat chunks @ F" "map Read chunks"] by auto
  then obtain f1 where f1: "lp_inv t1 f1 (drop j1 ms) (concat chunks @ F)"
    "items (out (app f1)) = items (out (app f)) @ take j1 ms"
    "capacity (out (app f1)) = capacity (out (app f))" "size_field f1 = size_field f"
    "max_message_size f1 = max_message_size f" "lp_same (t\<lparr>reads := map Read chunks\<rparr>) t1"
    "lp_wait f1 (low t1) \<longrightarrow> length (buffered (low t1)) < min_read_size (low t1)"
    unfolding lp_drained_def by blast
  from Cons.prems(2) have "[] \<notin> set chunks" by simp
  from Cons.IH [OF f1(1) this t1(2,3) f1(7)] obtain t' j where
    t': "read_events bridge_vt (length chunks) t1 = Some t'"
    "lp_drained (t1\<lparr>reads := []\<rparr>) f1 (drop j1 ms) F t' j" by blast
  from t'(2) obtain f' where f': "lp_inv t' f' (drop (j1 + j) ms) F"
    "lp_same (t1\<lparr>reads := []\<rparr>) t'"
    "items (out (app f')) = items (out (app f)) @ take (j1 + j) ms"
    "capacity (out (app f')) = capacity (out (app f))" "size_field f' = size_field f"
    "max_message_size f' = max_message_size f"
    "lp_wait f' (low t') \<longrightarrow> length (buffered (low t')) < min_read_size (low t')"
    unfolding lp_drained_def using f1 by (auto simp: take_add add.commute)
  have "lp_drained (t\<lparr>reads := []\<rparr>) f ms F t' (j1 + j)"
    unfolding lp_drained_def using f' f1(6) by (intro exI [of _ f']) (auto simp: lp_same_def)
  moreover have "read_events bridge_vt (length (chunk # chunks)) t = Some t'"
    using t1(1) t'(1) by simp
  ultimately show ?case by blast
qed

section \<open>End to end\<close>

text \<open>A transport with a length-prefix layer and a flow bridge, before it starts; the socket returns \<open>chunks\<close>.\<close>

definition lp_transport :: "size_field_type \<Rightarrow> nat \<Rightarrow> bytes spsc_buffer \<Rightarrow> bytes list \<Rightarrow> flow_bridge lp_framing transport" where
  "lp_transport sf mms q chunks =
     \<lparr>low = \<lparr>min_read_size = 0, max_read_size = 0, buffered = [], read_buf_size = 0, delta_offset = 0,
             write_buf = [], max_write_buf_size = 0, wanted_read_from_write_event = False,
             wanted_write_from_read_event = False, shutting_down = False, next_up = None, mgr_reading = False,
             mgr_writing = False, mgr_shutdown = False, scheduled = 0\<rparr>,
      up = Some (mk_lp_framing \<lparr>out = q, out_open = True, inp = Some []\<rparr> sf mms),
      reads = map Read chunks, writes = []\<rparr>"

definition lp_run :: "size_field_type \<Rightarrow> nat \<Rightarrow> bytes spsc_buffer \<Rightarrow> bytes list \<Rightarrow> flow_bridge lp_framing transport option" where
  "lp_run sf mms q chunks =
     Option.bind (transport_start bridge_vt 65536 (lp_transport sf mms q chunks))
       (\<lambda>r. read_events bridge_vt (length chunks) (snd r))"

lemma lp_start_inv:
  assumes "items q = []" "0 < capacity q" "\<forall>m \<in> set ms. 0 < length m \<and> length m \<le> mms \<and> length m < 2 ^ (8 * field_size sf)"
    "F = concat (map (frame sf) ms)"
  shows "\<exists>t f. transport_start bridge_vt 65536 (lp_transport sf mms q chunks) = Some (no_error, t) \<and>
    lp_inv t f ms F \<and> reads t = map Read chunks \<and> \<not> wanted_read_from_write_event (low t) \<and>
    length (buffered (low t)) < min_read_size (low t) \<and> out (app f) = q \<and> size_field f = sf"
  using assms
  by (auto simp: transport_start_def lp_transport_def lp_vtable_def bridge_upper_def request_messages_def
      is_reading_def configure_read_def exactly_def register_reading_def mk_lp_framing_def lp_inv_def
      lp_wait_def lp_frame_ok_def list_all_iff Let_def)

text \<open>
  C21: End-to-end delivery over length-prefix framing. However the operating system splits the bytes of a
  sequence of framed messages into read results, handling the read events returns; the application then has
  the first \<open>j\<close> messages in order and unchanged, at most as many as its buffer may hold; the received bytes
  are exactly those messages plus the buffered rest; and if the buffer has space left, no complete message is
  held back.
\<close>

theorem lp_delivers_messages:
  assumes "concat chunks @ F = concat (map (frame sf) ms)" "[] \<notin> set chunks"
    and "\<forall>m \<in> set ms. 0 < length m \<and> length m \<le> mms \<and> length m < 2 ^ (8 * field_size sf)"
    and "items q = []" "0 < capacity q"
  shows "\<exists>t f j. lp_run sf mms q chunks = Some t \<and> up t = Some f \<and>
    items (out (app f)) = take j ms \<and> j \<le> length ms \<and> j \<le> capacity q \<and>
    concat chunks = concat (map (frame sf) (take j ms)) @ buffered (low t) \<and>
    (j < capacity q \<longrightarrow> j < length ms \<longrightarrow> length (buffered (low t)) < length (frame sf (ms ! j)))"
proof -
  obtain t0 f0 where t0: "transport_start bridge_vt 65536 (lp_transport sf mms q chunks) = Some (no_error, t0)"
    "lp_inv t0 f0 ms (concat chunks @ F)" "reads t0 = map Read chunks"
    "\<not> wanted_read_from_write_event (low t0)" "length (buffered (low t0)) < min_read_size (low t0)"
    "out (app f0) = q" "size_field f0 = sf"
    using lp_start_inv [OF assms(4,5,3,1)] by blast
  from lp_read_events [OF t0(2) assms(2) t0(3,4)] t0(5) obtain t j f where
    run: "read_events bridge_vt (length chunks) t0 = Some t" and inv: "lp_inv t f (drop j ms) F"
    and f: "items (out (app f)) = take j ms" "capacity (out (app f)) = capacity q" "size_field f = sf"
      "lp_wait f (low t) \<longrightarrow> length (buffered (low t)) < min_read_size (low t)"
    using assms(4) t0(6,7) unfolding lp_drained_def by auto
  have run': "lp_run sf mms q chunks = Some t" using t0(1) run by (simp add: lp_run_def)
  define k where "k = min j (length ms)"
  have k: "take k ms = take j ms" "drop k ms = drop j ms" "k \<le> length ms"
    by (simp_all add: k_def min_def)
  have cap: "k \<le> capacity q"
    using inv f k by (auto simp: lp_inv_def lp_wait_def lp_suspended_def Let_def k_def)
  have "concat (map (frame sf) ms) = concat (map (frame sf) (take k ms)) @ buffered (low t) @ F"
    using inv f(3) k by (simp add: lp_inv_def) (metis append_take_drop_id concat_append map_append)
  with assms(1) have bytes: "concat chunks = concat (map (frame sf) (take k ms)) @ buffered (low t)" by simp
  have short: "length (buffered (low t)) < length (frame sf (ms ! k))" if "k < capacity q" "k < length ms"
  proof -
    have "length (items (out (app f))) = k" using f k that by (metis length_take min.absorb2 less_imp_le)
    with that inv f(2) have wait: "lp_wait f (low t)" by (auto simp: lp_inv_def lp_suspended_def)
    have nth: "drop j ms = ms ! k # drop (Suc k) ms" using that k by (metis Cons_nth_drop_Suc)
    show ?thesis
    proof (cases "field_size sf \<le> length (buffered (low t))")
      case True
      then obtain m ms' where "drop j ms = m # ms'"
        "read_size sf (take (field_size sf) (buffered (low t))) = length m"
        using lp_inv_frame [OF inv] f(3) by metis
      with nth wait f True show ?thesis by (auto simp: lp_wait_def frame_def Let_def)
    qed (simp add: frame_def)
  qed
  show ?thesis
    using run' inv f(1) k(1,3) cap bytes short
    by (intro exI [of _ t] exI [of _ f] exI [of _ k]) (auto simp: lp_inv_def)
qed

theorem lp_delivers_messages_witness:
  "\<exists>t f j. lp_run size_u2 100 (mk_spsc_buffer 4 1) [[0], [2, 7, 8, 0], [1]] = Some t \<and> up t = Some f \<and>
    items (out (app f)) = take j [[7, 8], [9]] \<and> j \<le> length [[7, 8 :: u8], [9]] \<and>
    j \<le> capacity (mk_spsc_buffer 4 1 :: bytes spsc_buffer) \<and>
    concat [[0], [2, 7, 8, 0], [1]] = concat (map (frame size_u2) (take j [[7, 8], [9]])) @ buffered (low t) \<and>
    (j < capacity (mk_spsc_buffer 4 1 :: bytes spsc_buffer) \<longrightarrow> j < length [[7, 8 :: u8], [9]] \<longrightarrow>
       length (buffered (low t)) < length (frame size_u2 ([[7, 8], [9]] ! j)))"
proof (rule lp_delivers_messages [where F = "[9]"])
  have "size_bytes size_u2 2 = [0, 2]" "size_bytes size_u2 1 = [0, 1]"
    by (simp_all add: as_bytes_to_network_order) (simp_all add: be_bytes_def as_bytes_def upt_rec)
  then show "concat [[0], [2, 7, 8, 0], [1]] @ [9] = concat (map (frame size_u2) [[7, 8], [9]])"
    by (simp add: frame_def numeral_2_eq_2)
qed (simp_all add: mk_spsc_buffer_def)

text \<open>
  C22: Sending a message that fits the maximum message size appends exactly its frame to the output, so
  whatever a bridge sends, a bridge with the same size field receives. A message of \<open>2 ^ 8\<close> or more bytes does
  not fit a one-byte size field: nothing is reported and the frame announces its size modulo \<open>2 ^ 8\<close>.
\<close>

theorem lp_send_appends_frame:
  assumes "length m \<le> mms"
  shows "\<exists>f' lo'. bridge_write m (mk_lp_framing a sf mms, lo) = (True, f', lo') \<and>
    write_buf lo' = write_buf lo @ frame sf m \<and>
    read_size sf (take (field_size sf) (frame sf m)) = length m mod 2 ^ (8 * field_size sf)"
proof -
  have "read_size sf (size_bytes sf (length m)) = length m mod 2 ^ (8 * field_size sf)"
    by (cases sf) (simp_all add: from_to_network_order unat_of_nat take_bit_eq_mod)
  then show ?thesis
    using bridge_write_frame [of "mk_lp_framing a sf mms" m lo] assms
    by (auto simp: mk_lp_framing_def frame_def)
qed

theorem lp_send_appends_frame_witness:
  "\<exists>f' lo'. bridge_write (replicate 300 1)
      (mk_lp_framing \<lparr>out = mk_spsc_buffer 4 1, out_open = True, inp = Some []\<rparr> size_u1 1000,
       low (lp_transport size_u1 1000 (mk_spsc_buffer 4 1) [])) = (True, f', lo') \<and>
    write_buf lo' = write_buf (low (lp_transport size_u1 1000 (mk_spsc_buffer 4 1) [])) @
      frame size_u1 (replicate 300 1) \<and>
    read_size size_u1 (take (field_size size_u1) (frame size_u1 (replicate 300 1))) = 44"
  using lp_send_appends_frame [of "replicate 300 1" 1000 _ size_u1] by simp

end
