(* ===== verification/Web_Socket_Frame.thy ===== *)
theory Web_Socket_Frame
  imports Byte_Order
begin

text \<open>
  WebSocket frames (\<^verbatim>\<open>libcaf_net/caf/detail/rfc6455.cpp\<close>): masking, assembling and header decoding. The lemmas
  show that masking is an involution that can be applied piece by piece, and that decoding the start of an
  assembled frame gives back its header, asks for more input on every shorter prefix, and leaves the payload.
\<close>

section \<open>Model\<close>

record ws_header =
  fin :: bool
  opcode :: u8
  mask_key :: u32
  payload_len :: u64

definition continuation_frame :: u8 where "continuation_frame = 0x00"
definition text_frame :: u8 where "text_frame = 0x01"
definition binary_frame :: u8 where "binary_frame = 0x02"
definition connection_close_frame :: u8 where "connection_close_frame = 0x08"
definition ping_frame :: u8 where "ping_frame = 0x09"
definition pong_frame :: u8 where "pong_frame = 0x0A"
definition invalid_frame :: u8 where "invalid_frame = 0xFF"
definition fin_flag :: u8 where "fin_flag = 0x80"

lemmas opcode_defs = continuation_frame_def text_frame_def binary_frame_def connection_close_frame_def
  ping_frame_def pong_frame_def invalid_frame_def fin_flag_def

definition default_header :: ws_header where
  "default_header = \<lparr>fin = False, opcode = invalid_frame, mask_key = 0, payload_len = 0\<rparr>"

definition header_valid :: "ws_header \<Rightarrow> bool" where
  "header_valid h \<longleftrightarrow> opcode h \<noteq> invalid_frame"

definition is_control_frame :: "u8 \<Rightarrow> bool" where
  "is_control_frame oc \<longleftrightarrow> oc > binary_frame"

primrec mask_loop :: "bytes \<Rightarrow> nat \<Rightarrow> bytes \<Rightarrow> bytes" where
  "mask_loop arr i [] = []"
| "mask_loop arr i (b # bs) = (b XOR arr ! i) # mask_loop arr ((i + 1) mod 4) bs"

definition mask_data :: "u32 \<Rightarrow> bytes \<Rightarrow> nat \<Rightarrow> bytes" where
  "mask_data key data offset =
     (let arr = as_bytes (to_network_order key)
      in take offset data @ mask_loop arr (offset mod 4) (drop offset data))"

definition length_bytes :: "u8 \<Rightarrow> nat \<Rightarrow> bytes" where
  "length_bytes mask_bit n =
     (if n < 126 then [mask_bit OR of_nat n]
      else if n \<le> 0xFFFF then (mask_bit OR 126) # as_bytes (to_network_order (of_nat n :: u16))
      else (mask_bit OR 127) # as_bytes (to_network_order (of_nat n :: u64)))"

definition assemble_frame :: "u8 \<Rightarrow> u32 \<Rightarrow> bytes \<Rightarrow> bytes \<Rightarrow> u8 \<Rightarrow> bytes" where
  "assemble_frame oc key data out flags =
     (let mask_bit = (if key = 0 then 0x00 else 0x80)
      in out @ [flags OR oc] @ length_bytes mask_bit (length data) @
         (if key \<noteq> 0 then as_bytes (to_network_order key) else []) @ data)"

definition assemble_text_frame :: "u32 \<Rightarrow> bytes \<Rightarrow> bytes \<Rightarrow> bytes" where
  "assemble_text_frame key data out = assemble_frame text_frame key data out fin_flag"

definition assemble_binary_frame :: "u32 \<Rightarrow> bytes \<Rightarrow> bytes \<Rightarrow> bytes" where
  "assemble_binary_frame key data out = assemble_frame binary_frame key data out fin_flag"

text \<open>
  The result is the number of header bytes with the header, 0 if the input is too short, or -1 if it is
  malformed; the header argument keeps its old value unless the result is positive.
\<close>

definition decode_header :: "bytes \<Rightarrow> ws_header \<Rightarrow> int \<times> ws_header" where
  "decode_header data result =
     (if length data < 2 then (0, result)
      else
        let byte1 = data ! 0;
            byte2 = data ! 1;
            masked = (byte2 AND 0x80 \<noteq> 0);
            len_field = byte2 AND 0x7F;
            header_length = (if len_field < 126 then 2 else if len_field = 126 then 4 else 10) +
                            (if masked then 4 else 0)
        in if length data < header_length then (0, result)
           else
             let plen = (if len_field = 126
                         then ucast (from_network_order (from_bytes (take 2 (drop 2 data)) :: u16))
                         else if len_field = 127
                         then from_network_order (from_bytes (take 8 (drop 2 data)))
                         else ucast len_field) :: u64;
                 p = (if len_field = 126 then 4 else if len_field = 127 then 10 else 2);
                 key = (if masked then from_network_order (from_bytes (take 4 (drop p data))) else 0);
                 hdr = \<lparr>fin = (byte1 AND 0x80 \<noteq> 0), opcode = byte1 AND 0x0F, mask_key = key, payload_len = plen\<rparr>
             in if byte1 AND 0x70 \<noteq> 0 then (- 1, result)
                else if opcode hdr \<in> {continuation_frame, text_frame, binary_frame, connection_close_frame,
                                       ping_frame, pong_frame}
                then (int header_length, hdr)
                else (- 1, result))"

section \<open>Masking\<close>

lemma length_mask_loop [simp]: "length (mask_loop arr i bs) = length bs"
  by (induction bs arbitrary: i) simp_all

lemma length_mask_data [simp]: "length (mask_data key bs off) = length bs"
  by (simp add: mask_data_def Let_def)

lemma mask_loop_append:
  "i < 4 \<Longrightarrow> mask_loop arr i (p @ q) = mask_loop arr i p @ mask_loop arr ((i + length p) mod 4) q"
proof (induction p arbitrary: i)
  case (Cons b p)
  have "((i + 1) mod 4 + length p) mod 4 = (i + length (b # p)) mod 4"
    by (simp add: mod_add_left_eq)
  with Cons.IH [of "(i + 1) mod 4"] show ?case by simp
qed simp

lemma mask_loop_involution [simp]: "mask_loop arr i (mask_loop arr i bs) = bs"
  by (induction bs arbitrary: i) (simp_all add: xor.assoc)

lemma mask_involution [simp]: "mask_data key (mask_data key bs 0) 0 = bs"
  by (simp add: mask_data_def Let_def)

lemma mask_data_append:
  "mask_data key (mask_data key p 0 @ q) (length p) = mask_data key (p @ q) 0"
  by (simp add: mask_data_def Let_def mask_loop_append)

lemma mask_data_Nil [simp]: "mask_data key [] off = []"
  by (simp add: mask_data_def Let_def)

lemma take_mask_loop: "take n (mask_loop arr i bs) = mask_loop arr i (take n bs)"
  by (induction bs arbitrary: i n) (auto simp: take_Cons split: nat.splits)

lemma mask_resume:
  assumes "k \<le> n"
  shows "mask_data key (take k d @ drop k (take n (mask_data key d 0))) (length (take k d)) = take n d"
proof -
  have 1: "take n (mask_data key d 0) = mask_data key (take n d) 0" for n
    by (simp add: mask_data_def Let_def take_mask_loop)
  have "take k (take n (mask_data key d 0)) = mask_data key (take k d) 0"
    using assms by (simp add: min_absorb1 flip: 1)
  then have "mask_data key (take k d) 0 @ drop k (take n (mask_data key d 0)) = mask_data key (take n d) 0"
    by (metis 1 append_take_drop_id)
  then show ?thesis
    using mask_data_append [of key "mask_data key (take k d) 0" "drop k (take n (mask_data key d 0))"] by simp
qed

section \<open>Headers\<close>

definition data_opcodes :: "u8 set" where
  "data_opcodes = {continuation_frame, text_frame, binary_frame, connection_close_frame, ping_frame, pong_frame}"

definition frame_header :: "u8 \<Rightarrow> u32 \<Rightarrow> nat \<Rightarrow> u8 \<Rightarrow> bytes" where
  "frame_header oc key n flags =
     [flags OR oc] @ length_bytes (if key = 0 then 0x00 else 0x80) n @ (if key \<noteq> 0 then be_bytes key else [])"

lemma assemble_frame_header:
  "assemble_frame oc key data out flags = out @ frame_header oc key (length data) flags @ data"
  by (simp add: assemble_frame_def frame_header_def as_bytes_to_network_order Let_def)

lemma first_byte:
  assumes "oc \<in> data_opcodes" "flags = 0 \<or> flags = fin_flag"
  shows "(flags OR oc) AND 0x0F = oc" "(flags OR oc) AND 0x70 = 0"
    "(flags OR oc) AND 0x80 \<noteq> 0 \<longleftrightarrow> flags = fin_flag"
  using assms by (auto simp: data_opcodes_def opcode_defs)

lemma second_byte:
  fixes m :: u8
  assumes "m = 0 \<or> m = 0x80" "unat n < 128"
  shows "(m OR n) AND 0x7F = n" "(m OR n) AND 0x80 \<noteq> 0 \<longleftrightarrow> m = 0x80"
proof -
  have n: "\<not> bit n 7"
    using bit_less_exp [of n 7 7] assms(2) by auto
  have m: "bit m i \<longleftrightarrow> m = 0x80 \<and> i = 7" for i
    using assms(1) bit_0x80 [of i] by auto
  have "bit n i \<Longrightarrow> i < 7" for i using bit_less_exp [of n i 7] assms(2) by simp
  with m show "(m OR n) AND 0x7F = n"
    unfolding and_0x7f by (auto intro!: bit_word_eqI simp: bit_simps)
  show "(m OR n) AND 0x80 \<noteq> 0 \<longleftrightarrow> m = 0x80"
    unfolding and_0x80 using m n by (simp add: bit_or_iff)
qed

lemma unat_of_nat_small: "n < 2 ^ LENGTH('a) \<Longrightarrow> unat (of_nat n :: 'a::len word) = n"
  by (simp add: unat_of_nat take_bit_eq_mod)

text \<open>Decoding when the length field and the mask bit of the second byte are known.\<close>

definition len_size :: "u8 \<Rightarrow> nat" where
  "len_size lf = (if lf < 126 then 0 else if lf = 126 then 2 else 8)"

lemma decode_header_Cons:
  assumes "b2 AND 0x80 \<noteq> 0 \<longleftrightarrow> masked" "b2 AND 0x7F = lf" "lf < 126 \<or> lf = 126 \<or> lf = 127"
    and "length l = len_size lf" "length k = (if masked then 4 else 0)"
    and "b1 AND 0x70 = 0" "b1 AND 0x0F \<in> data_opcodes"
  shows "decode_header (b1 # b2 # l @ k @ r) h =
    (int (2 + length l + length k),
     \<lparr>fin = (b1 AND 0x80 \<noteq> 0), opcode = b1 AND 0x0F,
      mask_key = (if masked then from_network_order (from_bytes k) else 0),
      payload_len = (if lf = 126 then ucast (from_network_order (from_bytes l :: u16))
                     else if lf = 127 then from_network_order (from_bytes l) else ucast lf)\<rparr>)"
  using assms(3-7)
  by (auto simp: decode_header_def Let_def assms(1,2) len_size_def data_opcodes_def split: if_splits)

lemma decode_header_frame:
  assumes oc: "oc \<in> data_opcodes" and flags: "flags = 0 \<or> flags = fin_flag" and n: "n < 2 ^ 64"
  shows "decode_header (frame_header oc key n flags @ r) h =
    (int (length (frame_header oc key n flags)),
     \<lparr>fin = (flags = fin_flag), opcode = oc, mask_key = key, payload_len = of_nat n\<rparr>)"
proof -
  let ?m = "if key = 0 then 0x00 else 0x80 :: u8" and ?k = "if key \<noteq> 0 then be_bytes key else []"
  have m: "?m = 0 \<or> ?m = 0x80" "?m = 0x80 \<longleftrightarrow> key \<noteq> 0" by auto
  note fb = first_byte [OF oc flags]
  define lf :: u8 where "lf = (if n < 126 then of_nat n else if n \<le> 0xFFFF then 126 else 127)"
  define l where "l = (if n < 126 then [] else if n \<le> 0xFFFF then be_bytes (of_nat n :: u16)
    else be_bytes (of_nat n :: u64))"
  have hdr: "frame_header oc key n flags = (flags OR oc) # (?m OR lf) # l @ ?k"
    by (simp add: frame_header_def length_bytes_def lf_def l_def as_bytes_to_network_order)
  have u: "n < 126 \<Longrightarrow> unat (of_nat n :: u8) = n" by (simp add: unat_of_nat_small)
  have lf: "unat lf < 128" "lf < 126 \<or> lf = 126 \<or> lf = 127" "n < 126 \<Longrightarrow> lf < 126"
    using u by (auto simp: lf_def word_less_nat_alt)
  note sb = second_byte [OF m(1) lf(1)]
  have len: "length l = len_size lf" "length ?k = (if key \<noteq> 0 then 4 else 0)"
    using lf(3) by (auto simp: l_def lf_def len_size_def)
  have plen: "(if lf = 126 then ucast (from_network_order (from_bytes l :: u16))
       else if lf = 127 then from_network_order (from_bytes l) else ucast lf) = (of_nat n :: u64)"
  proof -
    consider "n < 126" | "126 \<le> n" "n \<le> 0xFFFF" | "0xFFFF < n" by linarith
    then show ?thesis
    proof cases
      case 1
      then have "lf \<noteq> 126" "lf \<noteq> 127" using lf(3) by auto
      with 1 u show ?thesis
        by (simp add: lf_def word_unat_eq_iff unsigned_ucast_eq take_bit_eq_mod unat_of_nat_small)
    next
      case 2
      then have "from_network_order (from_bytes l :: u16) = of_nat n"
        by (simp add: l_def from_network_order_be_bytes)
      with 2 show ?thesis by (simp add: lf_def word_unat_eq_iff unsigned_ucast_eq unat_of_nat_small take_bit_eq_mod)
    next
      case 3
      then show ?thesis by (simp add: lf_def l_def from_network_order_be_bytes)
    qed
  qed
  show ?thesis
    unfolding hdr
    using decode_header_Cons [of "?m OR lf" "key \<noteq> 0" lf l ?k "flags OR oc" r h] sb m(2) lf(2) len fb oc plen
    by (auto simp: from_network_order_be_bytes)
qed

lemma decode_header_need:
  assumes "length p < 2 + len_size (p ! 1 AND 0x7F) + (if p ! 1 AND 0x80 \<noteq> 0 then 4 else 0)"
  shows "decode_header p h = (0, h)"
  using assms by (auto simp: decode_header_def Let_def len_size_def)

lemma decode_header_short:
  assumes oc: "oc \<in> data_opcodes" and flags: "flags = 0 \<or> flags = fin_flag"
    and p: "frame_header oc key n flags = p @ q" "q \<noteq> []"
  shows "decode_header p h = (0, h)"
proof (cases "length p < 2")
  case True
  then show ?thesis by (simp add: decode_header_def)
next
  case False
  let ?m = "if key = 0 then 0x00 else 0x80 :: u8"
  have m: "?m = 0 \<or> ?m = 0x80" "?m = 0x80 \<longleftrightarrow> key \<noteq> 0" by auto
  define lf :: u8 where "lf = (if n < 126 then of_nat n else if n \<le> 0xFFFF then 126 else 127)"
  have u: "n < 126 \<Longrightarrow> unat (of_nat n :: u8) = n" by (simp add: unat_of_nat_small)
  have lf: "unat lf < 128" "n < 126 \<Longrightarrow> lf < 126" using u by (auto simp: lf_def word_less_nat_alt)
  note sb = second_byte [OF m(1) lf(1)]
  have len: "length (frame_header oc key n flags) = 2 + len_size lf + (if key \<noteq> 0 then 4 else 0)"
    using lf(2) by (auto simp: frame_header_def length_bytes_def len_size_def lf_def as_bytes_to_network_order)
  have "frame_header oc key n flags ! 1 = ?m OR lf"
    by (simp add: frame_header_def length_bytes_def lf_def nth_append)
  with p(1) False have p1: "p ! 1 = ?m OR lf" by (simp add: nth_append)
  have "length p < 2 + len_size lf + (if key \<noteq> 0 then 4 else 0)" using p len by (cases q) auto
  moreover have "p ! 1 AND 0x7F = lf" "p ! 1 AND 0x80 \<noteq> 0 \<longleftrightarrow> key \<noteq> 0"
    unfolding p1 using sb m(2) by auto
  ultimately show ?thesis by (intro decode_header_need) simp
qed

text \<open>
  C25: Decoding the beginning of an assembled frame returns its header and the number of header bytes, and the
  input continues with exactly the (masked) payload; on every proper prefix of the header, decoding asks for
  more input; and masking twice with the same key gives back the payload.
\<close>

theorem ws_frame_roundtrip:
  assumes "oc \<in> data_opcodes" "flags = 0 \<or> flags = fin_flag" "length data < 2 ^ 64"
  shows "\<exists>n. decode_header (assemble_frame oc key (mask_data key data 0) [] flags @ r) h =
             (int n, \<lparr>fin = (flags = fin_flag), opcode = oc, mask_key = key, payload_len = of_nat (length data)\<rparr>) \<and>
           0 < n \<and>
           drop n (assemble_frame oc key (mask_data key data 0) [] flags @ r) = mask_data key data 0 @ r \<and>
           mask_data key (mask_data key data 0) 0 = data \<and>
           (\<forall>k < n. decode_header (take k (assemble_frame oc key (mask_data key data 0) [] flags)) h = (0, h))"
proof -
  let ?hd = "frame_header oc key (length data) flags"
  have fr: "assemble_frame oc key (mask_data key data 0) [] flags = ?hd @ mask_data key data 0"
    by (simp add: assemble_frame_header)
  have short: "decode_header (take k (?hd @ mask_data key data 0)) h = (0, h)" if "k < length ?hd" for k
  proof -
    have "?hd = take k ?hd @ drop k ?hd" "drop k ?hd \<noteq> []" using that by simp_all
    from decode_header_short [OF assms(1,2) this] that show ?thesis by simp
  qed
  show ?thesis
    unfolding fr using decode_header_frame [OF assms, of key "mask_data key data 0 @ r" h] short
    by (intro exI [of _ "length ?hd"]) (auto simp: frame_header_def)
qed

theorem ws_frame_roundtrip_witness:
  "\<exists>n. decode_header (assemble_frame text_frame 0x01020304 (mask_data 0x01020304 [0x48, 0x69] 0) [] fin_flag @ [7])
         default_header =
             (int n, \<lparr>fin = (fin_flag = fin_flag), opcode = text_frame, mask_key = 0x01020304,
                      payload_len = of_nat (length [0x48 :: u8, 0x69])\<rparr>) \<and>
           0 < n \<and>
           drop n (assemble_frame text_frame 0x01020304 (mask_data 0x01020304 [0x48, 0x69] 0) [] fin_flag @ [7]) =
             mask_data 0x01020304 [0x48, 0x69] 0 @ [7] \<and>
           mask_data 0x01020304 (mask_data 0x01020304 [0x48, 0x69] 0) 0 = [0x48, 0x69] \<and>
           (\<forall>k < n. decode_header (take k (assemble_frame text_frame 0x01020304
              (mask_data 0x01020304 [0x48, 0x69] 0) [] fin_flag)) default_header = (0, default_header))"
  by (rule ws_frame_roundtrip) (simp_all add: data_opcodes_def)

end
