(* ===== verification/Utf8.thy ===== *)
theory Utf8
  imports CAF_Prelude
begin

text \<open>
  UTF-8 validation (\<^verbatim>\<open>libcaf_core/caf/detail/rfc3629.cpp\<close>). The validator works on bit patterns and reports
  how many bytes form complete, valid code points and whether the rest may still become valid. The reference
  is the encoding of RFC 3629 on code points: the validator accepts exactly the encodings of sequences of
  Unicode scalar values, and it can be resumed at the reported position when more bytes arrive.
\<close>

section \<open>Model\<close>

definition head :: "nat \<Rightarrow> u8 \<Rightarrow> u8" where
  "head n v =
     (if n = 1 then v AND 0x80
      else if n = 2 then v AND 0xC0
      else if n = 3 then v AND 0xE0
      else if n = 4 then v AND 0xF0
      else if n = 5 then v AND 0xF8
      else if n = 6 then v AND 0xFC
      else v AND 0xFE)"

definition is_continuation_byte :: "u8 \<Rightarrow> bool" where
  "is_continuation_byte v \<longleftrightarrow> head 2 v = 0x80"

text \<open>
  One iteration of the loop: the code point at the start of the input is complete and valid and has the given
  number of bytes, it is malformed, or the input ends before it is complete.
\<close>

datatype scan_result = Accept nat | Malformed | Incomplete

definition scan_tail :: "nat \<Rightarrow> bytes \<Rightarrow> scan_result" where
  "scan_tail n bs =
     (case bs of [] \<Rightarrow> Incomplete | y # _ \<Rightarrow> if is_continuation_byte y then Accept n else Malformed)"

definition scan2 :: "u8 \<Rightarrow> bytes \<Rightarrow> scan_result" where
  "scan2 x bs = (if head 7 x = 0xC0 then Malformed else scan_tail 2 bs)"

definition scan3 :: "u8 \<Rightarrow> bytes \<Rightarrow> scan_result" where
  "scan3 x bs =
     (case bs of [] \<Rightarrow> Incomplete
      | y # bs \<Rightarrow>
          if \<not> is_continuation_byte y then Malformed
          else if x = 0xE0 \<and> head 3 y = 0x80 then Malformed
          else if x = 0xED \<and> head 3 y = 0xA0 then Malformed
          else scan_tail 3 bs)"

definition scan4 :: "u8 \<Rightarrow> bytes \<Rightarrow> scan_result" where
  "scan4 x bs =
     (if x > 0xF4 then Malformed
      else case bs of [] \<Rightarrow> Incomplete
      | y # bs \<Rightarrow>
          if \<not> is_continuation_byte y then Malformed
          else if x = 0xF0 \<and> head 4 y = 0x80 then Malformed
          else if x = 0xF4 \<and> y \<ge> 0x90 then Malformed
          else case bs of [] \<Rightarrow> Incomplete
          | z # bs \<Rightarrow> if \<not> is_continuation_byte z then Malformed else scan_tail 4 bs)"

definition scan :: "u8 \<Rightarrow> bytes \<Rightarrow> scan_result" where
  "scan x bs =
     (if head 1 x = 0 then Accept 1
      else if head 3 x = 0xC0 then scan2 x bs
      else if head 4 x = 0xE0 then scan3 x bs
      else if head 5 x = 0xF0 then scan4 x bs
      else Malformed)"

fun validate :: "bytes \<Rightarrow> nat \<times> bool" where
  "validate [] = (0, False)"
| "validate (x # bs) =
     (case scan x bs of
        Accept n \<Rightarrow> (case validate (drop (n - 1) bs) of (k, incomplete) \<Rightarrow> (n + k, incomplete))
      | Malformed \<Rightarrow> (0, False)
      | Incomplete \<Rightarrow> (0, True))"

definition valid :: "bytes \<Rightarrow> bool" where
  "valid bs \<longleftrightarrow> fst (validate bs) = length bs"

section \<open>Reference: the encoding of code points\<close>

definition scalar_value :: "nat \<Rightarrow> bool" where
  "scalar_value c \<longleftrightarrow> c < 0x110000 \<and> \<not> (0xD800 \<le> c \<and> c \<le> 0xDFFF)"

definition code_units :: "nat \<Rightarrow> nat list" where
  "code_units c =
     (if c < 0x80 then [c]
      else if c < 0x800 then [0xC0 + c div 64, 0x80 + c mod 64]
      else if c < 0x10000 then [0xE0 + c div 4096, 0x80 + c div 64 mod 64, 0x80 + c mod 64]
      else [0xF0 + c div 262144, 0x80 + c div 4096 mod 64, 0x80 + c div 64 mod 64, 0x80 + c mod 64])"

definition utf8_encode :: "nat \<Rightarrow> bytes" where
  "utf8_encode c = map of_nat (code_units c)"

text \<open>A UTF-8 string, and a byte string that more bytes can complete to one.\<close>

definition is_utf8 :: "bytes \<Rightarrow> bool" where
  "is_utf8 bs \<longleftrightarrow> (\<exists>cs. list_all scalar_value cs \<and> bs = concat (map utf8_encode cs))"

definition begins_utf8 :: "bytes \<Rightarrow> bool" where
  "begins_utf8 bs \<longleftrightarrow> (\<exists>q. is_utf8 (bs @ q))"

section \<open>Bit patterns as ranges\<close>

lemma high_bits:
  fixes x :: u8
  assumes "k \<le> 8"
  shows "unat (x AND push_bit k (mask (8 - k))) = unat x div 2 ^ k * 2 ^ k"
proof -
  have "x AND push_bit k (mask (8 - k)) = push_bit k (drop_bit k x)"
    by (rule bit_word_eqI) (use assms in \<open>auto simp: bit_simps\<close>)
  moreover have "unat (push_bit k (drop_bit k x)) = push_bit k (drop_bit k (unat x))"
    by (rule bit_eqI) (use assms in \<open>auto simp: bit_simps dest: bit_imp_le_length\<close>)
  ultimately show ?thesis by (simp only: push_bit_eq_mult drop_bit_eq_div)
qed

lemma head_eq:
  "unat (head 1 x) = unat x div 128 * 128" "unat (head 2 x) = unat x div 64 * 64"
  "unat (head 3 x) = unat x div 32 * 32" "unat (head 4 x) = unat x div 16 * 16"
  "unat (head 5 x) = unat x div 8 * 8" "unat (head 7 x) = unat x div 2 * 2"
  using high_bits [of 7 x] high_bits [of 6 x] high_bits [of 5 x] high_bits [of 4 x] high_bits [of 3 x]
    high_bits [of 1 x]
  by (simp_all add: head_def mask_eq_exp_minus_1)

lemma unat_u8 [simp]: "unat (x :: u8) < 256"
  using unat_less_exp [of x] by simp

lemma floor_eq:
  fixes n :: nat
  assumes "0 < k"
  shows "n div k * k = c * k \<longleftrightarrow> c * k \<le> n \<and> n < c * k + k"
proof
  assume "n div k * k = c * k"
  then show "c * k \<le> n \<and> n < c * k + k"
    using div_times_less_eq_dividend [of n k] dividend_less_div_times [OF assms, of n] by simp
next
  assume "c * k \<le> n \<and> n < c * k + k"
  then have "n div k = c" by (intro div_nat_eqI) (simp_all add: mult.commute)
  then show "n div k * k = c * k" by simp
qed

lemma head_ranges:
  "head 1 x = 0 \<longleftrightarrow> unat x < 0x80"
  "head 3 x = 0xC0 \<longleftrightarrow> 0xC0 \<le> unat x \<and> unat x < 0xE0"
  "head 4 x = 0xE0 \<longleftrightarrow> 0xE0 \<le> unat x \<and> unat x < 0xF0"
  "head 5 x = 0xF0 \<longleftrightarrow> 0xF0 \<le> unat x \<and> unat x < 0xF8"
  "head 7 x = 0xC0 \<longleftrightarrow> 0xC0 \<le> unat x \<and> unat x < 0xC2"
  "head 3 x = 0x80 \<longleftrightarrow> 0x80 \<le> unat x \<and> unat x < 0xA0"
  "head 3 x = 0xA0 \<longleftrightarrow> 0xA0 \<le> unat x \<and> unat x < 0xC0"
  "head 4 x = 0x80 \<longleftrightarrow> 0x80 \<le> unat x \<and> unat x < 0x90"
  unfolding word_unat_eq_iff head_eq
  using floor_eq [of 128 "unat x" 0] floor_eq [of 32 "unat x" 6] floor_eq [of 16 "unat x" 14]
    floor_eq [of 8 "unat x" 30] floor_eq [of 2 "unat x" 96] floor_eq [of 32 "unat x" 4]
    floor_eq [of 32 "unat x" 5] floor_eq [of 16 "unat x" 8]
  by simp_all

definition cont :: "u8 \<Rightarrow> bool" where
  "cont x \<longleftrightarrow> 0x80 \<le> unat x \<and> unat x < 0xC0"

lemma is_continuation_byte_range: "is_continuation_byte x = cont x"
  unfolding is_continuation_byte_def cont_def word_unat_eq_iff head_eq
  using floor_eq [of 64 "unat x" 2] by simp

lemma byte_ranges:
  "(x = 0xE0) = (unat (x :: u8) = 0xE0)" "(x = 0xED) = (unat x = 0xED)"
  "(x = 0xF0) = (unat x = 0xF0)" "(x = 0xF4) = (unat x = 0xF4)"
  "(x > 0xF4) = (unat x > 0xF4)" "(x \<ge> 0x90) = (unat x \<ge> 0x90)"
  by (simp_all add: word_unat_eq_iff word_less_nat_alt word_le_nat_alt)

text \<open>The scanner in terms of the numeric values of the bytes.\<close>

lemma scan_numeric:
  "scan x bs =
     (if unat x < 0x80 then Accept 1
      else if 0xC0 \<le> unat x \<and> unat x < 0xE0
      then if 0xC0 \<le> unat x \<and> unat x < 0xC2 then Malformed else scan_tail 2 bs
      else if 0xE0 \<le> unat x \<and> unat x < 0xF0
      then (case bs of [] \<Rightarrow> Incomplete
           | y # bs \<Rightarrow>
               if \<not> cont y then Malformed
               else if unat x = 0xE0 \<and> (0x80 \<le> unat y \<and> unat y < 0xA0) then Malformed
               else if unat x = 0xED \<and> (0xA0 \<le> unat y \<and> unat y < 0xC0) then Malformed
               else scan_tail 3 bs)
      else if 0xF0 \<le> unat x \<and> unat x < 0xF8
      then if unat x > 0xF4 then Malformed
           else (case bs of [] \<Rightarrow> Incomplete
           | y # bs \<Rightarrow>
               if \<not> cont y then Malformed
               else if unat x = 0xF0 \<and> (0x80 \<le> unat y \<and> unat y < 0x90) then Malformed
               else if unat x = 0xF4 \<and> 0x90 \<le> unat y then Malformed
               else (case bs of [] \<Rightarrow> Incomplete
               | z # bs \<Rightarrow> if \<not> cont z then Malformed else scan_tail 4 bs))
      else Malformed)"
  unfolding scan_def scan2_def scan3_def scan4_def is_continuation_byte_range head_ranges
  unfolding byte_ranges by (rule refl)

lemmas scan_simps = scan_numeric scan_tail_def is_continuation_byte_range

lemma scan_accept_length: "scan x bs = Accept n \<Longrightarrow> 0 < n \<and> n \<le> Suc (length bs)"
  by (auto simp: scan_simps split: if_splits list.splits)

lemma scan_append: "scan x bs = Accept n \<Longrightarrow> scan x (bs @ r) = Accept n"
  by (auto simp: scan_simps split: if_splits list.splits)

section \<open>Soundness and completeness of the scanner\<close>

lemma encode_bytes: "code_units c = map unat bs \<Longrightarrow> utf8_encode c = bs"
  by (simp add: utf8_encode_def o_def)

lemma cont_value: "cont y \<Longrightarrow> \<exists>b < 64. unat y = 0x80 + b"
  by (intro exI [of _ "unat y - 0x80"]) (auto simp: cont_def)

lemma div_mod_64: "b < 64 \<Longrightarrow> (a * 64 + b) div 64 = (a :: nat)" "b < 64 \<Longrightarrow> (a * 64 + b) mod 64 = b"
  by simp_all

lemma scan1_sound:
  assumes "unat x < 0x80"
  shows "\<exists>c. scalar_value c \<and> utf8_encode c = [x]"
  using assms by (intro exI [of _ "unat x"]) (simp add: scalar_value_def utf8_encode_def code_units_def)

lemma scan2_sound:
  assumes "0xC2 \<le> unat x" "unat x < 0xE0" "cont y"
  shows "\<exists>c. scalar_value c \<and> utf8_encode c = [x, y]"
proof -
  obtain b where b: "b < 64" "unat y = 0x80 + b" using cont_value [OF assms(3)] by blast
  obtain a where a: "unat x = 0xC0 + a" using assms(1) le_Suc_ex [of "0xC0" "unat x"] by auto
  let ?c = "a * 64 + b"
  have "2 \<le> a" "a < 32" using a assms by simp_all
  with b have "0x80 \<le> ?c" "?c < 0x800" "?c div 64 = a" "?c mod 64 = b" by simp_all
  then have "code_units ?c = map unat [x, y]" "scalar_value ?c"
    using a b by (simp_all add: code_units_def scalar_value_def)
  then show ?thesis using encode_bytes by blast
qed

lemma scan3_sound:
  assumes "0xE0 \<le> unat x" "unat x < 0xF0" "cont y" "cont z"
    and "unat x = 0xE0 \<Longrightarrow> 0xA0 \<le> unat y" "unat x = 0xED \<Longrightarrow> unat y < 0xA0"
  shows "\<exists>c. scalar_value c \<and> utf8_encode c = [x, y, z]"
proof -
  obtain b where b: "b < 64" "unat y = 0x80 + b" using cont_value [OF assms(3)] by blast
  obtain d where d: "d < 64" "unat z = 0x80 + d" using cont_value [OF assms(4)] by blast
  obtain a where a: "unat x = 0xE0 + a" using assms(1) le_Suc_ex by blast
  let ?c = "(a * 64 + b) * 64 + d"
  have "a < 16" "a = 0 \<Longrightarrow> 32 \<le> b" "a = 13 \<Longrightarrow> b < 32" using a b assms by simp_all
  note bounds = this b d
  have r1: "0x800 \<le> ?c" using bounds by (cases "a = 0") auto
  have r2: "?c < 0x10000" using bounds(1,4,6) by auto
  have r3: "\<not> (0xD800 \<le> ?c \<and> ?c \<le> 0xDFFF)"
    using bounds by (cases a "13 :: nat" rule: linorder_cases) auto
  have "?c div 64 = a * 64 + b" "?c mod 64 = d" "(a * 64 + b) div 64 = a" "(a * 64 + b) mod 64 = b"
    by (intro div_mod_64 b d)+
  moreover have "?c div 4096 = ?c div 64 div 64" by (simp flip: div_mult2_eq)
  ultimately have "code_units ?c = map unat [x, y, z]" "scalar_value ?c"
    using r1 r2 r3 a b d by (simp_all add: code_units_def scalar_value_def)
  then show ?thesis using encode_bytes by blast
qed

lemma scan4_sound:
  assumes "0xF0 \<le> unat x" "unat x \<le> 0xF4" "cont y" "cont z" "cont w"
    and "unat x = 0xF0 \<Longrightarrow> 0x90 \<le> unat y" "unat x = 0xF4 \<Longrightarrow> unat y < 0x90"
  shows "\<exists>c. scalar_value c \<and> utf8_encode c = [x, y, z, w]"
proof -
  obtain b where b: "b < 64" "unat y = 0x80 + b" using cont_value [OF assms(3)] by blast
  obtain d where d: "d < 64" "unat z = 0x80 + d" using cont_value [OF assms(4)] by blast
  obtain e where e: "e < 64" "unat w = 0x80 + e" using cont_value [OF assms(5)] by blast
  obtain a where a: "unat x = 0xF0 + a" using assms(1) le_Suc_ex by blast
  let ?c = "((a * 64 + b) * 64 + d) * 64 + e"
  have "a \<le> 4" "a = 0 \<Longrightarrow> 16 \<le> b" "a = 4 \<Longrightarrow> b < 16" using a b assms by simp_all
  note bounds = this b d e
  have r1: "0x10000 \<le> ?c" using bounds by (cases "a = 0") auto
  have r2: "?c < 0x110000" using bounds by (cases "a = 4") auto
  have q: "?c div 64 = (a * 64 + b) * 64 + d" "?c mod 64 = e"
    "((a * 64 + b) * 64 + d) div 64 = a * 64 + b" "((a * 64 + b) * 64 + d) mod 64 = d"
    "(a * 64 + b) div 64 = a" "(a * 64 + b) mod 64 = b"
    by (intro div_mod_64 b d e)+
  have "?c div 4096 = ?c div 64 div 64" "?c div 262144 = ?c div 64 div 64 div 64"
    by (simp_all flip: div_mult2_eq)
  then have "code_units ?c = map unat [x, y, z, w]" "scalar_value ?c"
    using r1 r2 a b d e unfolding code_units_def scalar_value_def q by simp_all
  then show ?thesis using encode_bytes by blast
qed

lemma scan_tail_accept: "scan_tail k bs = Accept n \<longleftrightarrow> (\<exists>y r. bs = y # r \<and> cont y) \<and> n = k"
  by (cases bs) (auto simp: scan_tail_def is_continuation_byte_range)

lemma scan_sound:
  assumes "scan x bs = Accept n"
  shows "\<exists>c. scalar_value c \<and> utf8_encode c = x # take (n - 1) bs"
proof -
  consider "unat x < 0x80" | "0x80 \<le> unat x" "unat x < 0xC0" | "0xC0 \<le> unat x" "unat x < 0xE0"
    | "0xE0 \<le> unat x" "unat x < 0xF0" | "0xF0 \<le> unat x" by linarith
  then show ?thesis
  proof cases
    case 1
    then show ?thesis using assms scan1_sound by (simp add: scan_numeric)
  next
    case 2
    then show ?thesis using assms by (simp add: scan_numeric)
  next
    case 3
    then have "0xC2 \<le> unat x" "scan_tail 2 bs = Accept n"
      using assms by (auto simp: scan_numeric split: if_splits)
    with 3 show ?thesis using scan2_sound by (auto simp: scan_tail_accept)
  next
    case 4
    with assms obtain y r where bs: "bs = y # r" "cont y" "scan_tail 3 r = Accept n"
      "unat x = 0xE0 \<longrightarrow> \<not> (0x80 \<le> unat y \<and> unat y < 0xA0)" "unat x = 0xED \<longrightarrow> \<not> (0xA0 \<le> unat y \<and> unat y < 0xC0)"
      by (cases bs) (simp_all add: scan_numeric split: if_splits)
    with 4 show ?thesis
      using scan3_sound [of x y] by (auto simp: scan_tail_accept cont_def not_le not_less)
  next
    case 5
    with assms have x: "unat x \<le> 0xF4" by (auto simp: scan_numeric split: if_splits)
    with 5 assms obtain y z r where bs: "bs = y # z # r" "cont y" "cont z" "scan_tail 4 r = Accept n"
      "unat x = 0xF0 \<longrightarrow> \<not> (0x80 \<le> unat y \<and> unat y < 0x90)" "unat x = 0xF4 \<longrightarrow> \<not> 0x90 \<le> unat y"
      by (cases bs; cases "tl bs") (simp_all add: scan_numeric split: if_splits)
    with 5 x show ?thesis
      using scan4_sound [of x y z] by (auto simp: scan_tail_accept cont_def not_le not_less)
  qed
qed

lemma unat_of_nat_u8: "n < 256 \<Longrightarrow> unat (of_nat n :: u8) = n"
  by (simp add: unat_of_nat)

lemma cont_of_nat: "n < 64 \<Longrightarrow> cont (of_nat (0x80 + n))"
  using unat_of_nat_u8 [of "0x80 + n"] by (simp add: cont_def del: of_nat_add)

text \<open>Numbers as sequences of six-bit digits.\<close>

lemma digits3: "(c :: nat) = (c div 4096) * 4096 + (c div 64 mod 64) * 64 + c mod 64"
proof -
  have "c div 4096 = c div 64 div 64" by (simp flip: div_mult2_eq)
  then show ?thesis
    using div_mult_mod_eq [of c 64] div_mult_mod_eq [of "c div 64" 64] by linarith
qed

lemma digits4: "(c :: nat) = (c div 262144) * 262144 + (c div 4096 mod 64) * 4096 + (c div 64 mod 64) * 64 + c mod 64"
proof -
  have "c div 262144 = c div 4096 div 64" by (simp flip: div_mult2_eq)
  then show ?thesis
    using digits3 [of c] div_mult_mod_eq [of "c div 4096" 64] by linarith
qed

lemma scan_complete:
  assumes "scalar_value c"
  shows "\<exists>x bs. utf8_encode c = x # bs \<and> (\<forall>r. scan x (bs @ r) = Accept (Suc (length bs)))"
proof -
  consider "c < 0x80" | "0x80 \<le> c" "c < 0x800" | "0x800 \<le> c" "c < 0x10000" | "0x10000 \<le> c" "c < 0x110000"
    using assms unfolding scalar_value_def by linarith
  then show ?thesis
  proof cases
    case 1
    then show ?thesis
      by (simp add: utf8_encode_def code_units_def scan_simps unat_of_nat_u8)
  next
    case 2
    then have "utf8_encode c = [of_nat (0xC0 + c div 64), of_nat (0x80 + c mod 64)]"
      by (simp add: utf8_encode_def code_units_def)
    moreover have "2 \<le> c div 64" "c div 64 < 32" using 2 by auto
    moreover from this have "unat (of_nat (0xC0 + c div 64) :: u8) = 0xC0 + c div 64"
      by (intro unat_of_nat_u8) simp
    ultimately show ?thesis
      using cont_of_nat [of "c mod 64"] by (simp add: scan_simps del: of_nat_add)
  next
    case 3
    let ?x = "of_nat (0xE0 + c div 4096) :: u8" and ?y = "of_nat (0x80 + c div 64 mod 64) :: u8"
    have a: "c div 4096 < 16" "c div 4096 = 0 \<Longrightarrow> 32 \<le> c div 64 mod 64"
      "c div 4096 = 13 \<Longrightarrow> c div 64 mod 64 < 32"
      using 3 assms digits3 [of c] by (auto simp: scalar_value_def)
    from 3 have "utf8_encode c = [?x, ?y, of_nat (0x80 + c mod 64)]"
      by (simp add: utf8_encode_def code_units_def)
    moreover have "unat ?x = 0xE0 + c div 4096" using a by (intro unat_of_nat_u8) simp
    moreover have "unat ?y = 0x80 + c div 64 mod 64"
      by (rule unat_of_nat_u8, rule less_trans [of _ "0x80 + 64"]) simp_all
    ultimately show ?thesis
      using a cont_of_nat [of "c mod 64"] cont_of_nat [of "c div 64 mod 64"]
      by (auto simp: scan_simps simp del: of_nat_add)
  next
    case 4
    let ?x = "of_nat (0xF0 + c div 262144) :: u8" and ?y = "of_nat (0x80 + c div 4096 mod 64) :: u8"
    have a: "c div 262144 \<le> 4" "c div 262144 = 0 \<Longrightarrow> 16 \<le> c div 4096 mod 64"
      "c div 262144 = 4 \<Longrightarrow> c div 4096 mod 64 < 16"
      using 4 digits4 [of c] by auto
    from 4 have "utf8_encode c = [?x, ?y, of_nat (0x80 + c div 64 mod 64), of_nat (0x80 + c mod 64)]"
      by (simp add: utf8_encode_def code_units_def)
    moreover have "unat ?x = 0xF0 + c div 262144" using a by (intro unat_of_nat_u8) simp
    moreover have "unat ?y = 0x80 + c div 4096 mod 64"
      by (rule unat_of_nat_u8, rule less_trans [of _ "0x80 + 64"]) simp_all
    ultimately show ?thesis
      using a cont_of_nat [of "c mod 64"] cont_of_nat [of "c div 64 mod 64"] cont_of_nat [of "c div 4096 mod 64"]
      by (auto simp: scan_simps simp del: of_nat_add)
  qed
qed

section \<open>The validator\<close>

lemma validate_bound: "fst (validate bs) \<le> length bs"
proof (induction bs rule: validate.induct)
  case (2 x bs)
  show ?case
  proof (cases "scan x bs")
    case (Accept n)
    then show ?thesis
      using 2 [OF Accept] scan_accept_length [OF Accept] by (auto split: prod.splits)
  qed simp_all
qed simp

lemma validate_accept:
  "scan x bs = Accept n \<Longrightarrow> validate (x # bs) = (n + fst (validate (drop (n - 1) bs)), snd (validate (drop (n - 1) bs)))"
  by (simp split: prod.splits)

lemma valid_Cons_iff:
  "valid (x # bs) \<longleftrightarrow> (\<exists>n. scan x bs = Accept n \<and> valid (drop (n - 1) bs))"
proof (cases "scan x bs")
  case (Accept n)
  then have "0 < n" "n \<le> Suc (length bs)" using scan_accept_length by auto
  with Accept show ?thesis by (auto simp: valid_def validate_accept simp del: validate.simps(2))
qed (simp_all add: valid_def)

lemma valid_encode:
  "list_all scalar_value cs \<Longrightarrow> valid (concat (map utf8_encode cs))"
proof (induction cs)
  case Nil
  then show ?case by (simp add: valid_def)
next
  case (Cons c cs)
  then obtain x bs where "utf8_encode c = x # bs" "\<And>r. scan x (bs @ r) = Accept (Suc (length bs))"
    using scan_complete [of c] by auto
  with Cons show ?case by (simp add: valid_Cons_iff)
qed

lemma valid_decode:
  "valid bs \<Longrightarrow> \<exists>cs. list_all scalar_value cs \<and> bs = concat (map utf8_encode cs)"
proof (induction bs rule: length_induct)
  case (1 bs)
  show ?case
  proof (cases bs)
    case Nil
    then show ?thesis by (intro exI [of _ "[]"]) simp
  next
    case (Cons x r)
    with 1(2) obtain n where n: "scan x r = Accept n" "valid (drop (n - 1) r)"
      by (auto simp: valid_Cons_iff)
    from n(1) obtain c where c: "scalar_value c" "utf8_encode c = x # take (n - 1) r"
      using scan_sound by blast
    from 1(1) n(2) Cons obtain cs where cs: "list_all scalar_value cs"
      "drop (n - 1) r = concat (map utf8_encode cs)"
      by (metis length_drop length_Cons less_Suc_eq_le diff_le_self)
    have "bs = utf8_encode c @ concat (map utf8_encode cs)"
      unfolding c(2) cs(2) [symmetric] by (simp add: Cons)
    with c(1) cs(1) show ?thesis by (intro exI [of _ "c # cs"]) simp
  qed
qed

lemma validate_resume:
  assumes "fst (validate p) = length p \<or> snd (validate p)"
  shows "validate (p @ q) =
    (fst (validate p) + fst (validate (drop (fst (validate p)) p @ q)), snd (validate (drop (fst (validate p)) p @ q)))"
  using assms
proof (induction p rule: validate.induct)
  case (2 x bs)
  show ?case
  proof (cases "scan x bs")
    case (Accept n)
    then have n: "0 < n" "n - 1 \<le> length bs" using scan_accept_length [OF Accept] by auto
    let ?r = "drop (n - 1) bs"
    have v: "validate (x # bs) = (n + fst (validate ?r), snd (validate ?r))"
      by (rule validate_accept [OF Accept])
    have va: "validate (x # bs @ q) = (n + fst (validate (?r @ q)), snd (validate (?r @ q)))"
      using validate_accept [OF scan_append [OF Accept]] n by simp
    have "fst (validate ?r) = length ?r \<or> snd (validate ?r)"
      using 2(2) v n by (auto simp del: validate.simps(2))
    note IH = 2(1) [OF Accept this]
    have "drop (n + fst (validate ?r)) (x # bs) = drop (fst (validate ?r)) ?r"
      using n by (cases n) (simp_all add: add.commute)
    then show ?thesis using IH v va by (simp del: validate.simps(2))
  qed (use 2 in auto)
qed simp

lemma scan_malformed_append: "scan x bs = Malformed \<Longrightarrow> scan x (bs @ r) = Malformed"
  by (auto simp: scan_def scan2_def scan3_def scan4_def scan_tail_def split: list.splits if_splits)

text \<open>The bytes so far can be continued to a valid string, as far as the validator can tell.\<close>

definition utf8_prefix :: "bytes \<Rightarrow> bool" where
  "utf8_prefix bs \<longleftrightarrow> fst (validate bs) = length bs \<or> snd (validate bs)"

lemma utf8_prefix_Nil [simp]: "utf8_prefix []"
  by (simp add: utf8_prefix_def)

lemma valid_utf8_prefix: "valid bs \<Longrightarrow> utf8_prefix bs"
  by (simp add: utf8_prefix_def valid_def)

lemma utf8_prefix_accept:
  "scan x bs = Accept n \<Longrightarrow> utf8_prefix (x # bs) \<longleftrightarrow> utf8_prefix (drop (n - 1) bs)"
  using scan_accept_length [of x bs n]
  by (auto simp: utf8_prefix_def validate_accept simp del: validate.simps(2))

lemma utf8_prefix_append: "utf8_prefix (p @ q) \<Longrightarrow> utf8_prefix p"
proof (induction p rule: validate.induct)
  case (2 x bs)
  show ?case
  proof (cases "scan x bs")
    case (Accept n)
    then have "drop (n - 1) (bs @ q) = drop (n - 1) bs @ q" using scan_accept_length [OF Accept] by simp
    with 2 Accept show ?thesis
      using utf8_prefix_accept [OF scan_append [OF Accept, of q]] by (simp add: utf8_prefix_accept)
  next
    case Malformed
    from scan_malformed_append [OF this, of q] 2(2) show ?thesis by (simp add: utf8_prefix_def)
  qed (simp add: utf8_prefix_def)
qed simp

text \<open>What the validator takes for the beginning of a code point can be completed.\<close>

lemma scan_incomplete:
  assumes "scan x bs = Incomplete"
  shows "\<exists>q. scan x (bs @ q) = Accept (Suc (length (bs @ q)))"
proof -
  consider (two) "head 3 x = 0xC0" "scan x = scan2 x" | (three) "head 4 x = 0xE0" "scan x = scan3 x"
    | (four) "head 5 x = 0xF0" "scan x = scan4 x"
    using assms by (auto simp: scan_def fun_eq_iff split: if_splits)
  then show ?thesis
  proof cases
    case two
    with assms show ?thesis
      by (intro exI [of _ "[0x80]"]) (auto simp: scan2_def scan_tail_def is_continuation_byte_def head_def split: list.splits if_splits)
  next
    case three
    with assms show ?thesis
      by (intro exI [of _ "if bs = [] then [if x = 0xE0 then 0xA0 else 0x80, 0x80] else [0x80]"])
        (auto simp: scan3_def scan_tail_def is_continuation_byte_def head_def split: list.splits if_splits)
  next
    case four
    with assms show ?thesis
      by (intro exI [of _ "if bs = [] then [if x = 0xF0 then 0x90 else 0x80, 0x80, 0x80]
          else if length bs = 1 then [0x80, 0x80] else [0x80]"])
        (auto simp: scan4_def scan_tail_def is_continuation_byte_def head_def split: list.splits if_splits)
  qed
qed

lemma utf8_prefix_completes: "utf8_prefix p \<Longrightarrow> \<exists>q. valid (p @ q)"
proof (induction p rule: validate.induct)
  case 1
  show ?case by (intro exI [of _ "[]"]) (simp add: valid_def)
next
  case (2 x bs)
  show ?case
  proof (cases "scan x bs")
    case (Accept n)
    with 2 obtain q where "valid (drop (n - 1) bs @ q)" by (auto simp: utf8_prefix_accept)
    then show ?thesis
      using scan_append [OF Accept, of q] scan_accept_length [OF Accept]
      by (intro exI [of _ q]) (simp add: valid_Cons_iff)
  next
    case Malformed
    with 2(2) show ?thesis by (simp add: utf8_prefix_def)
  next
    case Incomplete
    then obtain q where "scan x (bs @ q) = Accept (Suc (length (bs @ q)))" using scan_incomplete by blast
    then show ?thesis by (intro exI [of _ q]) (simp add: valid_Cons_iff valid_def)
  qed
qed

lemma valid_is_utf8: "valid bs \<longleftrightarrow> is_utf8 bs"
  unfolding is_utf8_def using valid_decode valid_encode by blast

lemma utf8_prefix_begins: "utf8_prefix bs \<longleftrightarrow> begins_utf8 bs"
  unfolding begins_utf8_def valid_is_utf8 [symmetric]
  using utf8_prefix_completes utf8_prefix_append valid_utf8_prefix by blast

text \<open>
  C23: The validator accepts a byte string if and only if it is the UTF-8 encoding of a sequence of Unicode
  scalar values: no overlong forms, no surrogates, nothing above \<open>0x10FFFF\<close>.
\<close>

theorem utf8_valid_iff_encoding:
  "valid bs \<longleftrightarrow> (\<exists>cs. list_all scalar_value cs \<and> bs = concat (map utf8_encode cs))"
  using valid_decode valid_encode by blast

text \<open>
  C24: Validation can be resumed. If the bytes so far are valid or end within a code point, validating the whole
  input gives the same result as continuing at the reported position with the bytes that arrived later.
\<close>

theorem utf8_validation_resumes:
  assumes "fst (validate p) = length p \<or> snd (validate p)"
  shows "fst (validate p) \<le> length p \<and>
    validate (p @ q) = (fst (validate p) + fst (validate (drop (fst (validate p)) p @ q)),
                        snd (validate (drop (fst (validate p)) p @ q)))"
  using validate_bound validate_resume [OF assms] by blast

theorem utf8_validation_resumes_witness:
  "validate [0x61, 0xE2, 0x82] = (1, True) \<and>
   validate ([0x61, 0xE2, 0x82] @ [0xAC]) =
     (1 + fst (validate (drop 1 [0x61, 0xE2, 0x82] @ [0xAC])),
      snd (validate (drop 1 [0x61, 0xE2, 0x82] @ [0xAC])))"
proof -
  have v: "validate [0x61, 0xE2, 0x82] = (1, True)"
    by (simp add: scan_simps cont_def)
  show ?thesis
    using utf8_validation_resumes [of "[0x61, 0xE2, 0x82]" "[0xAC]"] unfolding v by simp
qed

end
