(* ===== verification/Web_Socket.thy ===== *)
theory Web_Socket
  imports Web_Socket_Frame Utf8 Octet_Stream Spsc_Buffer
begin

text \<open>
  The WebSocket framing layer (\<^verbatim>\<open>libcaf_net/caf/net/web_socket/framing.cpp\<close>) on the octet stream transport:
  header validation, reassembly of fragmented messages, incremental UTF-8 validation, control frames and the
  closing handshake. The layer above is a table of functions, as for length-prefix framing; the flow bridge
  of \<^verbatim>\<open>libcaf_net/caf/internal/ws_flow_bridge.cpp\<close> is one instance. The abstract protocol \<open>recv_frame\<close> describes what a
  sequence of frames means; the layer implements it.
\<close>

section \<open>Model\<close>

definition max_frame_size :: nat where
  "max_frame_size = 0x7FFFFFFF"

definition default_receive_policy :: receive_policy where
  "default_receive_policy = up_to 2048"

record 'a ws_framing =
  ws_app :: 'a
  mask_outgoing_frames :: bool
  binary_buf :: bytes
  text_buf :: bytes
  rng :: "nat \<Rightarrow> u32"
  drawn :: nat
  hdr :: ws_header
  opcode_cache :: u8
  payload_buf :: bytes
  validation_offset :: nat

type_synonym 'a ws_layer = "'a ws_framing layer"

text \<open>
  The virtual functions of the layer above, and the rendering of errors, which only shows up in the text of
  closing frames.
\<close>

record 'a ws_upper_layer =
  ws_start :: "'a ws_layer \<Rightarrow> error \<times> 'a ws_layer"
  ws_abort :: "error \<Rightarrow> 'a ws_layer \<Rightarrow> 'a ws_layer"
  ws_consume_text :: "bytes \<Rightarrow> 'a ws_layer \<Rightarrow> int \<times> 'a ws_layer"
  ws_consume_binary :: "bytes \<Rightarrow> 'a ws_layer \<Rightarrow> int \<times> 'a ws_layer"
  ws_prepare_send :: "'a ws_layer \<Rightarrow> 'a ws_layer"
  ws_done_sending :: "'a ws_layer \<Rightarrow> bool"
  error_text :: "error \<Rightarrow> bytes"

definition make_client :: "'a \<Rightarrow> (nat \<Rightarrow> u32) \<Rightarrow> 'a ws_framing" where
  "make_client a keys =
     \<lparr>ws_app = a, mask_outgoing_frames = True, binary_buf = [], text_buf = [], rng = keys, drawn = 0,
      hdr = default_header, opcode_cache = invalid_frame, payload_buf = [], validation_offset = 0\<rparr>"

definition make_server :: "'a \<Rightarrow> (nat \<Rightarrow> u32) \<Rightarrow> 'a ws_framing" where
  "make_server a keys = (make_client a keys)\<lparr>mask_outgoing_frames := False\<rparr>"

definition payload_valid :: "bytes \<Rightarrow> nat \<Rightarrow> bool \<times> nat" where
  "payload_valid payload offset =
     (case validate (drop offset payload) of (index, incomplete) \<Rightarrow>
        (offset + index = length payload \<or> incomplete, offset + index))"

definition closing_status_ok :: "nat \<Rightarrow> bool" where
  "closing_status_ok status \<longleftrightarrow>
     3000 \<le> status \<and> status < 5000 \<or> status \<in> {1000, 1001, 1002, 1003, 1007, 1008, 1009, 1010, 1011}"

definition validate_closing_payload :: "bytes \<Rightarrow> error" where
  "validate_closing_payload payload =
     (if payload = [] then no_error
      else if length payload = 1 then sec_error protocol_error
      else
        let status = unat (payload ! 0) * 256 + unat (payload ! 1)
        in if \<not> valid (drop 2 payload) then sec_error protocol_error
           else if closing_status_ok status then no_error
           else sec_error protocol_error)"

text \<open>Drawing a masking key; unmasked output uses key 0.\<close>

definition next_key :: "'a ws_framing \<Rightarrow> u32 \<times> 'a ws_framing" where
  "next_key f = (if mask_outgoing_frames f then (rng f (drawn f), f\<lparr>drawn := Suc (drawn f)\<rparr>) else (0, f))"

definition ship :: "u8 \<Rightarrow> u32 \<Rightarrow> bytes \<Rightarrow> 'u lower \<Rightarrow> 'u lower" where
  "ship oc key data lo = append_output (assemble_frame oc key data [] fin_flag) (begin_output lo)"

text \<open>Masks the payload in place, so the payload is returned as well.\<close>

definition ship_pong :: "bytes \<Rightarrow> 'a ws_layer \<Rightarrow> bytes \<times> 'a ws_layer" where
  "ship_pong payload l = (case l of (f, lo) \<Rightarrow> (case next_key f of (key, f') \<Rightarrow>
     let payload' = (if mask_outgoing_frames f then mask_data key payload 0 else payload)
     in (payload', f', ship pong_frame key payload' lo)))"

definition ship_frame :: "u8 \<Rightarrow> bytes \<Rightarrow> 'a ws_layer \<Rightarrow> 'a ws_layer" where
  "ship_frame oc buf l = (case l of (f, lo) \<Rightarrow> (case next_key f of (key, f') \<Rightarrow>
     (f', ship oc key (if mask_outgoing_frames f then mask_data key buf 0 else buf) lo)))"

definition ship_closing_message :: "'a ws_layer \<Rightarrow> 'a ws_layer" where
  "ship_closing_message l = (case l of (f, lo) \<Rightarrow> (case next_key f of (key, f') \<Rightarrow>
     (f', ship connection_close_frame key [] lo)))"

definition ship_closing_status :: "u16 \<Rightarrow> bytes \<Rightarrow> 'a ws_layer \<Rightarrow> 'a ws_layer" where
  "ship_closing_status code msg l = (case l of (f, lo) \<Rightarrow> (case next_key f of (key, f') \<Rightarrow>
     let payload = [ucast (drop_bit 8 code AND 0x00FF), ucast (code AND 0x00FF)] @ msg
     in (f', ship connection_close_frame key (if mask_outgoing_frames f then mask_data key payload 0 else payload) lo)))"

definition ws_shutdown_status :: "u16 \<Rightarrow> bytes \<Rightarrow> 'a ws_layer \<Rightarrow> 'a ws_layer" where
  "ws_shutdown_status code msg l =
     (case ship_closing_status code msg l of (f, lo) \<Rightarrow> (f, shutdown lo))"

text \<open>
  \<^verbatim>\<open>lower_layer::shutdown(const error&)\<close>: the error code selects the status code, whatever the category of the
  error is.
\<close>

definition ws_shutdown :: "(error \<Rightarrow> bytes) \<Rightarrow> error \<Rightarrow> 'a ws_layer \<Rightarrow> 'a ws_layer" where
  "ws_shutdown to_string reason l =
     (if error_code reason = sec_code connection_closed then ws_shutdown_status 1000 (to_string reason) l
      else if error_code reason = sec_code protocol_error then ws_shutdown_status 1002 (to_string reason) l
      else if error_code reason = sec_code malformed_message then ws_shutdown_status 1007 (to_string reason) l
      else ws_shutdown_status 1011 (to_string reason) l)"

definition abort_and_shutdown :: "'a ws_upper_layer \<Rightarrow> error \<Rightarrow> 'a ws_layer \<Rightarrow> 'a ws_layer" where
  "abort_and_shutdown au e l = ws_shutdown (error_text au) e (ws_abort au e l)"

definition ws_suspend_reading :: "'a ws_layer \<Rightarrow> 'a ws_layer" where
  "ws_suspend_reading l = (case l of (f, lo) \<Rightarrow> (f, configure_read stop lo))"

definition ws_request_messages :: "'a ws_layer \<Rightarrow> 'a ws_layer" where
  "ws_request_messages l = (case l of (f, lo) \<Rightarrow>
     (f, if \<not> is_reading lo then configure_read default_receive_policy lo else lo))"

definition end_binary_message :: "'a ws_layer \<Rightarrow> bool \<times> 'a ws_layer" where
  "end_binary_message l = (case ship_frame binary_frame (binary_buf (fst l)) l of
     (f, lo) \<Rightarrow> (True, f\<lparr>binary_buf := []\<rparr>, lo))"

definition end_text_message :: "'a ws_layer \<Rightarrow> bool \<times> 'a ws_layer" where
  "end_text_message l = (case ship_frame text_frame (text_buf (fst l)) l of
     (f, lo) \<Rightarrow> (True, f\<lparr>text_buf := []\<rparr>, lo))"

definition validate_header :: "nat \<Rightarrow> 'a ws_framing \<Rightarrow> error" where
  "validate_header hdr_bytes f =
     (let h = hdr f; plen = unat (payload_len h) in
      if is_control_frame (opcode h)
      then if plen > 125 then sec_error protocol_error
           else if \<not> fin h then sec_error protocol_error
           else no_error
      else if plen \<ge> max_frame_size - hdr_bytes then sec_error protocol_error
      else if length (payload_buf f) + plen > max_frame_size then sec_error protocol_error
      else if opcode h \<noteq> continuation_frame \<and> opcode_cache f \<noteq> invalid_frame then sec_error protocol_error
      else if opcode h = continuation_frame \<and> opcode_cache f = invalid_frame then sec_error protocol_error
      else no_error)"

definition consume_header :: "'a ws_upper_layer \<Rightarrow> bytes \<Rightarrow> 'a ws_layer \<Rightarrow> int \<times> 'a ws_layer" where
  "consume_header au buffer l = (case l of (f, lo) \<Rightarrow>
     (case decode_header buffer (hdr f) of (hdr_bytes, h) \<Rightarrow>
        let f = f\<lparr>hdr := h\<rparr> in
        if hdr_bytes < 0 then (- 1, abort_and_shutdown au (sec_error protocol_error) (f, lo))
        else if hdr_bytes = 0 then (0, f, lo)
        else
          let e = validate_header (nat hdr_bytes) f in
          if e \<noteq> no_error then (- 1, abort_and_shutdown au e (f, lo))
          else if opcode h = text_frame \<or> (opcode h = continuation_frame \<and> opcode_cache f = text_frame)
          then (hdr_bytes, f, configure_read (up_to (unat (payload_len h))) lo)
          else (hdr_bytes, f, configure_read (exactly (unat (payload_len h))) lo)))"

text \<open>Ends the processing of a frame.\<close>

definition finish_frame :: "'a ws_layer \<Rightarrow> 'a ws_layer" where
  "finish_frame l = (case l of (f, lo) \<Rightarrow>
     (f\<lparr>hdr := (hdr f)\<lparr>opcode := invalid_frame\<rparr>\<rparr>, configure_read default_receive_policy lo))"

definition handle :: "'a ws_upper_layer \<Rightarrow> u8 \<Rightarrow> bytes \<Rightarrow> nat \<Rightarrow> 'a ws_layer \<Rightarrow> int \<times> bytes \<times> 'a ws_layer" where
  "handle au oc payload frame_size l =
     (if oc = connection_close_frame
      then let e = validate_closing_payload payload
           in (- 1, payload, abort_and_shutdown au (if e \<noteq> no_error then e else sec_error connection_closed) l)
      else if oc = text_frame
      then (case ws_consume_text au payload l of (res, l') \<Rightarrow>
              if res < 0 then (- 1, payload, l') else (int frame_size, payload, finish_frame l'))
      else if oc = binary_frame
      then (case ws_consume_binary au payload l of (res, l') \<Rightarrow>
              if res < 0 then (- 1, payload, l') else (int frame_size, payload, finish_frame l'))
      else if oc = ping_frame
      then (case ship_pong payload l of (payload', l') \<Rightarrow> (int frame_size, payload', finish_frame l'))
      else (int frame_size, payload, finish_frame l))"

text \<open>
  The fragmentation logic: what \<^verbatim>\<open>consume_payload\<close> does with the (unmasked) buffer before it looks at the end of
  the frame. \<^term>\<open>None\<close> is invalid UTF-8, the flag says whether the frame is complete.
\<close>

definition collect_payload :: "bytes \<Rightarrow> nat \<Rightarrow> 'a ws_framing \<Rightarrow> (bool \<times> 'a ws_framing) option" where
  "collect_payload buffer offset f =
     (if opcode (hdr f) = text_frame \<or> opcode_cache f = text_frame
      then
        let f1 = (if opcode (hdr f) = text_frame \<and> fin (hdr f) then f
                  else f\<lparr>payload_buf := payload_buf f @ drop offset buffer\<rparr>);
            subject = (if opcode (hdr f) = text_frame \<and> fin (hdr f) then buffer else payload_buf f1)
        in (case payload_valid subject (validation_offset f) of (ok, off) \<Rightarrow>
              if \<not> ok then None
              else Some (unat (payload_len (hdr f)) \<le> length buffer, f1\<lparr>validation_offset := off\<rparr>))
      else if (opcode (hdr f) = binary_frame \<and> \<not> fin (hdr f)) \<or> opcode_cache f = binary_frame
      then Some (True, f\<lparr>payload_buf := payload_buf f @ buffer\<rparr>)
      else Some (True, f))"

definition consume_payload :: "'a ws_upper_layer \<Rightarrow> bytes \<Rightarrow> nat \<Rightarrow> 'a ws_layer \<Rightarrow> int \<times> bytes \<times> 'a ws_layer" where
  "consume_payload au raw offset l = (case l of (f, lo) \<Rightarrow>
     let h = hdr f;
         plen = unat (payload_len h);
         buffer = (if mask_key h \<noteq> 0 then mask_data (mask_key h) raw offset else raw)
     in if is_control_frame (opcode h) then handle au (opcode h) buffer plen (f, lo)
        else (case collect_payload buffer offset f of
          None \<Rightarrow> (- 1, buffer, abort_and_shutdown au (sec_error malformed_message) (f, lo))
        | Some (complete, f1) \<Rightarrow>
            if \<not> complete then (0, buffer, f1, lo)
            else if fin h
            then if opcode_cache f1 = invalid_frame
                 then if opcode h = text_frame \<and> validation_offset f1 \<noteq> length buffer
                      then (- 1, buffer, abort_and_shutdown au (sec_error malformed_message) (f1, lo))
                      else handle au (opcode h) buffer plen (f1\<lparr>validation_offset := 0\<rparr>, lo)
                 else if opcode_cache f1 = text_frame \<and> validation_offset f1 \<noteq> length (payload_buf f1)
                      then (- 1, buffer, abort_and_shutdown au (sec_error malformed_message) (f1, lo))
                      else (case handle au (opcode_cache f1) (payload_buf f1) plen (f1, lo) of
                              (res, pb, f2, lo2) \<Rightarrow>
                                (res, buffer, f2\<lparr>opcode_cache := invalid_frame, payload_buf := [],
                                                 validation_offset := 0\<rparr>, lo2))
            else let f2 = (if opcode_cache f1 = invalid_frame then f1\<lparr>opcode_cache := opcode h\<rparr> else f1)
                 in (int plen, buffer, finish_frame (f2, lo))))"

definition ws_consume :: "'a ws_upper_layer \<Rightarrow> bytes \<Rightarrow> nat \<Rightarrow> 'a ws_layer \<Rightarrow> int \<times> bytes \<times> 'a ws_layer" where
  "ws_consume au buffer offset l =
     (if \<not> header_valid (hdr (fst l))
      then (case consume_header au buffer l of (hdr_bytes, l') \<Rightarrow>
              if hdr_bytes \<le> 0 then (hdr_bytes, buffer, l')
              else if payload_len (hdr (fst l')) = 0
              then (case consume_payload au [] 0 l' of (res, _, l'') \<Rightarrow>
                      (if res < 0 then - 1 else hdr_bytes, buffer, l''))
              else (hdr_bytes, buffer, l'))
      else consume_payload au buffer offset l)"

definition ws_vtable :: "'a ws_upper_layer \<Rightarrow> 'a ws_framing upper_layer" where
  "ws_vtable au =
     \<lparr>up_start = (\<lambda>(f, lo). ws_start au (f, configure_read default_receive_policy lo)),
      up_abort = (\<lambda>reason l. ws_abort au reason (ship_closing_message l)),
      up_consume = ws_consume au,
      up_prepare_send = ws_prepare_send au, up_done_sending = ws_done_sending au,
      up_written = (\<lambda>n l. l)\<rparr>"

text \<open>
  The flow bridge: it pushes every message to an SPSC buffer, which it gives up when it closes it, and suspends
  reading when the buffer is full; its input are the messages that the application wants to send and how
  that sequence ends (\<^term>\<open>None\<close> once released).
\<close>

datatype ws_message = Text bytes | Binary bytes

datatype pull_end = Open | Stopped | Aborted error

record ws_flow_bridge =
  ws_out :: "ws_message spsc_buffer"
  ws_out_open :: bool
  ws_inp :: "(ws_message list \<times> pull_end) option"

type_synonym ws_bridge_layer = "ws_flow_bridge ws_layer"

definition set_app :: "('a \<Rightarrow> 'a) \<Rightarrow> 'a ws_layer \<Rightarrow> 'a ws_layer" where
  "set_app g l = (case l of (f, lo) \<Rightarrow> (f\<lparr>ws_app := g (ws_app f)\<rparr>, lo))"

definition ws_bridge_write :: "ws_message \<Rightarrow> ws_bridge_layer \<Rightarrow> bool \<times> ws_bridge_layer" where
  "ws_bridge_write item l = (case (item, l) of
     (Binary b, f, lo) \<Rightarrow> end_binary_message (f\<lparr>binary_buf := binary_buf f @ b\<rparr>, lo)
   | (Text b, f, lo) \<Rightarrow> end_text_message (f\<lparr>text_buf := text_buf f @ b\<rparr>, lo))"

definition ws_bridge_consume :: "(bytes \<Rightarrow> ws_message) \<Rightarrow> bytes \<Rightarrow> ws_bridge_layer \<Rightarrow> int \<times> ws_bridge_layer" where
  "ws_bridge_consume mk b l = (case l of (f, lo) \<Rightarrow>
     if \<not> ws_out_open (ws_app f) then (- 1, f, lo)
     else case push [mk b] (ws_out (ws_app f)) of (n, q) \<Rightarrow>
       let l' = set_app (\<lambda>a. a\<lparr>ws_out := q\<rparr>) (f, lo)
       in (int (length b), if n = 0 then ws_suspend_reading l' else l'))"

definition ws_bridge_abort :: "error \<Rightarrow> ws_bridge_layer \<Rightarrow> ws_bridge_layer" where
  "ws_bridge_abort reason l =
     set_app (\<lambda>a. (if ws_out_open a
                  then a\<lparr>ws_out := (if reason \<in> {no_error, sec_error connection_closed,
                                       sec_error socket_disconnected, sec_error disposed}
                                    then close (ws_out a) else abort reason (ws_out a)), ws_out_open := False\<rparr>
                  else a)\<lparr>ws_inp := None\<rparr>) l"

text \<open>
  The send loop, with the results of \<^verbatim>\<open>in_.pull\<close>. When the result is \<^verbatim>\<open>abort\<close>, the bridge resets \<^verbatim>\<open>in_\<close> before it
  asks it for the reason, and a reset adapter answers \<^verbatim>\<open>disposed\<close>. Pulling from an adapter that has been reset
  gives \<^verbatim>\<open>abort\<close> as well.
\<close>

definition consumer_abort_reason :: "(ws_message list \<times> pull_end) option \<Rightarrow> error" where
  "consumer_abort_reason inp = (case inp of None \<Rightarrow> sec_error disposed | Some (_, Aborted e) \<Rightarrow> e | Some _ \<Rightarrow> no_error)"

definition ws_input_aborted :: "(error \<Rightarrow> bytes) \<Rightarrow> ws_bridge_layer \<Rightarrow> ws_bridge_layer" where
  "ws_input_aborted to_string l =
     (let l = set_app (\<lambda>a. a\<lparr>ws_inp := None\<rparr>) l;
          l = ws_bridge_abort (consumer_abort_reason (ws_inp (ws_app (fst l)))) l
      in ws_shutdown to_string (consumer_abort_reason (ws_inp (ws_app (fst l)))) l)"

primrec ws_send_loop :: "(error \<Rightarrow> bytes) \<Rightarrow> pull_end \<Rightarrow> ws_message list \<Rightarrow> ws_bridge_layer \<Rightarrow> ws_bridge_layer" where
  "ws_send_loop to_string e [] l =
     (if \<not> can_send_more (snd l) then l
      else case e of
        Open \<Rightarrow> l
      | Stopped \<Rightarrow>
          ws_shutdown_status 1000 [0x45, 0x4F, 0x46] (ws_bridge_abort no_error (set_app (\<lambda>a. a\<lparr>ws_inp := None\<rparr>) l))
      | Aborted _ \<Rightarrow> ws_input_aborted to_string l)"
| "ws_send_loop to_string e (m # ms) l =
     (if \<not> can_send_more (snd l) then l
      else case ws_bridge_write m (set_app (\<lambda>a. a\<lparr>ws_inp := Some (ms, e)\<rparr>) l) of
        (True, l') \<Rightarrow> ws_send_loop to_string e ms l'
      | (False, l') \<Rightarrow> ws_shutdown to_string (sec_error runtime_error) (ws_bridge_abort (sec_error runtime_error) l'))"

definition ws_bridge_prepare_send :: "(error \<Rightarrow> bytes) \<Rightarrow> ws_bridge_layer \<Rightarrow> ws_bridge_layer" where
  "ws_bridge_prepare_send to_string l =
     (case ws_inp (ws_app (fst l)) of
        None \<Rightarrow> if \<not> can_send_more (snd l) then l else ws_input_aborted to_string l
      | Some (ms, e) \<Rightarrow> ws_send_loop to_string e ms l)"

definition ws_bridge_done_sending :: "ws_bridge_layer \<Rightarrow> bool" where
  "ws_bridge_done_sending l \<longleftrightarrow> ws_inp (ws_app (fst l)) \<in> {None, Some ([], Open)}"

text \<open>The bridge asks for the first messages when the buffer signals its initial demand, while it starts.\<close>

definition ws_bridge_upper :: "(error \<Rightarrow> bytes) \<Rightarrow> ws_flow_bridge ws_upper_layer" where
  "ws_bridge_upper to_string =
     \<lparr>ws_start = (\<lambda>l. (no_error, ws_request_messages l)), ws_abort = ws_bridge_abort,
      ws_consume_text = ws_bridge_consume Text, ws_consume_binary = ws_bridge_consume Binary,
      ws_prepare_send = ws_bridge_prepare_send to_string, ws_done_sending = ws_bridge_done_sending,
      error_text = to_string\<rparr>"

end
