(* ===== verification/Web_Socket_Delivery.thy ===== *)
theory Web_Socket_Delivery
  imports Web_Socket
begin

text \<open>
  Correctness of the WebSocket framing layer. \<open>recv_frames\<close> says what a sequence of frames means: fragments are
  collected, control frames may come in between, texts are UTF-8. The layer on top of the octet stream
  transport, with the flow bridge above it, implements exactly that for every way in which the bytes arrive. The last
  part is about errors and back-pressure.
\<close>

section \<open>The protocol: what a sequence of frames means\<close>

record ws_in =
  wf_fin :: bool
  wf_op :: u8
  wf_key :: u32
  wf_data :: bytes

definition wire :: "ws_in \<Rightarrow> bytes" where
  "wire w = frame_header (wf_op w) (wf_key w) (length (wf_data w)) (if wf_fin w then fin_flag else 0) @
     mask_data (wf_key w) (wf_data w) 0"

text \<open>The opcode and the bytes of a message whose last fragment has not arrived.\<close>

type_synonym fragment = "(u8 \<times> bytes) option"

definition reassemble :: "bool \<Rightarrow> u8 \<Rightarrow> bytes \<Rightarrow> (fragment \<times> ws_message list) option" where
  "reassemble is_last oc bs =
     (if oc = text_frame \<and> \<not> (if is_last then valid bs else utf8_prefix bs) then None
      else if is_last then Some (None, [if oc = text_frame then Text bs else Binary bs])
      else Some (Some (oc, bs), []))"

definition recv_frame :: "ws_in \<Rightarrow> fragment \<Rightarrow> (fragment \<times> ws_message list) option" where
  "recv_frame w st =
     (if wf_op w \<in> {ping_frame, pong_frame}
      then if wf_fin w \<and> length (wf_data w) \<le> 125 then Some (st, []) else None
      else if length (wf_data w) \<ge> max_frame_size - 14 then None
      else case st of
        None \<Rightarrow> if wf_op w \<in> {text_frame, binary_frame} then reassemble (wf_fin w) (wf_op w) (wf_data w) else None
      | Some (oc, acc) \<Rightarrow>
          if wf_op w = continuation_frame \<and> length acc + length (wf_data w) \<le> max_frame_size
          then reassemble (wf_fin w) oc (acc @ wf_data w) else None)"

definition prepend :: "ws_message list \<Rightarrow> (fragment \<times> ws_message list) option \<Rightarrow> (fragment \<times> ws_message list) option" where
  "prepend ms r = (case r of None \<Rightarrow> None | Some (st, ms') \<Rightarrow> Some (st, ms @ ms'))"

primrec recv_frames :: "ws_in list \<Rightarrow> fragment \<Rightarrow> (fragment \<times> ws_message list) option" where
  "recv_frames [] st = Some (st, [])"
| "recv_frames (w # ws) st = (case recv_frame w st of None \<Rightarrow> None
   | Some (st', ms) \<Rightarrow> prepend ms (recv_frames ws st'))"

section \<open>Reading from the transport\<close>

lemma prepend_simps [simp]:
  "prepend [] r = r" "prepend ms (prepend ms' r) = prepend (ms @ ms') r"
  "prepend ms r = None \<longleftrightarrow> r = None" "prepend ms (Some (st, ms')) = Some (st, ms @ ms')"
  by (auto simp: prepend_def split: option.splits)

lemma mask_data_0 [simp]: "mask_data 0 bs 0 = bs"
proof -
  have "i < 4 \<Longrightarrow> mask_loop [0, 0, 0, 0] i bs = bs" for i
  proof (induction bs arbitrary: i)
    case (Cons b bs)
    then have "[0, 0, 0, 0] ! i = (0 :: u8)" 
    proof -
      from Cons.prems have "i = 0 \<or> i = 1 \<or> i = 2 \<or> i = 3" by linarith
      then show ?thesis by auto
    qed
    with Cons show ?case by simp
  qed simp
  moreover have "be_bytes (0 :: u32) = [0, 0, 0, 0]" by code_simp
  ultimately show ?thesis by (simp add: mask_data_def Let_def as_bytes_to_network_order)
qed

lemma payload_valid_resume:
  assumes "utf8_prefix p"
  shows "payload_valid (p @ q) (fst (validate p)) = (utf8_prefix (p @ q), fst (validate (p @ q)))"
  using assms validate_resume [of p q] validate_bound [of p]
  by (auto simp: payload_valid_def utf8_prefix_def split: prod.splits)

text \<open>A transport that has been told to read, or to stop.\<close>

definition settled :: "'u lower \<Rightarrow> bool" where
  "settled lo \<longleftrightarrow> (if mgr_reading lo then max_read_size lo > 0 else max_read_size lo = 0)"

text \<open>What the layer leaves behind after a frame: reading goes on, at the latest in a scheduled function.\<close>

definition frame_done :: "'u lower \<Rightarrow> 'u lower \<Rightarrow> bool" where
  "frame_done lo lo' \<longleftrightarrow>
     min_read_size lo' = 1 \<and> max_read_size lo' = 2048 \<and> buffered lo' = buffered lo \<and>
     delta_offset lo' = delta_offset lo \<and> next_up lo' = next_up lo \<and>
     wanted_read_from_write_event lo' = wanted_read_from_write_event lo \<and>
     scheduled lo' = scheduled lo + of_bool (\<not> mgr_reading lo')"

lemma configure_default_done:
  "settled lo \<Longrightarrow> frame_done lo (configure_read default_receive_policy lo)"
  by (auto simp: settled_def frame_done_def configure_read_def default_receive_policy_def up_to_def
      register_reading_def Let_def split: if_splits)

lemma stop_done:
  assumes "settled lo"
  shows "frame_done lo (configure_read default_receive_policy (configure_read stop lo))"
  using assms configure_default_done [of "configure_read stop lo"]
  by (auto simp: settled_def frame_done_def configure_read_def stop_def deregister_reading_def Let_def
      split: if_splits)

lemma ship_done:
  assumes "settled lo"
  shows "frame_done lo (configure_read default_receive_policy (ship oc key bs lo))"
  using assms configure_default_done [of "ship oc key bs lo"]
  by (auto simp: settled_def frame_done_def ship_def append_output_def begin_output_def register_writing_def
      split: if_splits)

definition header_of :: "ws_in \<Rightarrow> ws_header" where
  "header_of w = \<lparr>fin = wf_fin w, opcode = wf_op w, mask_key = wf_key w, payload_len = of_nat (length (wf_data w))\<rparr>"

definition frag_op :: "fragment \<Rightarrow> u8" where
  "frag_op st = (case st of None \<Rightarrow> invalid_frame | Some (oc, _) \<Rightarrow> oc)"

definition frag_bytes :: "fragment \<Rightarrow> bytes" where
  "frag_bytes st = (case st of None \<Rightarrow> [] | Some (_, bs) \<Rightarrow> bs)"

definition frag_ok :: "fragment \<Rightarrow> bool" where
  "frag_ok st \<longleftrightarrow> (case st of None \<Rightarrow> True
     | Some (oc, bs) \<Rightarrow> oc = text_frame \<and> utf8_prefix bs \<or> oc = binary_frame)"

definition is_text :: "ws_in \<Rightarrow> fragment \<Rightarrow> bool" where
  "is_text w st \<longleftrightarrow> wf_op w = text_frame \<or> wf_op w = continuation_frame \<and> frag_op st = text_frame"

text \<open>The layer between two frames, and after the first \<open>k\<close> bytes of the payload of frame \<open>w\<close>.\<close>

definition at_frame :: "fragment \<Rightarrow> ws_flow_bridge ws_framing \<Rightarrow> bool" where
  "at_frame st f \<longleftrightarrow> frag_ok st \<and> opcode_cache f = frag_op st \<and> payload_buf f = frag_bytes st \<and>
     validation_offset f = (if frag_op st = text_frame then fst (validate (frag_bytes st)) else 0) \<and>
     ws_out_open (ws_app f)"

definition in_payload :: "ws_in \<Rightarrow> fragment \<Rightarrow> nat \<Rightarrow> ws_flow_bridge ws_framing \<Rightarrow> bool" where
  "in_payload w st k f \<longleftrightarrow> hdr f = header_of w \<and> k \<le> length (wf_data w) \<and>
     (if is_text w st
      then frag_ok st \<and> opcode_cache f = frag_op st \<and> ws_out_open (ws_app f) \<and>
           payload_buf f = (if wf_op w = text_frame \<and> wf_fin w then [] else frag_bytes st @ take k (wf_data w)) \<and>
           validation_offset f = fst (validate (frag_bytes st @ take k (wf_data w)))
      else k = 0 \<and> at_frame st f)"

lemma opcodes_distinct [simp]:
  "text_frame \<noteq> binary_frame" "text_frame \<noteq> continuation_frame" "binary_frame \<noteq> continuation_frame"
  "text_frame \<noteq> invalid_frame" "binary_frame \<noteq> invalid_frame" "continuation_frame \<noteq> invalid_frame"
  "text_frame \<noteq> connection_close_frame" "binary_frame \<noteq> connection_close_frame"
  "ping_frame \<noteq> connection_close_frame" "pong_frame \<noteq> connection_close_frame" "ping_frame \<noteq> text_frame"
  "ping_frame \<noteq> binary_frame" "pong_frame \<noteq> text_frame" "pong_frame \<noteq> binary_frame"
  "ping_frame \<noteq> continuation_frame" "pong_frame \<noteq> continuation_frame" "ping_frame \<noteq> pong_frame"
  "ping_frame \<noteq> invalid_frame" "pong_frame \<noteq> invalid_frame"
  by (simp_all add: opcode_defs)

lemmas opcodes_distinct_sym [simp] = opcodes_distinct [symmetric]

lemma control_frames [simp]:
  "is_control_frame ping_frame" "is_control_frame pong_frame" "\<not> is_control_frame text_frame"
  "\<not> is_control_frame binary_frame" "\<not> is_control_frame continuation_frame"
  by (simp_all add: is_control_frame_def opcode_defs)

definition ws_items :: "ws_flow_bridge ws_framing \<Rightarrow> ws_message list" where
  "ws_items f = items (ws_out (ws_app f))"

text \<open>A frame is consumed completely.\<close>

definition took_frame where
  "took_frame f lo st' ms f' lo' \<longleftrightarrow>
     at_frame st' f' \<and> \<not> header_valid (hdr f') \<and> ws_items f' = ws_items f @ ms \<and> frame_done lo lo'"

lemma handle_data:
  assumes f: "ws_out_open (ws_app f)" "settled lo" and oc: "oc = text_frame \<or> oc = binary_frame"
  shows "\<exists>f' lo'. handle (ws_bridge_upper ts) oc p n (f, lo) = (int n, p, f', lo') \<and> frame_done lo lo' \<and>
    ws_items f' = ws_items f @ [if oc = text_frame then Text p else Binary p] \<and> ws_out_open (ws_app f') \<and>
    \<not> header_valid (hdr f') \<and> opcode_cache f' = opcode_cache f \<and> payload_buf f' = payload_buf f \<and>
    validation_offset f' = validation_offset f"
proof -
  let ?m = "if oc = text_frame then Text p else Binary p"
  let ?g = "\<lambda>a. a\<lparr>ws_out := snd (push [?m] (ws_out a))\<rparr>"
  let ?lo = "if fst (push [?m] (ws_out (ws_app f))) = 0 then configure_read stop lo else lo"
  have "handle (ws_bridge_upper ts) oc p n (f, lo) =
    (int n, p, finish_frame (f\<lparr>ws_app := ?g (ws_app f)\<rparr>, ?lo))"
    using f(1) oc
    by (auto simp: handle_def ws_bridge_upper_def ws_bridge_consume_def set_app_def ws_suspend_reading_def
        Let_def split: prod.splits)
  moreover have "frame_done lo (configure_read default_receive_policy ?lo)"
    using configure_default_done [OF f(2)] stop_done [OF f(2)] by simp
  ultimately show ?thesis
    using f(1) by (auto simp: finish_frame_def ws_items_def header_valid_def)
qed

text \<open>
  Giving up a connection: the closing frame is appended to the output (with a fresh masking key if this side masks its
  output), the transport shuts down and no longer reads, the flow to the application is closed, normally or with
  the error, and nothing more is delivered.
\<close>

definition gave_up where
  "gave_up ts e code f lo f' lo' \<longleftrightarrow>
     write_buf lo' = write_buf lo @ assemble_frame connection_close_frame (fst (next_key f))
       (mask_data (fst (next_key f)) (code @ ts (sec_error e)) 0) [] fin_flag \<and>
     shutting_down lo' \<and> \<not> is_reading lo' \<and> \<not> mgr_reading lo' \<and> closed (ws_out (ws_app f')) \<and>
     err (ws_out (ws_app f')) = (if e = connection_closed then no_error else sec_error e) \<and>
     items (ws_out (ws_app f')) = items (ws_out (ws_app f)) \<and> \<not> ws_out_open (ws_app f') \<and> ws_inp (ws_app f') = None"

lemma frame_nonempty: "assemble_frame oc key data [] fin_flag \<noteq> []"
  by (simp add: assemble_frame_header frame_header_def)

lemma status_bytes:
  "[ucast (drop_bit 8 (1000 :: u16) AND 0x00FF), ucast ((1000 :: u16) AND 0x00FF)] = [0x03, 0xE8 :: u8]"
  "[ucast (drop_bit 8 (1002 :: u16) AND 0x00FF), ucast ((1002 :: u16) AND 0x00FF)] = [0x03, 0xEA :: u8]"
  "[ucast (drop_bit 8 (1007 :: u16) AND 0x00FF), ucast ((1007 :: u16) AND 0x00FF)] = [0x03, 0xEF :: u8]"
  "[ucast (drop_bit 8 (1011 :: u16) AND 0x00FF), ucast ((1011 :: u16) AND 0x00FF)] = [0x03, 0xF3 :: u8]"
  by simp_all

text \<open>Sending a closing frame and shutting down.\<close>

lemma shutdown_status:
  assumes "code = [ucast (drop_bit 8 c AND 0x00FF), ucast (c AND 0x00FF)]"
  shows "\<exists>f' lo'. ws_shutdown_status c msg (f, lo) = (f', lo') \<and> ws_app f' = ws_app f \<and>
    write_buf lo' = write_buf lo @ assemble_frame connection_close_frame (fst (next_key f))
      (mask_data (fst (next_key f)) (code @ msg) 0) [] fin_flag \<and>
    shutting_down lo' \<and> \<not> is_reading lo' \<and> \<not> mgr_reading lo'"
  using assms
  by (auto simp: ws_shutdown_status_def ship_closing_status_def next_key_def ship_def append_output_def
      begin_output_def register_writing_def shutdown_def configure_read_def stop_def deregister_reading_def
      is_reading_def frame_nonempty Let_def)

lemma abort_and_shutdown_bridge:
  assumes "ws_out_open (ws_app f)" "\<not> closed (ws_out (ws_app f))"
    "e = connection_closed \<and> code = [0x03, 0xE8] \<or> e = protocol_error \<and> code = [0x03, 0xEA] \<or>
     e = malformed_message \<and> code = [0x03, 0xEF]"
  shows "\<exists>f' lo'. abort_and_shutdown (ws_bridge_upper ts) (sec_error e) (f, lo) = (f', lo') \<and> gave_up ts e code f lo f' lo'"
proof -
  define f1 where "f1 = fst (ws_bridge_abort (sec_error e) (f, lo))"
  have f1: "ws_bridge_abort (sec_error e) (f, lo) = (f1, lo)" "fst (next_key f1) = fst (next_key f)"
    by (simp_all add: f1_def ws_bridge_abort_def set_app_def next_key_def)
  have app: "closed (ws_out (ws_app f1))" "items (ws_out (ws_app f1)) = items (ws_out (ws_app f))"
    "err (ws_out (ws_app f1)) = (if e = connection_closed then no_error else sec_error e)"
    "\<not> ws_out_open (ws_app f1)" "ws_inp (ws_app f1) = None"
    using assms
    by (auto simp: f1_def ws_bridge_abort_def set_app_def close_def abort_def notify_def Let_def)
  define c :: u16 where "c = (if e = connection_closed then 1000 else if e = protocol_error then 1002 else 1007)"
  have "abort_and_shutdown (ws_bridge_upper ts) (sec_error e) (f, lo) = ws_shutdown_status c (ts (sec_error e)) (f1, lo)"
    using assms(3) f1(1) by (auto simp: abort_and_shutdown_def ws_bridge_upper_def ws_shutdown_def c_def)
  moreover have "code = [ucast (drop_bit 8 c AND 0x00FF), ucast (c AND 0x00FF)]"
    using assms(3) unfolding c_def by auto
  ultimately show ?thesis
    using shutdown_status [of code c "ts (sec_error e)" f1 lo] app f1(2) by (auto simp: gave_up_def)
qed

lemma recv_frame_len:
  "recv_frame w st = Some r \<Longrightarrow> length (wf_data w) < 2 ^ 31 \<and> unat (of_nat (length (wf_data w)) :: u64) = length (wf_data w)"
  by (auto simp: recv_frame_def max_frame_size_def unat_of_nat_small split: if_splits option.splits)

lemma recv_text_prefix:
  assumes "recv_frame w st = Some r" "is_text w st"
  shows "utf8_prefix (frag_bytes st @ wf_data w)" "\<not> is_control_frame (wf_op w)"
  using assms valid_utf8_prefix
  by (auto simp: recv_frame_def is_text_def reassemble_def frag_bytes_def frag_op_def split: if_splits option.splits)

lemma unmask_received:
  assumes "k \<le> n" "k \<le> length d"
  shows "(if key \<noteq> 0 then mask_data key (take k d @ drop k (take n (mask_data key d 0))) k
          else take k d @ drop k (take n (mask_data key d 0))) = take n d"
  using mask_resume [OF assms(1), of key d] assms
  by (auto simp: min_absorb2 simp flip: take_add drop_take)
     (metis append_take_drop_id min_absorb1 take_take)

text \<open>
  A piece of the payload of a text frame, unfragmented or a fragment. The text so far, with the earlier fragments, is
  valid up to an incomplete code point at its end. The text with the new bytes is checked the same way, and at the
  end of the message it has to be complete.
\<close>

lemma collect_text:
  assumes tx: "is_text w st" and f: "in_payload w st k f" and st: "wf_op w = text_frame \<Longrightarrow> st = None"
    and len: "length (wf_data w) < 2 ^ 31" and n: "k \<le> n" "n \<le> length (wf_data w)"
    and pre: "utf8_prefix (frag_bytes st @ take k (wf_data w))"
  shows "if utf8_prefix (frag_bytes st @ take n (wf_data w))
    then \<exists>f'. collect_payload (take n (wf_data w)) k f = Some (length (wf_data w) \<le> n, f') \<and>
           in_payload w st n f' \<and> ws_app f' = ws_app f \<and> fst (next_key f') = fst (next_key f)
    else collect_payload (take n (wf_data w)) k f = None"
proof -
  let ?d = "wf_data w" and ?b = "frag_bytes st" and ?single = "wf_op w = text_frame \<and> wf_fin w"
  have td: "take k ?d @ drop k (take n ?d) = take n ?d"
    using n(1) by (metis append_take_drop_id min_absorb1 take_take)
  have val: "payload_valid (?b @ take n ?d) (fst (validate (?b @ take k ?d))) =
      (utf8_prefix (?b @ take n ?d), fst (validate (?b @ take n ?d)))"
    using payload_valid_resume [OF pre, of "drop k (take n ?d)"] by (simp add: td)
  have b: "?single \<Longrightarrow> ?b = []" using st by (simp add: frag_bytes_def)
  have fs: "hdr f = header_of w" "opcode_cache f = frag_op st"
    "payload_buf f = (if ?single then [] else ?b @ take k ?d)"
    "validation_offset f = fst (validate (?b @ take k ?d))" "ws_out_open (ws_app f)" "frag_ok st"
    using f tx by (simp_all add: in_payload_def)
  have cond: "wf_op w = text_frame \<or> frag_op st = text_frame" using tx by (auto simp: is_text_def)
  have h: "opcode (header_of w) = wf_op w" "fin (header_of w) = wf_fin w"
    "unat (payload_len (header_of w)) = length ?d"
    using len by (simp_all add: header_of_def unat_of_nat_small)
  show ?thesis
    using n val b fs cond tx td
    by (cases ?single)
      (auto simp: collect_payload_def h Let_def in_payload_def min_absorb2 next_key_def)
qed

lemma payload_text:
  assumes tx: "is_text w st" and f: "in_payload w st k f" and st: "wf_op w = text_frame \<Longrightarrow> st = None"
    and len: "length (wf_data w) < 2 ^ 31" and n: "k \<le> n" "n \<le> length (wf_data w)"
    and pre: "utf8_prefix (frag_bytes st @ take k (wf_data w))" and lo: "settled lo"
    and d: "d = wf_data w" and tdef: "text = frag_bytes st @ take n d"
  shows "\<exists>res b f' lo'. consume_payload (ws_bridge_upper ts) (take k d @ drop k (take n (mask_data (wf_key w) d 0))) k (f, lo) =
      (res, b, f', lo') \<and>
    (if \<not> utf8_prefix text \<or> n = length d \<and> wf_fin w \<and> \<not> valid text
     then res = - 1 \<and> (\<not> closed (ws_out (ws_app f)) \<longrightarrow> gave_up ts malformed_message [0x03, 0xEF] f lo f' lo')
     else if n < length d
     then res = 0 \<and> b = take n d \<and> lo' = lo \<and> in_payload w st n f' \<and> ws_app f' = ws_app f
     else res = int (length d) \<and> length b = length d \<and>
          (if wf_fin w then took_frame f lo None [Text text] f' lo'
           else took_frame f lo (Some (text_frame, text)) [] f' lo'))"
proof -
  have h: "hdr f = header_of w" "k \<le> length d" using f by (simp_all add: in_payload_def d)
  have hs: "opcode (hdr f) = wf_op w" "fin (hdr f) = wf_fin w" "unat (payload_len (hdr f)) = length d"
    using len by (simp_all add: h header_of_def unat_of_nat_small d)
  have u: "(if mask_key (hdr f) \<noteq> 0
      then mask_data (mask_key (hdr f)) (take k d @ drop k (take n (mask_data (wf_key w) d 0))) k
      else take k d @ drop k (take n (mask_data (wf_key w) d 0))) = take n d"
    using unmask_received [OF n(1) h(2), of "wf_key w"] by (simp only: h(1) header_of_def ws_header.simps)
  have c: "\<not> is_control_frame (wf_op w)" using tx by (auto simp: is_text_def)
  have cp: "consume_payload (ws_bridge_upper ts) (take k d @ drop k (take n (mask_data (wf_key w) d 0))) k (f, lo) =
      (case collect_payload (take n d) k f of
         None \<Rightarrow> (- 1, take n d, abort_and_shutdown (ws_bridge_upper ts) (sec_error malformed_message) (f, lo))
       | Some (complete, f1) \<Rightarrow>
           if \<not> complete then (0, take n d, f1, lo)
           else if wf_fin w
           then if opcode_cache f1 = invalid_frame
                then if wf_op w = text_frame \<and> validation_offset f1 \<noteq> length (take n d)
                     then (- 1, take n d, abort_and_shutdown (ws_bridge_upper ts) (sec_error malformed_message) (f1, lo))
                     else handle (ws_bridge_upper ts) (wf_op w) (take n d) (length d) (f1\<lparr>validation_offset := 0\<rparr>, lo)
                else if opcode_cache f1 = text_frame \<and> validation_offset f1 \<noteq> length (payload_buf f1)
                then (- 1, take n d, abort_and_shutdown (ws_bridge_upper ts) (sec_error malformed_message) (f1, lo))
                else (case handle (ws_bridge_upper ts) (opcode_cache f1) (payload_buf f1) (length d) (f1, lo) of
                        (res, pb, f2, lo2) \<Rightarrow>
                          (res, take n d, f2\<lparr>opcode_cache := invalid_frame, payload_buf := [],
                                            validation_offset := 0\<rparr>, lo2))
           else (int (length d), take n d,
                 finish_frame (if opcode_cache f1 = invalid_frame then f1\<lparr>opcode_cache := wf_op w\<rparr> else f1, lo)))"
    by (simp only: consume_payload_def Let_def u hs c prod.case if_False)
  have opn: "ws_out_open (ws_app f)" using f tx by (simp add: in_payload_def)
  have fail: "\<exists>f' lo'. abort_and_shutdown (ws_bridge_upper ts) (sec_error malformed_message) (g, lo) = (f', lo') \<and>
      (\<not> closed (ws_out (ws_app f)) \<longrightarrow> gave_up ts malformed_message [0x03, 0xEF] f lo f' lo')"
    if "ws_app g = ws_app f" "fst (next_key g) = fst (next_key f)" for g
    using abort_and_shutdown_bridge [of g malformed_message "[0x03, 0xEF]" ts lo] opn that
    by (cases "closed (ws_out (ws_app f))") (auto simp: gave_up_def intro: prod.exhaust)
  note col = collect_text [OF tx f st len n pre, folded d, folded tdef]
  show ?thesis
  proof (cases "utf8_prefix text")
    case False
    then have "collect_payload (take n d) k f = None" using col by simp
    with False fail [of f] show ?thesis unfolding cp by auto
  next
    case True
    then obtain f1 where f1: "collect_payload (take n d) k f = Some (length d \<le> n, f1)" "in_payload w st n f1"
      "ws_app f1 = ws_app f" "fst (next_key f1) = fst (next_key f)"
      using col by auto
    have fs: "hdr f1 = header_of w" "opcode_cache f1 = frag_op st"
      "payload_buf f1 = (if wf_op w = text_frame \<and> wf_fin w then [] else text)"
      "validation_offset f1 = fst (validate text)" "ws_out_open (ws_app f1)" "frag_ok st"
      using f1(2) tx by (simp_all add: in_payload_def tdef d)
    have full: "validation_offset f1 = length text \<longleftrightarrow> valid text" using fs(4) by (simp add: valid_def)
    show ?thesis
    proof (cases "n < length d")
      case more: True
      with True f1 show ?thesis unfolding cp by simp
    next
      case False
      then have nd: "n = length d" "take n d = d" using n(2) by (simp_all add: d)
      have first: "frag_op st = invalid_frame \<longleftrightarrow> wf_op w = text_frame" "frag_op st \<noteq> invalid_frame \<Longrightarrow> frag_op st = text_frame"
        using tx st by (auto simp: is_text_def frag_op_def split: option.splits)
      show ?thesis
      proof (cases "wf_fin w")
        case fin: True
        show ?thesis
        proof (cases "wf_op w = text_frame")
          case True
          then have s: "st = None" by (rule st)
          then have "text = d" using nd by (simp add: tdef frag_bytes_def)
          with s True fin f1 fs full nd fail [of f1] \<open>utf8_prefix text\<close>
            handle_data [of "f1\<lparr>validation_offset := 0\<rparr>" lo text_frame ts d "length d"] lo
          show ?thesis unfolding cp
            by (cases "valid text")
              (auto simp: took_frame_def at_frame_def frag_ok_def frag_op_def frag_bytes_def ws_items_def)
        next
          case False
          with fin first f1 fs full nd fail [of f1] \<open>utf8_prefix text\<close>
            handle_data [of f1 lo text_frame ts "text" "length d"] lo
          show ?thesis unfolding cp
            by (cases "valid text")
              (auto simp: took_frame_def at_frame_def frag_ok_def frag_op_def frag_bytes_def ws_items_def header_valid_def)
        qed
      next
        case False
        with first f1 fs nd \<open>utf8_prefix text\<close> configure_default_done [OF lo] show ?thesis unfolding cp
          by (auto simp: took_frame_def at_frame_def frag_ok_def frag_op_def frag_bytes_def ws_items_def
              finish_frame_def header_valid_def)
      qed
    qed
  qed
qed

text \<open>The same for a frame that makes sense to the protocol.\<close>

lemma recv_text_frame:
  assumes recv: "recv_frame w st = Some (st', ms)" and tx: "is_text w st" and f: "in_payload w st k f"
  shows "wf_op w = text_frame \<Longrightarrow> st = None" "length (wf_data w) < 2 ^ 31"
    and "utf8_prefix (frag_bytes st @ take n (wf_data w))" "wf_fin w \<longrightarrow> valid (frag_bytes st @ wf_data w)"
    and "(st', ms) = (if wf_fin w then (None, [Text (frag_bytes st @ wf_data w)])
      else (Some (text_frame, frag_bytes st @ wf_data w), []))"
proof -
  have "utf8_prefix ((frag_bytes st @ take n (wf_data w)) @ drop n (wf_data w))"
    using recv_text_prefix(1) [OF recv tx] by simp
  then show "utf8_prefix (frag_bytes st @ take n (wf_data w))" by (rule utf8_prefix_append)
  show "length (wf_data w) < 2 ^ 31" using recv_frame_len [OF recv] by simp
  have "frag_ok st" using f tx by (simp add: in_payload_def)
  then show "wf_op w = text_frame \<Longrightarrow> st = None" "wf_fin w \<longrightarrow> valid (frag_bytes st @ wf_data w)"
    "(st', ms) = (if wf_fin w then (None, [Text (frag_bytes st @ wf_data w)])
      else (Some (text_frame, frag_bytes st @ wf_data w), []))"
    using recv tx
    by (auto simp: recv_frame_def is_text_def reassemble_def frag_op_def frag_bytes_def frag_ok_def
        split: if_splits option.splits)
qed

lemma payload_text_more:
  assumes recv: "recv_frame w st = Some r" and tx: "is_text w st" and f: "in_payload w st k f"
    and n: "k \<le> n" "n < length (wf_data w)" and lo: "settled lo"
  shows "\<exists>f'. consume_payload (ws_bridge_upper ts)
      (take k (wf_data w) @ drop k (take n (mask_data (wf_key w) (wf_data w) 0))) k (f, lo) =
      (0, take n (wf_data w), f', lo) \<and> in_payload w st n f' \<and> ws_app f' = ws_app f"
proof -
  obtain st' ms where r: "recv_frame w st = Some (st', ms)" using recv by (cases r) auto
  note t = recv_text_frame [OF r tx f]
  show ?thesis
    using payload_text [OF tx f t(1,2) n(1) _ t(3) lo refl refl, of ts] n(2) t(3) by auto
qed

lemma payload_text_done:
  assumes recv: "recv_frame w st = Some (st', ms)" and tx: "is_text w st" and f: "in_payload w st k f"
    and lo: "settled lo"
  shows "\<exists>b f' lo'. consume_payload (ws_bridge_upper ts)
      (take k (wf_data w) @ drop k (mask_data (wf_key w) (wf_data w) 0)) k (f, lo) =
      (int (length (wf_data w)), b, f', lo') \<and> length b = length (wf_data w) \<and> took_frame f lo st' ms f' lo'"
proof -
  note t = recv_text_frame [OF recv tx f]
  have k: "k \<le> length (wf_data w)" using f by (simp add: in_payload_def)
  show ?thesis
    using payload_text [OF tx f t(1,2) k order.refl t(3) lo refl refl, of ts] t(3) [of "length (wf_data w)"] t(4,5)
    by (auto split: if_splits)
qed

text \<open>Frames of binary messages and control frames arrive in one piece.\<close>

lemma payload_other:
  assumes recv: "recv_frame w st = Some (st', ms)" and tx: "\<not> is_text w st" and f: "in_payload w st 0 f"
    and lo: "settled lo"
  shows "\<exists>b f' lo'. consume_payload (ws_bridge_upper ts) (mask_data (wf_key w) (wf_data w) 0) 0 (f, lo) =
      (int (length (wf_data w)), b, f', lo') \<and> length b = length (wf_data w) \<and> took_frame f lo st' ms f' lo'"
proof -
  let ?d = "wf_data w" and ?b = "frag_bytes st"
  have h: "hdr f = header_of w" and at: "at_frame st f" using f tx by (simp_all add: in_payload_def)
  have hs: "opcode (hdr f) = wf_op w" "fin (hdr f) = wf_fin w" "unat (payload_len (hdr f)) = length ?d"
    using recv_frame_len [OF recv] by (simp_all add: h header_of_def)
  have u: "(if mask_key (hdr f) \<noteq> 0 then mask_data (mask_key (hdr f)) (mask_data (wf_key w) ?d 0) 0
      else mask_data (wf_key w) ?d 0) = ?d"
    by (simp add: h header_of_def)
  note exp = consume_payload_def Let_def u hs
  consider (control) "wf_op w = ping_frame \<or> wf_op w = pong_frame"
    | (single) "wf_op w = binary_frame" "st = None" "wf_fin w"
    | (first) "wf_op w = binary_frame" "st = None" "\<not> wf_fin w"
    | (later) "wf_op w = continuation_frame" "frag_op st = binary_frame"
    using recv tx at
    by (auto simp: recv_frame_def is_text_def frag_op_def at_frame_def frag_ok_def split: if_splits option.splits)
  then show ?thesis
  proof cases
    case control
    then have "st' = st" "ms = []" using recv by (auto simp: recv_frame_def split: if_splits)
    with control at configure_default_done [OF lo] ship_done [OF lo] show ?thesis
      by (auto simp: exp handle_def ship_pong_def next_key_def finish_frame_def took_frame_def at_frame_def
          header_valid_def ws_items_def Let_def split: prod.splits)
  next
    case single
    then have "st' = None" "ms = [Binary ?d]"
      using recv by (auto simp: recv_frame_def reassemble_def split: if_splits)
    with single at lo show ?thesis
      using handle_data [of "f\<lparr>validation_offset := 0\<rparr>" lo binary_frame ts ?d "length ?d"]
      by (auto simp: exp collect_payload_def took_frame_def at_frame_def frag_op_def frag_bytes_def ws_items_def)
  next
    case first
    then have "st' = Some (binary_frame, ?d)" "ms = []"
      using recv by (auto simp: recv_frame_def reassemble_def split: if_splits)
    with first at lo configure_default_done [OF lo] show ?thesis
      by (auto simp: exp collect_payload_def took_frame_def at_frame_def frag_op_def frag_bytes_def frag_ok_def
          finish_frame_def header_valid_def ws_items_def)
  next
    case later
    then obtain bs where st: "st = Some (binary_frame, bs)" by (auto simp: frag_op_def split: option.splits)
    have r: "(st', ms) = (if wf_fin w then (None, [Binary (bs @ ?d)]) else (Some (binary_frame, bs @ ?d), []))"
      using recv later st by (auto simp: recv_frame_def reassemble_def split: if_splits)
    show ?thesis
      using later at lo configure_default_done [OF lo] r
        handle_data [of "f\<lparr>payload_buf := bs @ ?d\<rparr>" lo binary_frame ts "bs @ ?d" "length ?d"]
      by (auto simp: st exp collect_payload_def took_frame_def at_frame_def frag_op_def frag_bytes_def frag_ok_def
          finish_frame_def header_valid_def ws_items_def split: if_splits)
  qed
qed

text \<open>The header of a frame.\<close>

abbreviation head_of :: "ws_in \<Rightarrow> bytes" where
  "head_of w \<equiv> frame_header (wf_op w) (wf_key w) (length (wf_data w)) (if wf_fin w then fin_flag else 0)"

lemma head_length: "0 < length (head_of w)" "length (head_of w) \<le> 14"
  by (auto simp: frame_header_def length_bytes_def as_bytes_to_network_order)

lemma recv_frame_opcode: "recv_frame w st = Some r \<Longrightarrow> wf_op w \<in> data_opcodes"
  by (auto simp: recv_frame_def data_opcodes_def split: if_splits option.splits)

lemma decode_head:
  assumes "recv_frame w st = Some r"
  shows "decode_header (head_of w @ b) h = (int (length (head_of w)), header_of w)"
  using decode_header_frame [of "wf_op w" "if wf_fin w then fin_flag else 0" "length (wf_data w)" "wf_key w" b h]
    recv_frame_opcode [OF assms] recv_frame_len [OF assms]
  by (simp add: header_of_def opcode_defs)

lemma decode_head_short:
  assumes "recv_frame w st = Some r" "head_of w = p @ q" "q \<noteq> []"
  shows "decode_header p h = (0, h)"
  using decode_header_short [OF recv_frame_opcode [OF assms(1)] _ assms(2,3)] by simp

lemma validate_head:
  assumes "recv_frame w st = Some r" "at_frame st f" "hdr f = header_of w" "n \<le> 14"
  shows "validate_header n f = no_error"
proof -
  have "unat (payload_len (header_of w)) = length (wf_data w)"
    using recv_frame_len [OF assms(1)] by (simp add: header_of_def)
  then show ?thesis
    using assms
    by (auto simp: validate_header_def Let_def recv_frame_def header_of_def at_frame_def frag_op_def frag_bytes_def
        frag_ok_def max_frame_size_def split: if_splits option.splits)
qed

definition payload_policy :: "ws_in \<Rightarrow> fragment \<Rightarrow> receive_policy" where
  "payload_policy w st = (if is_text w st then up_to (length (wf_data w)) else exactly (length (wf_data w)))"

lemma in_payload_start:
  assumes "recv_frame w st = Some r" "at_frame st f"
  shows "in_payload w st 0 (f\<lparr>hdr := header_of w\<rparr>)"
  using assms
  by (auto simp: in_payload_def at_frame_def is_text_def recv_frame_def frag_op_def frag_bytes_def
      split: if_splits option.splits)

lemma consume_header_ok:
  assumes "recv_frame w st = Some r" "at_frame st f"
  shows "consume_header au (head_of w @ b) (f, lo) =
    (int (length (head_of w)), f\<lparr>hdr := header_of w\<rparr>, configure_read (payload_policy w st) lo)"
proof -
  have v: "validate_header (length (head_of w)) (f\<lparr>hdr := header_of w\<rparr>) = no_error"
    using assms head_length(2) [of w] by (intro validate_head [of w st r]) (auto simp: at_frame_def)
  have hs: "opcode (header_of w) = wf_op w" "unat (payload_len (header_of w)) = length (wf_data w)"
    using recv_frame_len [OF assms(1)] by (simp_all add: header_of_def)
  have "opcode_cache f = frag_op st" using assms(2) by (simp add: at_frame_def)
  then show ?thesis
    using head_length(1) [of w]
    by (auto simp: consume_header_def decode_head [OF assms(1)] Let_def v hs payload_policy_def is_text_def)
qed

lemma settled_stop: "max_size rd = 0 \<Longrightarrow> settled (configure_read rd lo)"
  by (simp add: settled_def configure_read_def deregister_reading_def Let_def)

lemma frame_done_stop: "max_size rd = 0 \<Longrightarrow> frame_done (configure_read rd lo) lo' \<Longrightarrow> frame_done lo lo'"
  by (auto simp: frame_done_def configure_read_def deregister_reading_def Let_def)

lemma payload_done:
  assumes "recv_frame w st = Some (st', ms)" "in_payload w st k f" "settled lo"
  shows "\<exists>b f' lo'. consume_payload (ws_bridge_upper ts)
      (take k (wf_data w) @ drop k (mask_data (wf_key w) (wf_data w) 0)) k (f, lo) =
      (int (length (wf_data w)), b, f', lo') \<and> length b = length (wf_data w) \<and> took_frame f lo st' ms f' lo'"
proof (cases "is_text w st")
  case True
  show ?thesis by (rule payload_text_done [OF assms(1) True assms(2,3)])
next
  case False
  then have "k = 0" using assms(2) by (simp add: in_payload_def)
  with payload_other [OF assms(1) False _ assms(3)] assms(2) show ?thesis by simp
qed

lemma consume_head:
  assumes recv: "recv_frame w st = Some (st', ms)" and f: "at_frame st f" "\<not> header_valid (hdr f)"
    and d: "wf_data w \<noteq> []"
  shows "ws_consume au (head_of w @ b) off (f, lo) =
    (int (length (head_of w)), head_of w @ b, f\<lparr>hdr := header_of w\<rparr>, configure_read (payload_policy w st) lo)"
proof -
  have "unat (payload_len (header_of w)) = length (wf_data w)"
    using recv_frame_len [OF recv] by (simp add: header_of_def)
  then have "payload_len (header_of w) \<noteq> 0" using d by auto
  then show ?thesis
    using f(2) head_length(1) [of w] by (simp add: ws_consume_def consume_header_ok [OF recv f(1)])
qed

lemma consume_head_empty:
  assumes recv: "recv_frame w st = Some (st', ms)" and f: "at_frame st f" "\<not> header_valid (hdr f)"
    and d: "wf_data w = []"
  shows "\<exists>f' lo'. ws_consume (ws_bridge_upper ts) (head_of w @ b) off (f, lo) =
    (int (length (head_of w)), head_of w @ b, f', lo') \<and> took_frame f lo st' ms f' lo'"
proof -
  let ?lo = "configure_read (payload_policy w st) lo"
  have z: "max_size (payload_policy w st) = 0" using d by (simp add: payload_policy_def up_to_def exactly_def)
  have "payload_len (header_of w) = 0" by (simp add: header_of_def d)
  moreover obtain b' f' lo' where p: "consume_payload (ws_bridge_upper ts) [] 0 (f\<lparr>hdr := header_of w\<rparr>, ?lo) =
      (0, b', f', lo')" "took_frame (f\<lparr>hdr := header_of w\<rparr>) ?lo st' ms f' lo'"
    using payload_done [OF recv in_payload_start [OF recv f(1)] settled_stop [OF z, of lo], of ts] d by auto
  moreover have "took_frame f lo st' ms f' lo'"
    using p(2) frame_done_stop [OF z] by (auto simp: took_frame_def ws_items_def)
  ultimately show ?thesis
    using f(2) head_length(1) [of w] by (auto simp: ws_consume_def consume_header_ok [OF recv f(1)])
qed

text \<open>The transport between two calls to the layer; \<open>ws\<close> are the frames that are not complete and \<open>F\<close> the bytes to come.\<close>

definition ws_idle where
  "ws_idle lo f st ws F \<longleftrightarrow> at_frame st f \<and> \<not> header_valid (hdr f) \<and> min_read_size lo = 1 \<and> max_read_size lo = 2048 \<and>
     delta_offset lo \<le> length (buffered lo) \<and> delta_offset lo \<le> 14 \<and>
     (if mgr_reading lo then scheduled lo = 0 else scheduled lo = 1) \<and> buffered lo @ F = concat (map wire ws)"

definition ws_busy where
  "ws_busy lo f st ws F \<longleftrightarrow> (\<exists>w ws'. ws = w # ws' \<and> in_payload w st (delta_offset lo) f \<and>
     delta_offset lo < length (wf_data w) \<and> delta_offset lo \<le> length (buffered lo) \<and> mgr_reading lo \<and>
     scheduled lo = 0 \<and> min_read_size lo = min_size (payload_policy w st) \<and> max_read_size lo = length (wf_data w) \<and>
     buffered lo @ F = (take (delta_offset lo) (wf_data w) @
       drop (delta_offset lo) (mask_data (wf_key w) (wf_data w) 0)) @ concat (map wire ws'))"

definition ws_inv where
  "ws_inv t f st ws F \<longleftrightarrow> up t = Some f \<and> next_up (low t) = None \<and> recv_frames ws st \<noteq> None \<and>
     (ws_idle (low t) f st ws F \<or> ws_busy (low t) f st ws F)"

text \<open>Going from one such state to another, handing over the messages of the frames completed in between.\<close>

definition ws_moved where
  "ws_moved t f st ws t' f' st' ws' \<longleftrightarrow>
     reads t' = reads t \<and> wanted_read_from_write_event (low t') = wanted_read_from_write_event (low t) \<and>
     (\<exists>ms. ws_items f' = ws_items f @ ms \<and>
           recv_frames ws st = prepend ms (recv_frames ws' st'))"

lemma ws_moved_refl [simp]: "ws_moved t f st ws t f st ws"
  by (auto simp: ws_moved_def intro!: exI [of _ "[]"])

lemma ws_moved_trans:
  assumes "ws_moved t f st ws t1 f1 st1 ws1" "ws_moved t1 f1 st1 ws1 t2 f2 st2 ws2"
  shows "ws_moved t f st ws t2 f2 st2 ws2"
  using assms by (auto simp: ws_moved_def)

abbreviation ws_vt :: "(error \<Rightarrow> bytes) \<Rightarrow> ws_flow_bridge ws_framing upper_layer" where
  "ws_vt ts \<equiv> ws_vtable (ws_bridge_upper ts)"

definition ws_once where
  "ws_once ts t f st ws F \<longleftrightarrow> (\<exists>go t' f' st' ws'. consume_once (ws_vt ts) t = Some (go, t') \<and>
     ws_inv t' f' st' ws' F \<and> ws_moved t f st ws t' f' st' ws' \<and>
     (if go then length (buffered (low t')) < length (buffered (low t)) else mgr_reading (low t') = mgr_reading (low t) \<and> (F = [] \<longrightarrow> ws' = [])))"

lemma wire_eq: "wire w = head_of w @ mask_data (wf_key w) (wf_data w) 0"
  by (simp add: wire_def)

lemma wire_pos: "0 < length (wire w)"
  using head_length(1) [of w] by (simp add: wire_eq)

lemma wire_neq [simp]: "wire w \<noteq> []"
  using wire_pos [of w] by auto

lemma once_head_short:
  assumes inv: "ws_inv t f st ws F" and idle: "ws_idle (low t) f st ws F"
    and p: "ws \<noteq> [] \<longrightarrow> length (buffered (low t)) < length (head_of (hd ws))"
  shows "ws_once ts t f st ws F"
proof -
  let ?b = "buffered (low t)"
  have base: "up t = Some f" "next_up (low t) = None" using inv by (auto simp: ws_inv_def)
  have dec: "length ?b < 14 \<and> decode_header ?b (hdr f) = (0, hdr f)"
  proof (cases ws)
    case Nil
    then have "?b = []" using idle by (simp add: ws_idle_def)
    then show ?thesis by (simp add: decode_header_def)
  next
    case (Cons w ws')
    then obtain r where r: "recv_frame w st = Some r" using inv by (auto simp: ws_inv_def split: option.splits)
    have "?b @ F = head_of w @ mask_data (wf_key w) (wf_data w) 0 @ concat (map wire ws')"
      using idle Cons by (simp add: ws_idle_def wire_eq)
    moreover have "length ?b < length (head_of w)" using p Cons by simp
    ultimately obtain q where q: "head_of w = ?b @ q"
      using append_split_le [of "head_of w" _ ?b F] by (metis less_imp_le)
    with \<open>length ?b < length (head_of w)\<close> have "q \<noteq> []" by auto
    from decode_head_short [OF r q this] head_length(2) [of w] p Cons show ?thesis by simp
  qed
  have n: "min (length ?b) (max_read_size (low t)) = length ?b" using idle dec by (simp add: ws_idle_def)
  let ?t = "t\<lparr>low := (low t)\<lparr>delta_offset := length ?b\<rparr>\<rparr>"
  have "consume_once (ws_vt ts) t = Some (False, ?t)"
    using base idle dec n
    by (simp add: consume_once_def Let_def ws_vtable_def ws_consume_def consume_header_def ws_idle_def
        switching_protocol_def on_lower_def)
  moreover have "ws_inv ?t f st ws F" using inv idle dec by (simp add: ws_inv_def ws_idle_def)
  moreover have "F = [] \<longrightarrow> ws = []"
    using p idle wire_eq [of "hd ws"] by (cases ws) (auto simp: ws_idle_def)
  moreover have "ws_moved t f st ws ?t f st ws" using ws_moved_refl [of t f st ws] by (auto simp: ws_moved_def)
  ultimately show ?thesis unfolding ws_once_def by (intro exI conjI) auto
qed

text \<open>The transport when the layer has consumed a positive number of bytes.\<close>

lemma consume_once_positive:
  assumes t: "up t = Some f" and d: "delta_offset (low t) \<le> n"
    and n: "n = min (length (buffered (low t))) (max_read_size (low t))"
    and c: "up_consume vt (take n (buffered (low t))) (delta_offset (low t)) (f, low t) = (int k, b, f', lo')"
    and k: "0 < k" "k \<le> n" and lo': "next_up lo' = None"
  shows "consume_once vt t = Some (True, t\<lparr>up := Some f',
    low := lo'\<lparr>buffered := drop k (b @ drop n (buffered (low t))), delta_offset := 0\<rparr>\<rparr>)"
  using t d c k lo' by (simp add: consume_once_def Let_def n [symmetric] switching_protocol_def on_lower_def)

lemma ws_inv_Cons:
  assumes "ws_inv t f st (w # ws) F"
  obtains st' ms where "recv_frame w st = Some (st', ms)" "recv_frames ws st' \<noteq> None"
proof -
  have "recv_frames (w # ws) st \<noteq> None" using assms unfolding ws_inv_def by blast
  then show thesis using that
    by (cases "recv_frame w st"; cases "recv_frames ws (fst (the (recv_frame w st)))") (auto simp: prepend_def)
qed

lemma ws_moved_took:
  assumes "recv_frame w st = Some (st', ms)" "ws_items f' = ws_items f @ ms" "reads t' = reads t"
    "wanted_read_from_write_event (low t') = wanted_read_from_write_event (low t)"
  shows "ws_moved t f st (w # ws) t' f' st' ws"
  using assms by (auto simp: ws_moved_def)

lemma once_head:
  assumes inv: "ws_inv t f st (w # ws) F" and idle: "ws_idle (low t) f st (w # ws) F" and rd: "mgr_reading (low t)"
    and p: "length (head_of w) \<le> length (buffered (low t))"
  shows "ws_once ts t f st (w # ws) F"
proof -
  let ?b = "buffered (low t)" and ?lo = "low t" and ?h = "length (head_of w)"
  have base: "up t = Some f" "next_up ?lo = None" "at_frame st f" "\<not> header_valid (hdr f)"
    using inv idle by (auto simp: ws_inv_def ws_idle_def)
  obtain st' ms where r: "recv_frame w st = Some (st', ms)" and rs: "recv_frames ws st' \<noteq> None"
    using ws_inv_Cons [OF inv] by blast
  have "?b @ F = head_of w @ mask_data (wf_key w) (wf_data w) 0 @ concat (map wire ws)"
    using idle by (simp add: ws_idle_def wire_eq)
  then obtain b where b: "?b = head_of w @ b" "b @ F = mask_data (wf_key w) (wf_data w) 0 @ concat (map wire ws)"
    using append_split_le [OF _ p] by blast
  define n where n: "n = min (length ?b) (max_read_size ?lo)"
  have dn: "delta_offset ?lo \<le> n" "?h \<le> n" using idle p head_length(2) [of w] by (auto simp: n ws_idle_def)
  have tk: "take n ?b = head_of w @ take (n - ?h) b" using b(1) dn by simp
  show ?thesis
  proof (cases "wf_data w = []")
    case False
    let ?f = "f\<lparr>hdr := header_of w\<rparr>" and ?lo1 = "configure_read (payload_policy w st) ?lo"
    let ?t = "t\<lparr>up := Some ?f, low := ?lo1\<lparr>buffered := b, delta_offset := 0\<rparr>\<rparr>"
    have lo1: "?lo1 = ?lo\<lparr>min_read_size := min_size (payload_policy w st), max_read_size := length (wf_data w)\<rparr>"
      using idle rd False
      by (simp add: configure_read_def payload_policy_def up_to_def exactly_def ws_idle_def Let_def)
    have c: "up_consume (ws_vt ts) (take n ?b) (delta_offset ?lo) (f, ?lo) = (int ?h, take n ?b, ?f, ?lo1)"
      using consume_head [OF r base(3,4) False] by (simp add: ws_vtable_def tk)
    have "drop ?h (take n ?b @ drop n ?b) = b" unfolding append_take_drop_id by (simp add: b(1))
    then have "consume_once (ws_vt ts) t = Some (True, ?t)"
      using consume_once_positive [OF base(1) dn(1) n c head_length(1) dn(2)] lo1 base(2) by simp
    moreover have "ws_inv ?t ?f st (w # ws) F"
      using inv b(2) in_payload_start [OF r base(3)] False rd idle
      by (auto simp: ws_inv_def ws_busy_def lo1 ws_idle_def)
    moreover have "ws_moved t f st (w # ws) ?t ?f st (w # ws)"
      unfolding ws_moved_def by (auto simp: lo1 ws_items_def intro!: exI [of _ "[]"])
    moreover have "length b < length ?b" using b(1) head_length(1) [of w] by simp
    ultimately show ?thesis unfolding ws_once_def by (intro exI conjI) auto
  next
    case True
    obtain f' lo' where c: "ws_consume (ws_bridge_upper ts) (take n ?b) (delta_offset ?lo) (f, ?lo) =
        (int ?h, take n ?b, f', lo')" "took_frame f ?lo st' ms f' lo'"
      using consume_head_empty [OF r base(3,4) True] unfolding tk by blast
    let ?t = "t\<lparr>up := Some f', low := lo'\<lparr>buffered := b, delta_offset := 0\<rparr>\<rparr>"
    have "drop ?h (take n ?b @ drop n ?b) = b" unfolding append_take_drop_id by (simp add: b(1))
    then have "consume_once (ws_vt ts) t = Some (True, ?t)"
      using consume_once_positive [OF base(1) dn(1) n _ head_length(1) dn(2), of "ws_vt ts" "take n ?b" f' lo'] c base(2)
      by (simp add: ws_vtable_def took_frame_def frame_done_def)
    moreover have "ws_inv ?t f' st' ws F"
      using base c(2) b(2) True rs idle rd
      by (auto simp: ws_inv_def ws_idle_def took_frame_def frame_done_def)
    moreover have "ws_moved t f st (w # ws) ?t f' st' ws"
      using c(2) by (intro ws_moved_took [OF r]) (auto simp: took_frame_def frame_done_def)
    moreover have "length b < length ?b" using b(1) head_length(1) [of w] by simp
    ultimately show ?thesis unfolding ws_once_def by (intro exI conjI) auto
  qed
qed

lemma once_payload:
  assumes inv: "ws_inv t f st ws F" and busy: "ws_busy (low t) f st ws F"
    and p: "min_read_size (low t) \<le> length (buffered (low t))"
  shows "ws_once ts t f st ws F"
proof -
  let ?b = "buffered (low t)" and ?lo = "low t" and ?k = "delta_offset (low t)"
  obtain w ws1 where ws: "ws = w # ws1" and f: "in_payload w st ?k f"
    and k: "?k < length (wf_data w)" "?k \<le> length ?b" and rd: "mgr_reading ?lo" "scheduled ?lo = 0"
    and sz: "min_read_size ?lo = min_size (payload_policy w st)" "max_read_size ?lo = length (wf_data w)"
    and bF: "?b @ F = (take ?k (wf_data w) @ drop ?k (mask_data (wf_key w) (wf_data w) 0)) @ concat (map wire ws1)"
    using busy by (auto simp: ws_busy_def)
  let ?d = "wf_data w" and ?m = "mask_data (wf_key w) (wf_data w) 0"
  let ?mix = "take ?k ?d @ drop ?k ?m"
  have lmix: "length ?mix = length ?d" using k by simp
  have base: "up t = Some f" "next_up ?lo = None" using inv by (auto simp: ws_inv_def)
  obtain st' ms where r: "recv_frame w st = Some (st', ms)" and rs: "recv_frames ws1 st' \<noteq> None"
    using ws_inv_Cons [OF inv [unfolded ws]] by blast
  have hv: "header_valid (hdr f)"
    using f recv_frame_opcode [OF r]
    by (auto simp: in_payload_def header_valid_def header_of_def data_opcodes_def opcode_defs)
  have uc: "up_consume (ws_vt ts) bs k (f, ?lo) = consume_payload (ws_bridge_upper ts) bs k (f, ?lo)" for bs k
    using hv by (simp add: ws_vtable_def ws_consume_def)
  show ?thesis
  proof (cases "length ?d \<le> length ?b")
    case True
    then obtain q where q: "?b = ?mix @ q" "q @ F = concat (map wire ws1)"
      using append_split_le [OF bF] lmix by auto
    have n: "length ?d = min (length ?b) (max_read_size ?lo)" using True sz by simp
    have tk: "take (length ?d) ?b = ?mix" "drop (length ?d) ?b = q" using q(1) lmix by (metis append_eq_conv_conj)+
    have "settled ?lo" using rd sz k by (cases ?d) (simp_all add: settled_def)
    then obtain b f' lo' where c: "consume_payload (ws_bridge_upper ts) ?mix ?k (f, ?lo) = (int (length ?d), b, f', lo')"
        "length b = length ?d" "took_frame f ?lo st' ms f' lo'"
      using payload_done [OF r f] by blast
    let ?t = "t\<lparr>up := Some f', low := lo'\<lparr>buffered := q, delta_offset := 0\<rparr>\<rparr>"
    have "0 < length ?d" using k by linarith
    then have "consume_once (ws_vt ts) t = Some (True, ?t)"
      using consume_once_positive [OF base(1) _ n, of "ws_vt ts" "length ?d" b f' lo'] c base k tk
      by (simp add: uc took_frame_def frame_done_def)
    moreover have "ws_inv ?t f' st' ws1 F"
      using base c(3) q(2) rs rd by (auto simp: ws_inv_def ws_idle_def took_frame_def frame_done_def)
    moreover have "ws_moved t f st ws ?t f' st' ws1"
      unfolding ws using c(3) by (intro ws_moved_took [OF r]) (auto simp: took_frame_def frame_done_def)
    moreover have "length q < length ?b" using q(1) lmix \<open>0 < length ?d\<close> by simp
    ultimately show ?thesis unfolding ws_once_def by (intro exI conjI) auto
  next
    case False
    let ?n = "length ?b"
    have tx: "is_text w st" using p sz False by (auto simp: payload_policy_def exactly_def split: if_splits)
    have n: "min (length ?b) (max_read_size ?lo) = ?n" using False sz by simp
    have "?mix @ concat (map wire ws1) = ?b @ F" by (rule bF [symmetric])
    then obtain q where "?mix = ?b @ q" using append_split_le [of ?mix _ ?b F] False lmix by auto
    then have "?b = take ?n ?mix" by simp
    also have "\<dots> = take ?k ?d @ drop ?k (take ?n ?m)" using k by (simp add: drop_take)
    finally have b: "?b = take ?k ?d @ drop ?k (take ?n ?m)" .
    have settled: "settled ?lo" using rd sz k by (cases ?d) (simp_all add: settled_def)
    obtain f' where c: "consume_payload (ws_bridge_upper ts) ?b ?k (f, ?lo) = (0, take ?n ?d, f', ?lo)"
        "in_payload w st ?n f'" "ws_app f' = ws_app f"
      using payload_text_more [OF r tx f k(2) _ settled, of ts] False b by auto
    let ?t = "t\<lparr>up := Some f', low := ?lo\<lparr>buffered := take ?n ?d, delta_offset := ?n\<rparr>\<rparr>"
    have "consume_once (ws_vt ts) t = Some (False, ?t)"
      using c(1) base k(2) n False sz(2)
      by (simp add: consume_once_def Let_def uc switching_protocol_def on_lower_def)
    moreover have "take ?n ?d @ F = (take ?n ?d @ drop ?n ?m) @ concat (map wire ws1)"
    proof -
      have "?mix = ?b @ drop ?n ?mix" using \<open>?b = take ?n ?mix\<close> by (metis append_take_drop_id)
      moreover have "drop ?n ?mix = drop ?n ?m" using k by simp
      ultimately show ?thesis using bF by (metis append.assoc same_append_eq)
    qed
    then have "ws_inv ?t f' st ws F"
      using base inv ws rd sz c(2) False by (auto simp: ws_inv_def ws_busy_def min_def)
    moreover have "ws_moved t f st ws ?t f' st ws"
      unfolding ws_moved_def using c(3) by (auto simp: ws_items_def intro!: exI [of _ "[]"])
    moreover have "F \<noteq> []"
    proof
      assume "F = []"
      with bF lmix False show False by (metis append_Nil2 length_append le_add1)
    qed
    ultimately show ?thesis unfolding ws_once_def by (intro exI conjI) auto
  qed
qed

section \<open>Reading until nothing is left to do\<close>

definition settle :: "'u upper_layer \<Rightarrow> 'u transport \<Rightarrow> 'u transport option" where
  "settle vt t = Option.bind (handle_buffered_data vt t) (run_scheduled vt)"

lemma settle_once:
  assumes "mgr_reading (low t)" "max_read_size (low t) > 0" "min_read_size (low t) \<le> length (buffered (low t))"
    "consume_once vt t = Some (go, t')"
  shows "settle vt t = (if go then settle vt t' else run_scheduled vt t')"
  using assms by (subst settle_def, subst handle_buffered_data.simps) (simp add: settle_def)

lemma settle_scheduled:
  assumes "\<not> mgr_reading (low t)" "scheduled (low t) = Suc n"
  shows "settle vt t = settle vt (t\<lparr>low := (low t)\<lparr>scheduled := n, mgr_reading := True\<rparr>\<rparr>)"
  using assms
  by (subst settle_def, subst handle_buffered_data.simps, simp, subst run_scheduled.simps)
    (simp add: settle_def scheduled_fn_def on_lower_def register_reading_def)

lemma settle_stuck:
  assumes "length (buffered (low t)) < min_read_size (low t)" "scheduled (low t) = 0"
  shows "settle vt t = Some t"
  using assms
  by (subst settle_def, subst handle_buffered_data.simps, simp, subst run_scheduled.simps) simp

definition ws_settled where
  "ws_settled ts t f st ws F \<longleftrightarrow> (\<exists>t' f' st' ws'. settle (ws_vt ts) t = Some t' \<and> ws_inv t' f' st' ws' F \<and>
     mgr_reading (low t') \<and> ws_moved t f st ws t' f' st' ws' \<and> (F = [] \<longrightarrow> ws' = []))"

lemma ws_once_any:
  assumes inv: "ws_inv t f st ws F" and rd: "mgr_reading (low t)"
    and p: "min_read_size (low t) \<le> length (buffered (low t))"
  shows "ws_once ts t f st ws F"
proof (cases "ws_busy (low t) f st ws F")
  case True
  then show ?thesis using once_payload [OF inv _ p] by simp
next
  case False
  then have idle: "ws_idle (low t) f st ws F" using inv by (auto simp: ws_inv_def)
  show ?thesis
  proof (cases "ws \<noteq> [] \<longrightarrow> length (buffered (low t)) < length (head_of (hd ws))")
    case False
    then obtain w ws' where ws: "ws = w # ws'" by (cases ws) auto
    with once_head inv idle rd False show ?thesis by simp
  qed (rule once_head_short [OF inv idle])
qed

lemma ws_settle: "ws_inv t f st ws F \<Longrightarrow> ws_settled ts t f st ws F"
proof (induction "2 * length (buffered (low t)) + of_bool (\<not> mgr_reading (low t))"
    arbitrary: t f st ws rule: less_induct)
  case less
  note inv = less.prems
  show ?case
  proof (cases "mgr_reading (low t)")
    case False
    then have s: "scheduled (low t) = Suc 0" "ws_idle (low t) f st ws F"
      using inv by (auto simp: ws_inv_def ws_idle_def ws_busy_def)
    let ?t = "t\<lparr>low := (low t)\<lparr>scheduled := 0, mgr_reading := True\<rparr>\<rparr>"
    have "ws_inv ?t f st ws F" using inv s(2) by (auto simp: ws_inv_def ws_idle_def)
    with less.hyps [of ?t f st ws] False have "ws_settled ts ?t f st ws F" by simp
    then show ?thesis
      unfolding ws_settled_def settle_scheduled [OF False s(1)] by (auto simp: ws_moved_def)
  next
    case rd: True
    show ?thesis
    proof (cases "min_read_size (low t) \<le> length (buffered (low t))")
      case False
      have "scheduled (low t) = 0" using inv rd by (auto simp: ws_inv_def ws_idle_def ws_busy_def)
      moreover have "F = [] \<longrightarrow> ws = []"
      proof (cases "ws_idle (low t) f st ws F")
        case True
        with False have "buffered (low t) = []" by (cases "buffered (low t)") (simp_all add: ws_idle_def)
        with True show ?thesis by (auto simp: ws_idle_def)
      next
        case busy: False
        then have "ws_busy (low t) f st ws F" using inv by (auto simp: ws_inv_def)
        then obtain w ws' where w: "min_read_size (low t) = min_size (payload_policy w st)"
          "buffered (low t) @ F = (take (delta_offset (low t)) (wf_data w) @
            drop (delta_offset (low t)) (mask_data (wf_key w) (wf_data w) 0)) @ concat (map wire ws')"
          "delta_offset (low t) < length (wf_data w)"
          unfolding ws_busy_def by blast
        have "length (wf_data w) \<le> length (buffered (low t) @ F)" unfolding w(2) using w(3) by simp
        moreover have "min_read_size (low t) \<le> length (wf_data w)"
          using w(1,3) by (cases "wf_data w") (auto simp: payload_policy_def up_to_def exactly_def)
        ultimately have "F \<noteq> []" using False by auto
        then show ?thesis by simp
      qed
      ultimately show ?thesis
        using inv rd False unfolding ws_settled_def
        by (intro exI conjI) (auto simp: settle_stuck)
    next
      case True
      have mx: "max_read_size (low t) > 0" using inv by (auto simp: ws_inv_def ws_idle_def ws_busy_def)
      obtain go t1 f1 st1 ws1 where once: "consume_once (ws_vt ts) t = Some (go, t1)" "ws_inv t1 f1 st1 ws1 F"
        "ws_moved t f st ws t1 f1 st1 ws1"
        "if go then length (buffered (low t1)) < length (buffered (low t))
         else mgr_reading (low t1) = mgr_reading (low t) \<and> (F = [] \<longrightarrow> ws1 = [])"
        using ws_once_any [OF inv rd True] unfolding ws_once_def by blast
      note s = settle_once [OF rd mx True once(1)]
      show ?thesis
      proof (cases go)
        case True
        then have "2 * length (buffered (low t1)) + of_bool (\<not> mgr_reading (low t1))
            < 2 * length (buffered (low t)) + of_bool (\<not> mgr_reading (low t))"
          using once(4) rd by auto
        from less.hyps [OF this once(2)] obtain t' f' st' ws' where
          t': "settle (ws_vt ts) t1 = Some t'" "ws_inv t' f' st' ws' F" "mgr_reading (low t')"
            "ws_moved t1 f1 st1 ws1 t' f' st' ws'" "F = [] \<longrightarrow> ws' = []"
          unfolding ws_settled_def by blast
        have "settle (ws_vt ts) t = Some t'" using s True t'(1) by simp
        with t'(2,3,5) ws_moved_trans [OF once(3) t'(4)] show ?thesis
          unfolding ws_settled_def by (intro exI conjI)
      next
        case False
        then have rd1: "mgr_reading (low t1)" "F = [] \<longrightarrow> ws1 = []" using once(4) rd by simp_all
        then have "scheduled (low t1) = 0" using once(2) by (auto simp: ws_inv_def ws_idle_def ws_busy_def)
        then have "settle (ws_vt ts) t = Some t1" using s False by (simp add: run_scheduled.simps)
        with once(2,3) rd1 show ?thesis unfolding ws_settled_def by (intro exI conjI)
      qed
    qed
  qed
qed

text \<open>Handling read events; after each of them the socket manager runs the scheduled functions.\<close>

primrec read_and_run :: "'u upper_layer \<Rightarrow> nat \<Rightarrow> 'u transport \<Rightarrow> 'u transport option" where
  "read_and_run vt 0 t = Some t"
| "read_and_run vt (Suc n) t =
     Option.bind (Option.bind (handle_read_event vt t) (run_scheduled vt)) (read_and_run vt n)"

lemma ws_read_event:
  assumes inv: "ws_inv t f st ws (c # cs @ F)" and t: "reads t = Read (c # cs) # rs"
    "\<not> wanted_read_from_write_event (low t)"
  shows "\<exists>t' f' st' ws'. Option.bind (handle_read_event (ws_vt ts) t) (run_scheduled (ws_vt ts)) = Some t' \<and>
    ws_inv t' f' st' ws' F \<and> ws_moved (t\<lparr>reads := rs\<rparr>) f st ws t' f' st' ws' \<and> (F = [] \<longrightarrow> ws' = [])"
proof -
  let ?t = "t\<lparr>reads := rs, low := (low t)\<lparr>read_buf_size := max (read_buf_size (low t)) (max_read_size (low t)),
    buffered := buffered (low t) @ c # cs\<rparr>\<rparr>"
  have "ws_inv ?t f st ws F" using inv by (auto simp: ws_inv_def ws_idle_def ws_busy_def)
  then have "ws_settled ts ?t f st ws F" by (rule ws_settle)
  moreover have "Option.bind (handle_read_event (ws_vt ts) t) (run_scheduled (ws_vt ts)) = settle (ws_vt ts) ?t"
    using t by (simp add: handle_read_event.simps read_body_def on_lower_def settle_def Let_def)
  ultimately obtain t' f' st' ws' where
    "Option.bind (handle_read_event (ws_vt ts) t) (run_scheduled (ws_vt ts)) = Some t'" "ws_inv t' f' st' ws' F"
    "ws_moved ?t f st ws t' f' st' ws'" "F = [] \<longrightarrow> ws' = []"
    unfolding ws_settled_def by auto
  moreover from this(3) have "ws_moved (t\<lparr>reads := rs\<rparr>) f st ws t' f' st' ws'" by (simp add: ws_moved_def)
  ultimately show ?thesis by blast
qed

lemma ws_read_events:
  "ws_inv t f st ws (concat chunks) \<Longrightarrow> [] \<notin> set chunks \<Longrightarrow> reads t = map Read chunks \<Longrightarrow>
   \<not> wanted_read_from_write_event (low t) \<Longrightarrow> (chunks = [] \<longrightarrow> ws = []) \<Longrightarrow>
   \<exists>t' f' st'. read_and_run (ws_vt ts) (length chunks) t = Some t' \<and> ws_inv t' f' st' [] [] \<and>
     ws_moved (t\<lparr>reads := []\<rparr>) f st ws t' f' st' []"
proof (induction chunks arbitrary: t f st ws)
  case Nil
  then show ?case using ws_moved_refl [of t f st ws] by (auto simp: ws_moved_def)
next
  case (Cons chunk chunks)
  then obtain c cs where c: "chunk = c # cs" by (cases chunk) auto
  obtain t1 f1 st1 ws1 where
    t1: "Option.bind (handle_read_event (ws_vt ts) t) (run_scheduled (ws_vt ts)) = Some t1"
    "ws_inv t1 f1 st1 ws1 (concat chunks)" "ws_moved (t\<lparr>reads := map Read chunks\<rparr>) f st ws t1 f1 st1 ws1"
    "concat chunks = [] \<longrightarrow> ws1 = []"
  proof -
    have "ws_inv t f st ws (c # cs @ concat chunks)" "reads t = Read (c # cs) # map Read chunks"
      using Cons.prems c by simp_all
    from ws_read_event [OF this Cons.prems(4)] show thesis using that by blast
  qed
  have "[] \<notin> set chunks" "reads t1 = map Read chunks" "\<not> wanted_read_from_write_event (low t1)"
    "chunks = [] \<longrightarrow> ws1 = []"
    using Cons.prems(2,4) t1(3,4) by (auto simp: ws_moved_def)
  from Cons.IH [OF t1(2) this] obtain t' f' st' where t': "read_and_run (ws_vt ts) (length chunks) t1 = Some t'"
    "ws_inv t' f' st' [] []" "ws_moved (t1\<lparr>reads := []\<rparr>) f1 st1 ws1 t' f' st' []" by blast
  have "ws_moved (t\<lparr>reads := []\<rparr>) f st ws t' f' st' []"
    using t1(3) t'(3) by (auto simp: ws_moved_def)
  with t' t1(1) show ?case by auto
qed

section \<open>End to end\<close>

definition ws_transport :: "ws_flow_bridge ws_framing \<Rightarrow> bytes list \<Rightarrow> ws_flow_bridge ws_framing transport" where
  "ws_transport f chunks =
     \<lparr>low = \<lparr>min_read_size = 0, max_read_size = 0, buffered = [], read_buf_size = 0, delta_offset = 0,
             write_buf = [], max_write_buf_size = 0, wanted_read_from_write_event = False,
             wanted_write_from_read_event = False, shutting_down = False, next_up = None, mgr_reading = False,
             mgr_writing = False, mgr_shutdown = False, scheduled = 0\<rparr>,
      up = Some f, reads = map Read chunks, writes = []\<rparr>"

definition ws_run :: "(error \<Rightarrow> bytes) \<Rightarrow> ws_flow_bridge ws_framing \<Rightarrow> bytes list \<Rightarrow> ws_flow_bridge ws_framing transport option" where
  "ws_run to_string f chunks =
     Option.bind (transport_start (ws_vt to_string) 65536 (ws_transport f chunks))
       (\<lambda>r. read_and_run (ws_vt to_string) (length chunks) (snd r))"

lemma ws_start_inv:
  assumes "f \<in> {make_client a keys, make_server a keys}" "ws_out_open a" "recv_frames ws None \<noteq> None"
  shows "\<exists>t. transport_start (ws_vt ts) 65536 (ws_transport f chunks) = Some (no_error, t) \<and>
    ws_inv t f None ws (concat (map wire ws)) \<and> reads t = map Read chunks \<and> \<not> wanted_read_from_write_event (low t)"
  using assms
  by (auto simp: transport_start_def ws_transport_def ws_vtable_def ws_bridge_upper_def ws_request_messages_def
      is_reading_def configure_read_def default_receive_policy_def up_to_def register_reading_def ws_inv_def
      ws_idle_def at_frame_def frag_ok_def frag_op_def frag_bytes_def make_client_def make_server_def
      header_valid_def default_header_def Let_def)

text \<open>
  C26: End-to-end delivery over WebSocket framing. Take any sequence of frames that makes sense to the protocol
  (\<open>recv_frames\<close>: messages in fragments, control frames in between, texts that are UTF-8), masked with any keys, and
  any split of their bytes into read results. Handling the read events returns, the application then has
  exactly the messages in order and unchanged, and the layer holds exactly the fragments of the unfinished message.
\<close>

theorem ws_delivers_messages:
  assumes "recv_frames ws None = Some (st, msgs)" "concat chunks = concat (map wire ws)" "[] \<notin> set chunks"
    "f = make_client a keys \<or> f = make_server a keys" "ws_out_open a" "items (ws_out a) = []"
  shows "\<exists>t f'. ws_run to_string f chunks = Some t \<and> up t = Some f' \<and> items (ws_out (ws_app f')) = msgs \<and>
    payload_buf f' = frag_bytes st \<and> buffered (low t) = []"
proof -
  have fs: "f \<in> {make_client a keys, make_server a keys}" "ws_app f = a"
    using assms(4) by (auto simp: make_client_def make_server_def)
  obtain t where t: "transport_start (ws_vt to_string) 65536 (ws_transport f chunks) = Some (no_error, t)"
    "ws_inv t f None ws (concat chunks)" "reads t = map Read chunks" "\<not> wanted_read_from_write_event (low t)"
    using ws_start_inv [OF fs(1) assms(5), of ws to_string chunks] assms(1,2) by auto
  have "chunks = [] \<longrightarrow> ws = []" using assms(2) by auto
  from ws_read_events [OF t(2) assms(3) t(3,4) this, of to_string] obtain t' f' st' where
    t': "read_and_run (ws_vt to_string) (length chunks) t = Some t'" "ws_inv t' f' st' [] []"
    "ws_moved (t\<lparr>reads := []\<rparr>) f None ws t' f' st' []" by blast
  have "ws_items f = []" using assms(6) fs(2) by (simp add: ws_items_def)
  then have "st' = st" "ws_items f' = msgs" using t'(3) assms(1) by (auto simp: ws_moved_def)
  moreover have "ws_idle (low t') f' st' [] []" "up t' = Some f'" using t'(2) by (auto simp: ws_inv_def ws_busy_def)
  ultimately show ?thesis
    using t(1) t'(1) by (auto simp: ws_run_def ws_idle_def at_frame_def ws_items_def)
qed

text \<open>A text in two fragments with an empty ping in between, then a binary message; three reads.\<close>

definition demo_frames :: "ws_in list" where
  "demo_frames =
     [\<lparr>wf_fin = False, wf_op = text_frame, wf_key = 0, wf_data = [0x48]\<rparr>,
      \<lparr>wf_fin = True, wf_op = ping_frame, wf_key = 0, wf_data = []\<rparr>,
      \<lparr>wf_fin = True, wf_op = continuation_frame, wf_key = 0, wf_data = [0x69]\<rparr>,
      \<lparr>wf_fin = True, wf_op = binary_frame, wf_key = 0, wf_data = [1, 2]\<rparr>]"

lemma demo_wire:
  "concat (map wire demo_frames) = [0x01, 1, 0x48, 0x89, 0, 0x80, 1, 0x69, 0x82, 2, 1, 2]"
  by (simp add: demo_frames_def wire_def frame_header_def length_bytes_def opcode_defs)

lemma demo_recv: "recv_frames demo_frames None = Some (None, [Text [0x48, 0x69], Binary [1, 2]])"
proof -
  have v: "validate [0x48] = (1, False)" "validate [0x48, 0x69] = (2, False)"
    by (simp_all add: scan_simps)
  show ?thesis
    by (simp add: demo_frames_def recv_frame_def reassemble_def prepend_def max_frame_size_def valid_def
        utf8_prefix_def v del: validate.simps(2))
qed

theorem ws_delivers_messages_witness:
  "\<exists>t f'. ws_run (\<lambda>_. []) (make_server \<lparr>ws_out = mk_spsc_buffer 1 1, ws_out_open = True, ws_inp = Some ([], Open)\<rparr> (\<lambda>_. 0))
      [[0x01], [1, 0x48, 0x89, 0, 0x80, 1], [0x69, 0x82, 2, 1, 2]] = Some t \<and> up t = Some f' \<and>
    items (ws_out (ws_app f')) = [Text [0x48, 0x69], Binary [1, 2]] \<and>
    payload_buf f' = frag_bytes None \<and> buffered (low t) = []"
  by (rule ws_delivers_messages [OF demo_recv, where keys = "\<lambda>_. 0" and
      a = "\<lparr>ws_out = mk_spsc_buffer 1 1, ws_out_open = True, ws_inp = Some ([], Open)\<rparr>"])
    (simp_all add: demo_wire mk_spsc_buffer_def)

section \<open>Errors\<close>

text \<open>
  C27: A malformed or illegal header ends the connection, and a legal one is accepted. Let a header announce a frame with
  a known opcode and a payload of \<open>len\<close> bytes, and let \<open>st\<close> be the unfinished message, if any. The header is illegal if
  it is a control frame with more than 125 bytes or without the final bit, or a data frame that does not fit in the
  maximum frame size with its header or in the maximum message size with the fragments received so far, or a
  continuation without an unfinished message, or a new message before the last fragment of the unfinished one. On an
  illegal header, and on any bytes with a reserved bit or an unknown opcode (given the at most 14 bytes of a header), the
  layer delivers nothing, reports \<^verbatim>\<open>protocol_error\<close> to the application, appends a closing frame with status 1002 to the
  output, stops reading and shuts down. A legal header of a non-empty frame is consumed, and the layer then waits for
  the payload.
\<close>

theorem ws_rejects_illegal_header:
  assumes "at_frame st f" "\<not> header_valid (hdr f)" "\<not> closed (ws_out (ws_app f))"
    and "oc \<in> {continuation_frame, text_frame, binary_frame, connection_close_frame, ping_frame, pong_frame}"
    and "len < 2 ^ 64" "front = frame_header oc key len (if final then fin_flag else 0)"
  shows "(if (if oc \<in> {connection_close_frame, ping_frame, pong_frame} then 125 < len \<or> \<not> final
              else max_frame_size \<le> length front + len \<or> max_frame_size < length (frag_bytes st) + len \<or>
                   (oc = continuation_frame) = (st = None))
          then \<exists>f' lo'. ws_consume (ws_bridge_upper to_string) (front @ rest) offset (f, lo) = (- 1, front @ rest, f', lo') \<and>
                 gave_up to_string protocol_error [0x03, 0xEA] f lo f' lo'
          else 0 < len \<longrightarrow> ws_consume (ws_bridge_upper to_string) (front @ rest) offset (f, lo) =
                 (int (length front), front @ rest,
                  f\<lparr>hdr := \<lparr>fin = final, opcode = oc, mask_key = key, payload_len = of_nat len\<rparr>\<rparr>,
                  configure_read (if oc = text_frame \<or> oc = continuation_frame \<and> frag_op st = text_frame
                                  then up_to len else exactly len) lo)) \<and>
    (14 \<le> length bytes \<and>
     (bytes ! 0 AND 0x70 \<noteq> 0 \<or>
      bytes ! 0 AND 0x0F \<notin> {continuation_frame, text_frame, binary_frame, connection_close_frame, ping_frame, pong_frame}) \<longrightarrow>
     (\<exists>f' lo'. ws_consume (ws_bridge_upper to_string) bytes offset (f, lo) = (- 1, bytes, f', lo') \<and>
        gave_up to_string protocol_error [0x03, 0xEA] f lo f' lo'))"
proof -
  let ?h = "\<lparr>fin = final, opcode = oc, mask_key = key, payload_len = of_nat len\<rparr>"
  have reject: "\<exists>f' lo'. abort_and_shutdown (ws_bridge_upper to_string) (sec_error protocol_error) (g, lo) = (f', lo') \<and>
      gave_up to_string protocol_error [0x03, 0xEA] f lo f' lo'" if "ws_app g = ws_app f" "fst (next_key g) = fst (next_key f)" for g
    using abort_and_shutdown_bridge [of g protocol_error "[0x03, 0xEA]" to_string lo] assms(1,3) that
    by (auto simp: gave_up_def at_frame_def)
  have dec: "decode_header (front @ rest) (hdr f) = (int (length front), ?h)"
    using decode_header_frame [of oc "if final then fin_flag else 0" len key rest "hdr f"] assms(4,5)
    by (simp add: assms(6) data_opcodes_def fin_flag_def)
  have hl: "0 < length front" "length front \<le> 14"
    by (auto simp: assms(6) frame_header_def length_bytes_def as_bytes_to_network_order)
  have plen: "unat (of_nat len :: u64) = len" using assms(5) by (simp add: unat_of_nat_small)
  have st: "opcode_cache f = frag_op st" "payload_buf f = frag_bytes st" "frag_op st = invalid_frame \<longleftrightarrow> st = None"
    using assms(1) by (auto simp: at_frame_def frag_ok_def frag_op_def split: option.splits)
  have ctl: "is_control_frame oc \<longleftrightarrow> oc \<in> {connection_close_frame, ping_frame, pong_frame}"
    using assms(4) by (auto simp: is_control_frame_def opcode_defs)
  define illegal where "illegal = (if oc \<in> {connection_close_frame, ping_frame, pong_frame} then 125 < len \<or> \<not> final
    else max_frame_size \<le> length front + len \<or> max_frame_size < length (frag_bytes st) + len \<or>
         (oc = continuation_frame) = (st = None))"
  have val: "validate_header (length front) (f\<lparr>hdr := ?h\<rparr>) = (if illegal then sec_error protocol_error else no_error)"
    using hl unfolding illegal_def ctl [symmetric]
    by (auto simp: validate_header_def Let_def plen st max_frame_size_def)
  have 1: "if illegal
    then \<exists>f' lo'. ws_consume (ws_bridge_upper to_string) (front @ rest) offset (f, lo) = (- 1, front @ rest, f', lo') \<and>
           gave_up to_string protocol_error [0x03, 0xEA] f lo f' lo'
    else 0 < len \<longrightarrow> ws_consume (ws_bridge_upper to_string) (front @ rest) offset (f, lo) =
           (int (length front), front @ rest, f\<lparr>hdr := ?h\<rparr>,
            configure_read (if oc = text_frame \<or> oc = continuation_frame \<and> frag_op st = text_frame
                            then up_to len else exactly len) lo)"
  proof (cases illegal)
    case True
    with reject [of "f\<lparr>hdr := ?h\<rparr>"] assms(2) hl show ?thesis
      by (auto simp: ws_consume_def consume_header_def dec val Let_def next_key_def)
  next
    case False
    have "0 < len \<Longrightarrow> (of_nat len :: u64) \<noteq> 0" using plen by auto
    with False assms(2) hl show ?thesis
      by (auto simp: ws_consume_def consume_header_def dec val Let_def st plen)
  qed
  have 2: "\<exists>f' lo'. ws_consume (ws_bridge_upper to_string) bytes offset (f, lo) = (- 1, bytes, f', lo') \<and>
      gave_up to_string protocol_error [0x03, 0xEA] f lo f' lo'"
    if "14 \<le> length bytes" "bytes ! 0 AND 0x70 \<noteq> 0 \<or> bytes ! 0 AND 0x0F \<notin>
      {continuation_frame, text_frame, binary_frame, connection_close_frame, ping_frame, pong_frame}"
  proof -
    have "decode_header bytes (hdr f) = (- 1, hdr f)"
      using that by (auto simp: decode_header_def Let_def)
    with reject [of f] assms(2) show ?thesis by (auto simp: ws_consume_def consume_header_def Let_def)
  qed
  from 1 2 show ?thesis unfolding illegal_def by blast
qed

definition demo_server :: "bool \<Rightarrow> ws_flow_bridge ws_framing" where
  "demo_server busy =
     (make_server \<lparr>ws_out = mk_spsc_buffer 1 1, ws_out_open = True, ws_inp = Some ([], Open)\<rparr> (\<lambda>_. 0))
       \<lparr>hdr := if busy then \<lparr>fin = True, opcode = text_frame, mask_key = 0, payload_len = 1\<rparr> else default_header\<rparr>"

definition demo_low :: "ws_flow_bridge ws_framing lower" where
  "demo_low = low (ws_transport (demo_server False) [])"

text \<open>A ping without the final bit, the start of a text message of five bytes, and a reserved bit.\<close>

lemma demo_at_frame: "at_frame None (demo_server False)" "\<not> header_valid (hdr (demo_server False))"
  "\<not> closed (ws_out (ws_app (demo_server b)))"
  by (simp_all add: at_frame_def frag_ok_def frag_op_def frag_bytes_def demo_server_def make_server_def make_client_def
      header_valid_def default_header_def mk_spsc_buffer_def)

theorem ws_rejects_illegal_header_witness:
  "(\<exists>f' lo'. ws_consume (ws_bridge_upper (\<lambda>_. [])) [0x09, 0x03] 0 (demo_server False, demo_low) =
      (- 1, [0x09, 0x03], f', lo') \<and> gave_up (\<lambda>_. []) protocol_error [0x03, 0xEA] (demo_server False) demo_low f' lo') \<and>
   ws_consume (ws_bridge_upper (\<lambda>_. [])) [0x81, 0x05] 0 (demo_server False, demo_low) =
     (int 2, [0x81, 0x05], (demo_server False)\<lparr>hdr := \<lparr>fin = True, opcode = text_frame, mask_key = 0, payload_len = 5\<rparr>\<rparr>,
      configure_read (up_to 5) demo_low) \<and>
   (\<exists>f' lo'. ws_consume (ws_bridge_upper (\<lambda>_. [])) (replicate 14 0xC1) 0 (demo_server False, demo_low) =
      (- 1, replicate 14 0xC1, f', lo') \<and>
      gave_up (\<lambda>_. []) protocol_error [0x03, 0xEA] (demo_server False) demo_low f' lo')"
proof -
  have h: "[0x09, 0x03] = frame_header ping_frame 0 3 (if False then fin_flag else 0)"
    "[0x81, 0x05] = frame_header text_frame 0 5 (if True then fin_flag else 0)"
    by (simp_all add: frame_header_def length_bytes_def opcode_defs)
  note rej = ws_rejects_illegal_header [OF demo_at_frame(1,2) demo_at_frame(3), where lo = demo_low and rest = "[]"
    and offset = 0 and to_string = "\<lambda>_. []" and bytes = "replicate 14 0xC1"]
  show ?thesis
    using rej [OF _ _ h(1)] rej [OF _ _ h(2)] by (simp add: max_frame_size_def frag_bytes_def)
qed

text \<open>
  C28: Text is UTF-8, whatever its fragmentation and however its payload arrives. Let \<open>w\<close> be a text frame or a
  continuation of the text message \<open>st\<close>, and let the layer have processed the first \<open>k\<close> payload bytes, so that the
  text so far is the beginning of a UTF-8 string. When the layer sees the first \<open>n \<ge> k\<close> payload bytes, it gives up
  with \<^verbatim>\<open>malformed_message\<close> and status 1007 if the text up to there is not the beginning of a UTF-8 string any more, or if
  the message is complete and not UTF-8. Otherwise it waits for the rest of the payload, keeps the text if the
  fragment is complete but not the last one, or delivers the text of all fragments unchanged.
\<close>

theorem ws_text_is_utf8:
  assumes "is_text w st" "in_payload w st k f" "wf_op w = text_frame \<longrightarrow> st = None" "length (wf_data w) < 2 ^ 31"
    "k \<le> n" "n \<le> length (wf_data w)" "begins_utf8 (frag_bytes st @ take k (wf_data w))" "settled lo"
    "\<not> closed (ws_out (ws_app f))"
    and t: "txt = frag_bytes st @ take n (wf_data w)"
  shows "\<exists>res b f' lo'. ws_consume (ws_bridge_upper to_string)
      (take k (wf_data w) @ drop k (take n (mask_data (wf_key w) (wf_data w) 0))) k (f, lo) = (res, b, f', lo') \<and>
    (if \<not> begins_utf8 txt \<or> n = length (wf_data w) \<and> wf_fin w \<and> \<not> is_utf8 txt
     then res = - 1 \<and> gave_up to_string malformed_message [0x03, 0xEF] f lo f' lo'
     else if n < length (wf_data w)
     then res = 0 \<and> in_payload w st n f' \<and> items (ws_out (ws_app f')) = items (ws_out (ws_app f))
     else if wf_fin w
     then res = int (length (wf_data w)) \<and> at_frame None f' \<and>
          items (ws_out (ws_app f')) = items (ws_out (ws_app f)) @ [Text txt]
     else res = int (length (wf_data w)) \<and> at_frame (Some (text_frame, txt)) f' \<and>
          items (ws_out (ws_app f')) = items (ws_out (ws_app f)))"
proof -
  have "header_valid (hdr f)"
    using assms(1,2) by (auto simp: in_payload_def is_text_def header_of_def header_valid_def)
  moreover have "wf_op w = text_frame \<Longrightarrow> st = None" using assms(3) by blast
  ultimately show ?thesis
    using payload_text [OF assms(1,2) _ assms(4-6) _ assms(8) refl refl, of to_string] assms(7,9)
    unfolding t utf8_prefix_begins valid_is_utf8
    by (auto simp: ws_consume_def took_frame_def ws_items_def split: if_splits)
qed

text \<open>
  A message in two fragments: the first one ends within the euro sign, the second one completes it or continues
  with another character.
\<close>

definition demo_fragment :: "bytes \<Rightarrow> ws_in" where
  "demo_fragment d = \<lparr>wf_fin = True, wf_op = continuation_frame, wf_key = 0, wf_data = d\<rparr>"

definition demo_midway :: "bytes \<Rightarrow> ws_flow_bridge ws_framing" where
  "demo_midway d = (demo_server False)\<lparr>hdr := header_of (demo_fragment d), opcode_cache := text_frame, payload_buf := [0xE2],
     validation_offset := 0\<rparr>"

theorem ws_text_is_utf8_witness:
  "(\<exists>res b f' lo'. ws_consume (ws_bridge_upper (\<lambda>_. [])) [0x28] 0 (demo_midway [0x28], demo_low) = (res, b, f', lo') \<and>
      res = - 1 \<and> gave_up (\<lambda>_. []) malformed_message [0x03, 0xEF] (demo_midway [0x28]) demo_low f' lo') \<and>
   (\<exists>res b f' lo'. ws_consume (ws_bridge_upper (\<lambda>_. [])) [0x82, 0xAC] 0 (demo_midway [0x82, 0xAC], demo_low) = (res, b, f', lo') \<and>
      res = int 2 \<and> items (ws_out (ws_app f')) = [Text [0xE2, 0x82, 0xAC]])"
proof -
  let ?st = "Some (text_frame, [0xE2])"
  have v: "validate [0xE2] = (0, True)" "validate [0xE2, 0x28] = (0, False)" "validate [0xE2, 0x82, 0xAC] = (3, False)"
    by (simp_all add: scan_simps cont_def)
  have u: "begins_utf8 [0xE2]" "\<not> begins_utf8 [0xE2, 0x28]" "is_utf8 [0xE2, 0x82, 0xAC]" "begins_utf8 [0xE2, 0x82, 0xAC]"
    unfolding utf8_prefix_begins [symmetric] valid_is_utf8 [symmetric] utf8_prefix_def valid_def v by simp_all
  have p: "is_text (demo_fragment d) ?st" "in_payload (demo_fragment d) ?st 0 (demo_midway d)"
      "\<not> closed (ws_out (ws_app (demo_midway d)))" "wf_op (demo_fragment d) = text_frame \<longrightarrow> ?st = None" "settled demo_low"
      "items (ws_out (ws_app (demo_midway d))) = []" for d
    using v(1)
    by (simp_all add: is_text_def in_payload_def demo_fragment_def demo_midway_def demo_server_def make_server_def make_client_def
        frag_op_def frag_bytes_def frag_ok_def utf8_prefix_def mk_spsc_buffer_def settled_def demo_low_def ws_transport_def
        del: validate.simps(2))
  have b: "begins_utf8 (frag_bytes ?st @ take 0 (wf_data (demo_fragment d)))" for d
    using u(1) by (simp add: frag_bytes_def)
  note t = ws_text_is_utf8 [OF p(1,2,4) _ _ _ b p(5,3) refl, where to_string = "\<lambda>_. []"]
  show ?thesis
    using t [of "[0x28]" 1] t [of "[0x82, 0xAC]" 2] u p(6) [of "[0x82, 0xAC]"]
    by (simp add: demo_fragment_def frag_bytes_def) blast
qed

text \<open>
  C29: Back-pressure does not reach the WebSocket transport. The flow bridge suspends reading when the buffer of
  the application is full, but the framing layer then configures the transport for the next frame: after a
  data frame the transport reads again, whatever the buffer of the application can take.
\<close>

theorem ws_reads_with_full_buffer:
  assumes "oc = text_frame \<or> oc = binary_frame" "ws_out_open (ws_app f)" "settled lo"
    "capacity (ws_out (ws_app f)) \<le> length (items (ws_out (ws_app f)))"
  shows "\<exists>f' lo'. handle (ws_bridge_upper to_string) oc payload n (f, lo) = (int n, payload, f', lo') \<and>
    capacity (ws_out (ws_app f')) < length (items (ws_out (ws_app f'))) \<and> is_reading lo' \<and>
    (mgr_reading lo' \<or> scheduled lo' = Suc (scheduled lo))"
proof -
  obtain f' lo' where h: "handle (ws_bridge_upper to_string) oc payload n (f, lo) = (int n, payload, f', lo')"
    "frame_done lo lo'" "ws_items f' = ws_items f @ [if oc = text_frame then Text payload else Binary payload]"
    using handle_data [OF assms(2,3,1)] by blast
  moreover from h(1) assms(1,2) have "capacity (ws_out (ws_app f')) = capacity (ws_out (ws_app f))"
    by (auto simp: handle_def ws_bridge_upper_def ws_bridge_consume_def set_app_def ws_suspend_reading_def
        finish_frame_def push_def notify_def Let_def split: prod.splits if_splits)
  ultimately show ?thesis
    using assms(4) by (auto simp: frame_done_def is_reading_def ws_items_def)
qed

theorem ws_reads_with_full_buffer_witness:
  "\<exists>f' lo'. handle (ws_bridge_upper (\<lambda>_. [])) binary_frame [7] 1
      ((demo_server False)\<lparr>ws_app := \<lparr>ws_out = mk_spsc_buffer 0 1, ws_out_open = True, ws_inp = None\<rparr>\<rparr>, demo_low) =
      (int 1, [7], f', lo') \<and>
    capacity (ws_out (ws_app f')) < length (items (ws_out (ws_app f'))) \<and> is_reading lo' \<and>
    (mgr_reading lo' \<or> scheduled lo' = Suc (scheduled demo_low))"
  by (rule ws_reads_with_full_buffer)
    (simp_all add: mk_spsc_buffer_def settled_def demo_low_def ws_transport_def)

text \<open>
  C30: The reason of a failed input flow is lost. When the application aborts the flow of messages to send with an
  error, the bridge closes the flow of received messages as if everything was fine and tells the peer that
  something was disposed; neither depends on the error. (The closing frame is masked if this side masks its output.)
\<close>

theorem ws_abort_reason_lost:
  assumes "ws_inp (ws_app f) = Some ([], Aborted e)" "can_send_more lo" "ws_out_open (ws_app f)"
    "\<not> closed (ws_out (ws_app f))" "key = (if mask_outgoing_frames f then rng f (drawn f) else 0)"
  shows "\<exists>f' lo'. ws_bridge_prepare_send to_string (f, lo) = (f', lo') \<and> closed (ws_out (ws_app f')) \<and>
    err (ws_out (ws_app f')) = no_error \<and>
    write_buf lo' = write_buf lo @ assemble_frame connection_close_frame key
      (mask_data key ([0x03, 0xF3] @ to_string (sec_error disposed)) 0) [] fin_flag"
proof -
  let ?f = "f\<lparr>ws_app := (ws_app f)\<lparr>ws_out := close (ws_out (ws_app f)), ws_out_open := False, ws_inp := None\<rparr>\<rparr>"
  have "ws_bridge_prepare_send to_string (f, lo) = ws_shutdown_status 1011 (to_string (sec_error disposed)) (?f, lo)"
    using assms(1-3)
    by (simp add: ws_bridge_prepare_send_def ws_input_aborted_def set_app_def consumer_abort_reason_def
        ws_bridge_abort_def ws_shutdown_def Let_def)
  moreover have "fst (next_key ?f) = key" using assms(5) by (simp add: next_key_def)
  moreover have "closed (close (ws_out (ws_app f)))" "err (close (ws_out (ws_app f))) = no_error"
    using assms(4) by (simp_all add: close_def abort_def notify_def Let_def)
  ultimately show ?thesis
    using shutdown_status [OF status_bytes(4) [symmetric], of "to_string (sec_error disposed)" ?f lo] by auto
qed

theorem ws_abort_reason_lost_witness:
  "\<exists>f' lo'. ws_bridge_prepare_send (\<lambda>_. []) ((demo_server False)\<lparr>ws_app :=
       \<lparr>ws_out = mk_spsc_buffer 1 1, ws_out_open = True, ws_inp = Some ([], Aborted (sec_error runtime_error))\<rparr>\<rparr>,
       demo_low\<lparr>max_write_buf_size := 10\<rparr>) = (f', lo') \<and> closed (ws_out (ws_app f')) \<and>
    err (ws_out (ws_app f')) = no_error \<and>
    write_buf lo' = write_buf demo_low @ assemble_frame connection_close_frame 0 ([0x03, 0xF3] @ []) [] fin_flag"
  using ws_abort_reason_lost [of "(demo_server False)\<lparr>ws_app :=
       \<lparr>ws_out = mk_spsc_buffer 1 1, ws_out_open = True, ws_inp = Some ([], Aborted (sec_error runtime_error))\<rparr>\<rparr>"
      "sec_error runtime_error" "demo_low\<lparr>max_write_buf_size := 10\<rparr>" 0 "\<lambda>_. []"]
  by (simp add: can_send_more_def demo_low_def ws_transport_def demo_server_def make_server_def mk_spsc_buffer_def)

end
