(* ===== verification/Basp_Queue.thy ===== *)
theory Basp_Queue
  imports CAF_Prelude "HOL-Library.Word"
begin

text \<open>
  The queue that restores the order of incoming BASP messages (\<^verbatim>\<open>libcaf_io/caf/io/basp/message_queue.cpp\<close>).
  The broker draws an ascending ID for every message before a worker deserializes it; the workers push or
  drop their IDs in any order, and the queue enqueues the messages to their receivers in the order of the
  IDs. The interleavings of broker and workers are a step relation.
\<close>

section \<open>Model\<close>

record ('r, 'c) actor_msg =
  msg_id :: u64
  receiver :: "'r option"
  content :: 'c

text \<open>\<open>enqueued\<close> records the calls to \<^verbatim>\<open>receiver->enqueue\<close>.\<close>

record ('r, 'c) message_queue =
  next_id :: u64
  next_undelivered :: u64
  pending :: "('r, 'c) actor_msg list"
  enqueued :: "('r \<times> 'c) list"

definition mk_message_queue :: "('r, 'c) message_queue" where
  "mk_message_queue = \<lparr>next_id = 0, next_undelivered = 0, pending = [], enqueued = []\<rparr>"

definition dispatch_msg :: "'r option \<Rightarrow> 'c \<Rightarrow> ('r, 'c) message_queue \<Rightarrow> ('r, 'c) message_queue" where
  "dispatch_msg rcv con q = (case rcv of None \<Rightarrow> q | Some r \<Rightarrow> q\<lparr>enqueued := enqueued q @ [(r, con)]\<rparr>)"

primrec deliver_consecutive ::
    "('r, 'c) actor_msg list \<Rightarrow> u64 \<Rightarrow> ('r, 'c) message_queue \<Rightarrow> ('r, 'c) message_queue" where
  "deliver_consecutive [] next q = q\<lparr>next_undelivered := next, pending := []\<rparr>"
| "deliver_consecutive (x # xs) next q =
     (if msg_id x = next then deliver_consecutive xs (next + 1) (dispatch_msg (receiver x) (content x) q)
      else q\<lparr>next_undelivered := next, pending := x # xs\<rparr>)"

definition mq_push :: "u64 \<Rightarrow> 'r option \<Rightarrow> 'c \<Rightarrow> ('r, 'c) message_queue \<Rightarrow> ('r, 'c) message_queue" where
  "mq_push mid rcv con q =
     (if mid = next_undelivered q
      then deliver_consecutive (pending q) (mid + 1) (dispatch_msg rcv con q)
      else q\<lparr>pending := takeWhile (\<lambda>x. \<not> mid \<le> msg_id x) (pending q) @
               \<lparr>msg_id = mid, receiver = rcv, content = con\<rparr> #
               dropWhile (\<lambda>x. \<not> mid \<le> msg_id x) (pending q)\<rparr>)"

definition mq_drop :: "u64 \<Rightarrow> 'c \<Rightarrow> ('r, 'c) message_queue \<Rightarrow> ('r, 'c) message_queue" where
  "mq_drop mid nothing q = mq_push mid None nothing q"

definition new_id :: "('r, 'c) message_queue \<Rightarrow> u64 \<times> ('r, 'c) message_queue" where
  "new_id q = (next_id q, q\<lparr>next_id := next_id q + 1\<rparr>)"

section \<open>Interleavings\<close>

text \<open>
  The queue with its history: the broker has started \<open>issued\<close> messages, numbered in the order of their arrival;
  \<open>drawn_id\<close> is the ID that \<open>new_id\<close> returned for a message, which its worker passes to \<open>push\<close> or \<open>drop\<close>. The
  messages in \<open>working\<close> are still being deserialized, and \<open>result\<close> is what became of the others: a receiver and
  a content, or nothing.
\<close>

record ('r, 'c) mq_sys =
  mq :: "('r, 'c) message_queue"
  issued :: nat
  drawn_id :: "nat \<Rightarrow> u64"
  working :: "nat set"
  result :: "nat \<Rightarrow> 'r option \<times> 'c"

definition mq_init :: "(nat \<Rightarrow> 'r option \<times> 'c) \<Rightarrow> ('r, 'c) mq_sys" where
  "mq_init res = \<lparr>mq = mk_message_queue, issued = 0, drawn_id = (\<lambda>_. 0), working = {}, result = res\<rparr>"

inductive mq_step :: "('r, 'c) mq_sys \<Rightarrow> ('r, 'c) mq_sys \<Rightarrow> bool" where
  draw: "new_id (mq S) = (mid, q) \<Longrightarrow>
     mq_step S (S\<lparr>mq := q, drawn_id := (drawn_id S)(issued S := mid), issued := Suc (issued S),
                  working := insert (issued S) (working S)\<rparr>)"
| push: "i \<in> working S \<Longrightarrow>
     mq_step S (S\<lparr>mq := mq_push (drawn_id S i) (Some r) c (mq S), working := working S - {i},
                  result := (result S)(i := (Some r, c))\<rparr>)"
| drop: "i \<in> working S \<Longrightarrow>
     mq_step S (S\<lparr>mq := mq_drop (drawn_id S i) c (mq S), working := working S - {i},
                  result := (result S)(i := (None, c))\<rparr>)"

inductive mq_reachable :: "('r, 'c) mq_sys \<Rightarrow> bool" where
  init: "mq_reachable (mq_init res)"
| step: "mq_reachable S \<Longrightarrow> mq_step S S' \<Longrightarrow> mq_reachable S'"

section \<open>Ordered delivery\<close>

definition outcome :: "'r option \<times> 'c \<Rightarrow> ('r \<times> 'c) list" where
  "outcome x = (case fst x of None \<Rightarrow> [] | Some r \<Rightarrow> [(r, snd x)])"

definition outcomes :: "(nat \<Rightarrow> 'r option \<times> 'c) \<Rightarrow> nat \<Rightarrow> ('r \<times> 'c) list" where
  "outcomes res n = concat (map (outcome \<circ> res) [0..<n])"

definition pending_of :: "(nat \<Rightarrow> 'r option \<times> 'c) \<Rightarrow> nat list \<Rightarrow> ('r, 'c) actor_msg list" where
  "pending_of res ps = map (\<lambda>i. \<lparr>msg_id = of_nat i, receiver = fst (res i), content = snd (res i)\<rparr>) ps"

text \<open>
  The queue represents the set of finished IDs: all IDs below \<open>n\<close> are delivered, and the finished ones
  above it are pending in ascending order.
\<close>

definition mq_rep :: "('r, 'c) message_queue \<Rightarrow> (nat \<Rightarrow> 'r option \<times> 'c) \<Rightarrow> nat \<Rightarrow> nat list \<Rightarrow> bool" where
  "mq_rep q res n ps \<longleftrightarrow> next_undelivered q = of_nat n \<and> pending q = pending_of res ps \<and>
     enqueued q = outcomes res n \<and> sorted_wrt (<) ps \<and> (\<forall>i \<in> set ps. n < i)"

definition mq_inv :: "('r, 'c) mq_sys \<Rightarrow> bool" where
  "mq_inv S \<longleftrightarrow> next_id (mq S) = of_nat (issued S) \<and> working S \<subseteq> {..<issued S} \<and>
     (\<forall>i < issued S. drawn_id S i = of_nat i) \<and>
     (\<exists>n ps. mq_rep (mq S) (result S) n ps \<and> {..<n} \<union> set ps = {..<issued S} - working S)"

lemma u64_of_nat:
  assumes "i < 2 ^ 64" "j < 2 ^ 64"
  shows "(of_nat i :: u64) = of_nat j \<longleftrightarrow> i = j" "(of_nat i :: u64) \<le> of_nat j \<longleftrightarrow> i \<le> j"
  using assms by (simp_all add: word_unat_eq_iff word_le_nat_alt unsigned_of_nat take_bit_nat_eq_self)

lemma outcomes_Suc: "outcomes res (Suc n) = outcomes res n @ outcome (res n)"
  by (simp add: outcomes_def)

lemma outcomes_cong: "(\<And>i. i < n \<Longrightarrow> res i = res' i) \<Longrightarrow> outcomes res n = outcomes res' n"
  unfolding outcomes_def by (intro arg_cong [of _ _ concat] map_cong) auto

lemma enqueued_dispatch [simp]:
  "enqueued (dispatch_msg (fst x) (snd x) q) = enqueued q @ outcome x"
  "next_id (dispatch_msg r c q) = next_id q" "pending (dispatch_msg r c q) = pending q"
  by (simp_all add: dispatch_msg_def outcome_def split: option.splits)

text \<open>Delivering everything that follows without a gap.\<close>

lemma deliver_consecutive_rep:
  assumes "enqueued q = outcomes res n" "sorted_wrt (<) ps" "\<forall>i \<in> set ps. n \<le> i \<and> i < 2 ^ 64 - 1" "n < 2 ^ 64"
  shows "\<exists>m js. mq_rep (deliver_consecutive (pending_of res ps) (of_nat n) q) res m js \<and>
    {..<m} \<union> set js = {..<n} \<union> set ps \<and> next_id (deliver_consecutive (pending_of res ps) (of_nat n) q) = next_id q"
  using assms
proof (induction ps arbitrary: n q)
  case Nil
  then show ?case by (intro exI [of _ n] exI [of _ "[]"]) (auto simp: mq_rep_def pending_of_def)
next
  case (Cons i js)
  have eq: "(of_nat i :: u64) = of_nat n \<longleftrightarrow> i = n" using Cons.prems by (intro u64_of_nat) auto
  show ?case
  proof (cases "i = n")
    case True
    let ?q = "dispatch_msg (fst (res i)) (snd (res i)) q"
    have "enqueued ?q = outcomes res (Suc n)" using Cons.prems(1) True by (simp add: outcomes_Suc)
    moreover have "\<forall>j \<in> set js. Suc n \<le> j \<and> j < 2 ^ 64 - 1" "Suc n < 2 ^ 64" "sorted_wrt (<) js"
      using Cons.prems True by auto
    ultimately obtain m ks where "mq_rep (deliver_consecutive (pending_of res js) (of_nat (Suc n)) ?q) res m ks"
      "{..<m} \<union> set ks = {..<Suc n} \<union> set js"
      "next_id (deliver_consecutive (pending_of res js) (of_nat (Suc n)) ?q) = next_id q"
      using Cons.IH [of ?q "Suc n"] by auto
    moreover have "{..<Suc n} \<union> set js = {..<n} \<union> set (i # js)" using True by auto
    ultimately show ?thesis
      using True by (intro exI [of _ m] exI [of _ ks]) (simp add: pending_of_def add.commute)
  next
    case False
    with Cons.prems eq show ?thesis
      by (intro exI [of _ n] exI [of _ "i # js"]) (auto simp: mq_rep_def pending_of_def)
  qed
qed

lemma insert_pending:
  assumes "sorted_wrt (<) ps" "k \<notin> set ps" "k < 2 ^ 64" "\<forall>i \<in> set ps. i < 2 ^ 64" "\<forall>i \<in> set ps. res' i = res i"
  shows "\<exists>js. takeWhile (\<lambda>x. \<not> of_nat k \<le> msg_id x) (pending_of res ps) @
      \<lparr>msg_id = of_nat k, receiver = fst (res' k), content = snd (res' k)\<rparr> #
      dropWhile (\<lambda>x. \<not> of_nat k \<le> msg_id x) (pending_of res ps) = pending_of res' js \<and>
    sorted_wrt (<) js \<and> set js = insert k (set ps)"
  using assms
proof (induction ps)
  case Nil
  then show ?case by (intro exI [of _ "[k]"]) (simp add: pending_of_def)
next
  case (Cons i js)
  have le: "(of_nat k :: u64) \<le> of_nat i \<longleftrightarrow> k \<le> i" using Cons.prems by (intro u64_of_nat) auto
  show ?case
  proof (cases "k \<le> i")
    case True
    with Cons.prems le show ?thesis
      by (intro exI [of _ "k # i # js"]) (auto simp: pending_of_def)
  next
    case False
    from Cons obtain ks where "takeWhile (\<lambda>x. \<not> of_nat k \<le> msg_id x) (pending_of res js) @
      \<lparr>msg_id = of_nat k, receiver = fst (res' k), content = snd (res' k)\<rparr> #
      dropWhile (\<lambda>x. \<not> of_nat k \<le> msg_id x) (pending_of res js) = pending_of res' ks"
      "sorted_wrt (<) ks" "set ks = insert k (set js)" by auto
    with False Cons.prems le show ?thesis
      by (intro exI [of _ "i # ks"]) (auto simp: pending_of_def)
  qed
qed

lemma mq_push_rep:
  assumes rep: "mq_rep q res n ps" and k: "k \<notin> {..<n} \<union> set ps" "k < 2 ^ 64 - 1" "\<forall>i \<in> set ps. i < 2 ^ 64 - 1"
    and res': "res' = res(k := (r, c))"
  shows "\<exists>m js. mq_rep (mq_push (of_nat k) r c q) res' m js \<and> {..<m} \<union> set js = insert k ({..<n} \<union> set ps) \<and>
    next_id (mq_push (of_nat k) r c q) = next_id q"
proof -
  have n: "n \<le> k" using k(1) by auto
  have eq: "(of_nat k :: u64) = of_nat n \<longleftrightarrow> k = n" using k(2) n by (intro u64_of_nat) auto
  have q: "next_undelivered q = of_nat n" "pending q = pending_of res ps" "enqueued q = outcomes res n"
    "sorted_wrt (<) ps" "\<forall>i \<in> set ps. n < i" using rep by (auto simp: mq_rep_def)
  have out: "outcomes res' n = outcomes res n" using n by (intro outcomes_cong) (auto simp: res')
  have pend: "pending_of res' ps = pending_of res ps" using k(1) by (auto simp: pending_of_def res')
  show ?thesis
  proof (cases "k = n")
    case True
    let ?q = "dispatch_msg (fst (res' k)) (snd (res' k)) q"
    have "enqueued ?q = outcomes res' (Suc n)" using q(3) out True by (simp add: outcomes_Suc)
    moreover have "\<forall>i \<in> set ps. Suc n \<le> i \<and> i < 2 ^ 64 - 1" "Suc n < 2 ^ 64" using q(5) k True by auto
    ultimately obtain m js where "mq_rep (deliver_consecutive (pending_of res' ps) (of_nat (Suc n)) ?q) res' m js"
      "{..<m} \<union> set js = {..<Suc n} \<union> set ps"
      "next_id (deliver_consecutive (pending_of res' ps) (of_nat (Suc n)) ?q) = next_id q"
      using deliver_consecutive_rep [of ?q res' "Suc n" ps] q(4) by auto
    moreover have "mq_push (of_nat k) r c q = deliver_consecutive (pending_of res' ps) (of_nat (Suc n)) ?q"
      unfolding pend using True by (simp add: mq_push_def q res' add.commute)
    moreover have "{..<Suc n} = insert k {..<n}" using True by auto
    ultimately show ?thesis by auto
  next
    case False
    obtain js where "takeWhile (\<lambda>x. \<not> of_nat k \<le> msg_id x) (pending_of res ps) @
      \<lparr>msg_id = of_nat k, receiver = fst (res' k), content = snd (res' k)\<rparr> #
      dropWhile (\<lambda>x. \<not> of_nat k \<le> msg_id x) (pending_of res ps) = pending_of res' js"
      "sorted_wrt (<) js" "set js = insert k (set ps)"
      using insert_pending [of ps k res' res] q(4) k by (fastforce simp: res')
    with False n q eq out show ?thesis
      by (intro exI [of _ n] exI [of _ js]) (auto simp: mq_push_def mq_rep_def res')
  qed
qed

lemma mq_inv_init: "mq_inv (mq_init res)"
  by (auto simp: mq_inv_def mq_init_def mk_message_queue_def mq_rep_def outcomes_def pending_of_def
      intro!: exI [of _ 0] exI [of _ "[]"])

lemma mq_inv_finish:
  assumes inv: "mq_inv S" and i: "i \<in> working S" and small: "issued S < 2 ^ 64"
  shows "mq_inv (S\<lparr>mq := mq_push (drawn_id S i) r c (mq S), working := working S - {i},
                  result := (result S)(i := (r, c))\<rparr>)"
proof -
  obtain n ps where rep: "mq_rep (mq S) (result S) n ps" and u: "{..<n} \<union> set ps = {..<issued S} - working S"
    using inv by (auto simp: mq_inv_def)
  have w: "working S \<subseteq> {..<issued S}" using inv by (simp add: mq_inv_def)
  have bnd: "\<forall>j \<in> set ps. j < issued S" using u by auto
  have k: "i \<notin> {..<n} \<union> set ps" using i u by simp
  obtain m js where rep': "mq_rep (mq_push (of_nat i) r c (mq S)) ((result S)(i := (r, c))) m js"
    "{..<m} \<union> set js = insert i ({..<n} \<union> set ps)" "next_id (mq_push (of_nat i) r c (mq S)) = next_id (mq S)"
    using mq_push_rep [OF rep k _ _ refl, of r c] small bnd w i by fastforce
  have "insert i ({..<n} \<union> set ps) = {..<issued S} - (working S - {i})" using u i w by auto
  moreover have "drawn_id S i = of_nat i" using inv i w by (auto simp: mq_inv_def)
  ultimately show ?thesis using rep' inv by (auto simp: mq_inv_def)
qed

lemma mq_inv_draw:
  assumes "mq_inv S" "new_id (mq S) = (mid, q)"
  shows "mq_inv (S\<lparr>mq := q, drawn_id := (drawn_id S)(issued S := mid), issued := Suc (issued S), working := insert (issued S) (working S)\<rparr>)"
proof -
  obtain n ps where rep: "mq_rep (mq S) (result S) n ps" "{..<n} \<union> set ps = {..<issued S} - working S"
    using assms by (auto simp: mq_inv_def)
  moreover have "{..<issued S} - working S = {..<Suc (issued S)} - insert (issued S) (working S)" by auto
  moreover have "mq_rep q (result S) n ps" "next_id q = of_nat (Suc (issued S))" "mid = of_nat (issued S)"
    using assms rep(1) by (auto simp: mq_inv_def new_id_def mq_rep_def add.commute)
  ultimately show ?thesis
    using assms(1) unfolding mq_inv_def
    by (intro conjI exI [of _ n] exI [of _ ps]) (auto simp: less_Suc_eq)
qed

lemma issued_mono: "mq_step S S' \<Longrightarrow> issued S \<le> issued S'"
  by (auto elim: mq_step.cases)

lemma mq_reachable_inv: "mq_reachable S \<Longrightarrow> issued S < 2 ^ 64 \<Longrightarrow> mq_inv S"
proof (induction rule: mq_reachable.induct)
  case (step S S')
  then have "mq_inv S" "issued S < 2 ^ 64" using issued_mono [OF step(2)] by simp_all
  with step(2) show ?case
    by (cases rule: mq_step.cases) (auto simp: mq_drop_def intro: mq_inv_draw mq_inv_finish)
qed (rule mq_inv_init)

text \<open>
  C31: Incoming messages reach their receivers in the order in which the broker drew their IDs, whatever the
  interleaving of the workers: the enqueued messages are always the results of the first \<open>n\<close> messages in
  order, all of which are finished; the queue never waits unless the next message is still being worked on;
  and once no worker is left, everything is delivered and nothing is pending. Every worker uses the ID that
  \<open>new_id\<close> returned for its message. (For fewer than \<open>2 ^ 64\<close> messages.)
\<close>

theorem basp_queue_delivers_in_order:
  assumes "mq_reachable S" "issued S < 2 ^ 64"
  shows "\<exists>n \<le> issued S. enqueued (mq S) = outcomes (result S) n \<and> (\<forall>i < n. i \<notin> working S) \<and>
    (n < issued S \<longrightarrow> n \<in> working S) \<and> (working S = {} \<longrightarrow> n = issued S \<and> pending (mq S) = [])"
proof -
  from mq_reachable_inv [OF assms] obtain n ps where
    rep: "mq_rep (mq S) (result S) n ps" "{..<n} \<union> set ps = {..<issued S} - working S"
    by (auto simp: mq_inv_def)
  have gt: "\<forall>i \<in> set ps. n < i" using rep(1) by (simp add: mq_rep_def)
  have le: "n \<le> issued S" using rep(2) by (metis Diff_subset Un_subset_iff lessThan_subset_iff)
  have work: "n < issued S \<Longrightarrow> n \<in> working S" using rep(2) gt by (metis DiffI UnE lessThan_iff less_irrefl)
  have "ps = []" if "working S = {}"
  proof -
    have "n = issued S" using work le that by fastforce
    with rep(2) gt have "set ps = {}" by (metis DiffD1 UnCI equals0I lessThan_iff not_less_iff_gr_or_eq)
    then show ?thesis by simp
  qed
  with le rep work show ?thesis
    by (intro exI [of _ n]) (auto simp: mq_rep_def pending_of_def)
qed

text \<open>Two messages whose workers finish in the opposite order.\<close>

definition demo_mq :: "(char, nat) mq_sys" where
  "demo_mq = \<lparr>mq = \<lparr>next_id = 2, next_undelivered = 2, pending = [], enqueued = [(CHR ''a'', 10), (CHR ''b'', 20)]\<rparr>,
     issued = 2, drawn_id = (\<lambda>_. 0)(0 := 0, 1 := 1), working = {}, result = (\<lambda>_. (None, 0))(1 := (Some CHR ''b'', 20), 0 := (Some CHR ''a'', 10))\<rparr>"

lemma demo_mq_reachable: "mq_reachable demo_mq"
proof -
  let ?S0 = "mq_init (\<lambda>_. (None, 0)) :: (char, nat) mq_sys"
  let ?S1 = "?S0\<lparr>mq := snd (new_id (mq ?S0)), drawn_id := (drawn_id ?S0)(0 := 0), issued := 1, working := {0}\<rparr>"
  let ?S2 = "?S1\<lparr>mq := snd (new_id (mq ?S1)), drawn_id := (drawn_id ?S1)(1 := 1), issued := 2, working := {1, 0}\<rparr>"
  let ?S3 = "?S2\<lparr>mq := mq_push 1 (Some CHR ''b'') 20 (mq ?S2), working := {0},
    result := (result ?S2)(1 := (Some CHR ''b'', 20))\<rparr>"
  note defs = mq_init_def mk_message_queue_def new_id_def
  have "mq_step ?S0 ?S1" using mq_step.draw [of ?S0 0 "snd (new_id (mq ?S0))"] by (simp add: defs)
  moreover have "mq_step ?S1 ?S2"
    using mq_step.draw [of ?S1 1 "snd (new_id (mq ?S1))"] by (simp add: defs numeral_2_eq_2)
  moreover have "mq_step ?S2 ?S3" using mq_step.push [of 1 ?S2 "CHR ''b''" 20] by (simp add: insert_Diff_if)
  moreover have "mq_step ?S3 demo_mq"
    using mq_step.push [of 0 ?S3 "CHR ''a''" 10]
    by (simp add: demo_mq_def defs mq_push_def dispatch_msg_def)
  ultimately show ?thesis using mq_reachable.intros by metis
qed

theorem basp_queue_delivers_in_order_witness:
  "\<exists>n \<le> issued demo_mq. enqueued (mq demo_mq) = outcomes (result demo_mq) n \<and> (\<forall>i < n. i \<notin> working demo_mq) \<and>
    (n < issued demo_mq \<longrightarrow> n \<in> working demo_mq) \<and>
    (working demo_mq = {} \<longrightarrow> n = issued demo_mq \<and> pending (mq demo_mq) = [])"
  by (rule basp_queue_delivers_in_order [OF demo_mq_reachable]) (simp add: demo_mq_def)

end
