(* ===== verification/Read_Integer.thy ===== *)
theory Read_Integer
  imports CAF_Prelude "HOL-Library.Word"
begin

text \<open>
  The integer parsers of \<^verbatim>\<open>libcaf_core/caf/detail/parser\<close>: the state machines of \<^verbatim>\<open>read_unsigned_integer.hpp\<close> and
  \<^verbatim>\<open>read_signed_integer.hpp\<close> with their digit accumulators \<^verbatim>\<open>add_ascii\<close> and \<^verbatim>\<open>sub_ascii\<close>. One function per
  state; the input is the unread part, where the end of input and a null character look the same. The
  value type of the source appears as its limits \<open>lo\<close> and \<open>hi\<close>; the accumulators check them before they compute,
  and no intermediate result leaves the range. Positions for error messages are left out.
\<close>

section \<open>Model\<close>

datatype pec =
    success
  | trailing_character
  | unexpected_eof
  | unexpected_character
  | timespan_overflow
  | fractional_timespan
  | too_many_characters
  | invalid_escape_sequence
  | unexpected_newline
  | integer_overflow
  | integer_underflow
  | exponent_underflow
  | exponent_overflow
  | pec_type_mismatch
  | not_an_option
  | pec_invalid_argument
  | missing_argument
  | invalid_category
  | invalid_field_name
  | repeated_field_name
  | missing_field
  | invalid_range_expression
  | invalid_state
  | nested_too_deeply

definition ascii :: "string \<Rightarrow> bytes" where
  "ascii s = map of_char s"

definition is_dec :: "u8 \<Rightarrow> bool" where
  "is_dec c \<longleftrightarrow> 0x30 \<le> c \<and> c \<le> 0x39"

definition is_oct :: "u8 \<Rightarrow> bool" where
  "is_oct c \<longleftrightarrow> 0x30 \<le> c \<and> c \<le> 0x37"

definition is_bin :: "u8 \<Rightarrow> bool" where
  "is_bin c \<longleftrightarrow> c = 0x30 \<or> c = 0x31"

definition is_hex :: "u8 \<Rightarrow> bool" where
  "is_hex c \<longleftrightarrow> is_dec c \<or> 0x41 \<le> c \<and> c \<le> 0x46 \<or> 0x61 \<le> c \<and> c \<le> 0x66"

definition ascii_to_int :: "int \<Rightarrow> u8 \<Rightarrow> int" where
  "ascii_to_int base c =
     (if base = 16 then if c \<le> 0x39 then uint c - 0x30
                        else if c \<le> 0x46 then 10 + (uint c - 0x41) else 10 + (uint c - 0x61)
      else uint c - 0x30)"

definition add_ascii :: "int \<Rightarrow> int \<Rightarrow> int \<Rightarrow> u8 \<Rightarrow> int option" where
  "add_ascii hi base x c =
     (if x > hi div base then None
      else let x = x * base;
               y = ascii_to_int base c
           in if x > hi - y then None else Some (x + y))"

text \<open>The division of the source rounds towards zero.\<close>

definition sub_ascii :: "int \<Rightarrow> int \<Rightarrow> int \<Rightarrow> u8 \<Rightarrow> int option" where
  "sub_ascii lo base x c =
     (if x < - (- lo div base) then None
      else let x = x * base;
               y = ascii_to_int base c
           in if x < lo + y then None else Some (x - y))"

type_synonym parse_state = "pec \<times> bytes \<times> int"

definition no_match :: "u8 \<Rightarrow> pec" where
  "no_match c = (if c = 0x0A then unexpected_newline else unexpected_character)"

text \<open>A terminal state that reads digits as long as possible.\<close>

primrec read_digits :: "(u8 \<Rightarrow> bool) \<Rightarrow> (int \<Rightarrow> u8 \<Rightarrow> int option) \<Rightarrow> pec \<Rightarrow> int \<Rightarrow> bytes \<Rightarrow> parse_state" where
  "read_digits is_digit step code x [] = (success, [], x)"
| "read_digits is_digit step code x (c # cs) =
     (if c = 0 then (success, c # cs, x)
      else if is_digit c
      then case step x c of None \<Rightarrow> (code, c # cs, x) | Some x' \<Rightarrow> read_digits is_digit step code x' cs
      else (trailing_character, c # cs, x))"

text \<open>A state that must see a digit of its base.\<close>

definition start_digits :: "(u8 \<Rightarrow> bool) \<Rightarrow> (int \<Rightarrow> u8 \<Rightarrow> int option) \<Rightarrow> pec \<Rightarrow> bytes \<Rightarrow> parse_state" where
  "start_digits is_digit step code bs = (case bs of
     [] \<Rightarrow> (unexpected_eof, bs, 0)
   | c # cs \<Rightarrow> if c = 0 then (unexpected_eof, bs, 0)
               else if is_digit c then read_digits is_digit step code 0 bs
               else (no_match c, bs, 0))"

definition read_zero :: "(int \<Rightarrow> int \<Rightarrow> u8 \<Rightarrow> int option) \<Rightarrow> pec \<Rightarrow> bytes \<Rightarrow> parse_state" where
  "read_zero step code bs = (case bs of
     [] \<Rightarrow> (success, bs, 0)
   | c # cs \<Rightarrow> if c = 0 then (success, bs, 0)
               else if c = 0x62 \<or> c = 0x42 then start_digits is_bin (step 2) code cs
               else if c = 0x78 \<or> c = 0x58 then start_digits is_hex (step 16) code cs
               else read_digits is_oct (step 8) code 0 bs)"

definition read_signless :: "(int \<Rightarrow> int \<Rightarrow> u8 \<Rightarrow> int option) \<Rightarrow> pec \<Rightarrow> bytes \<Rightarrow> parse_state" where
  "read_signless step code bs = (case bs of
     [] \<Rightarrow> (unexpected_eof, bs, 0)
   | c # cs \<Rightarrow> if c = 0 then (unexpected_eof, bs, 0)
               else if c = 0x30 then read_zero step code cs
               else if is_dec c then read_digits is_dec (step 10) code 0 bs
               else (no_match c, bs, 0))"

primrec read_unsigned_integer :: "int \<Rightarrow> bytes \<Rightarrow> parse_state" where
  "read_unsigned_integer hi [] = (unexpected_eof, [], 0)"
| "read_unsigned_integer hi (c # cs) =
     (if c = 0 then (unexpected_eof, c # cs, 0)
      else if c = 0x20 \<or> c = 0x09 then read_unsigned_integer hi cs
      else if c = 0x2B then read_signless (add_ascii hi) integer_overflow cs
      else read_signless (add_ascii hi) integer_overflow (c # cs))"

primrec read_signed_integer :: "int \<Rightarrow> int \<Rightarrow> bytes \<Rightarrow> parse_state" where
  "read_signed_integer lo hi [] = (unexpected_eof, [], 0)"
| "read_signed_integer lo hi (c # cs) =
     (if c = 0 then (unexpected_eof, c # cs, 0)
      else if c = 0x20 \<or> c = 0x09 then read_signed_integer lo hi cs
      else if c = 0x2B then read_signless (add_ascii hi) integer_overflow cs
      else if c = 0x2D then read_signless (sub_ascii lo) integer_underflow cs
      else read_signless (add_ascii hi) integer_overflow (c # cs))"

text \<open>\<^verbatim>\<open>detail::parse\<close> on a string: the value is stored, and only a completely consumed input is no error.\<close>

definition parse_result :: "parse_state \<Rightarrow> pec + int" where
  "parse_result r = (case r of (code, _, x) \<Rightarrow> if code = success then Inr x else Inl code)"

definition parse_unsigned :: "int \<Rightarrow> bytes \<Rightarrow> pec + int" where
  "parse_unsigned hi str = parse_result (read_unsigned_integer hi str)"

definition parse_signed :: "int \<Rightarrow> int \<Rightarrow> bytes \<Rightarrow> pec + int" where
  "parse_signed lo hi str = parse_result (read_signed_integer lo hi str)"

text \<open>\<^verbatim>\<open>std::to_string\<close> for integers.\<close>

fun dec_digits :: "nat \<Rightarrow> bytes" where
  "dec_digits n = (if n < 10 then [0x30 + of_nat n] else dec_digits (n div 10) @ [0x30 + of_nat (n mod 10)])"

declare dec_digits.simps [simp del]

definition int_to_string :: "int \<Rightarrow> bytes" where
  "int_to_string i = (if i < 0 then 0x2D # dec_digits (nat (- i)) else dec_digits (nat i))"

section \<open>Digits\<close>

definition is_digit :: "int \<Rightarrow> u8 \<Rightarrow> bool" where
  "is_digit base = (if base = 2 then is_bin else if base = 8 then is_oct else if base = 16 then is_hex else is_dec)"

definition digits_value :: "int \<Rightarrow> bytes \<Rightarrow> int" where
  "digits_value base ds = foldl (\<lambda>v c. v * base + ascii_to_int base c) 0 ds"

lemma digits_value_snoc [simp]:
  "digits_value base (ds @ [c]) = digits_value base ds * base + ascii_to_int base c"
  by (simp add: digits_value_def)

lemma digits_value_Nil [simp]: "digits_value base [] = 0"
  by (simp add: digits_value_def)

lemma ascii_to_int_range:
  assumes "base \<in> {2, 8, 10, 16}" "is_digit base c"
  shows "0 \<le> ascii_to_int base c" "ascii_to_int base c < base" "c \<noteq> 0"
  using assms
  by (auto simp: is_digit_def is_dec_def is_oct_def is_bin_def is_hex_def ascii_to_int_def word_le_def)

lemma add_ascii_eq:
  assumes "base \<in> {2, 8, 10, 16}" "is_digit base c" "0 \<le> x" "0 \<le> hi"
  shows "add_ascii hi base x c = (if x * base + ascii_to_int base c \<le> hi then Some (x * base + ascii_to_int base c) else None)"
proof -
  have "x > hi div base \<Longrightarrow> x * base > hi"
    using assms(1) by (auto simp: div_less_iff_less_mult)
  with ascii_to_int_range [OF assms(1,2)] show ?thesis
    by (auto simp: add_ascii_def Let_def)
qed

lemma sub_ascii_eq:
  assumes "base \<in> {2, 8, 10, 16}" "is_digit base c" "0 \<le> x" "lo \<le> 0"
  shows "sub_ascii lo base (- x) c =
    (if lo \<le> - (x * base + ascii_to_int base c) then Some (- (x * base + ascii_to_int base c)) else None)"
proof -
  have "- x < - (- lo div base) \<Longrightarrow> - lo < x * base"
    using assms(1) by (auto simp: div_less_iff_less_mult)
  with ascii_to_int_range [OF assms(1,2)] show ?thesis
    by (auto simp: sub_ascii_def Let_def)
qed

text \<open>What the state machines rely on: a step extends the value by one digit exactly if the result is in range.\<close>

locale digit_step =
  fixes step :: "int \<Rightarrow> int \<Rightarrow> u8 \<Rightarrow> int option" and sign :: int and fits :: "int \<Rightarrow> bool"
  assumes step_eq: "base \<in> {2, 8, 10, 16} \<Longrightarrow> is_digit base c \<Longrightarrow> 0 \<le> x \<Longrightarrow>
      step base (sign * x) c =
        (if fits (x * base + ascii_to_int base c) then Some (sign * (x * base + ascii_to_int base c)) else None)"
    and fits_mono: "0 \<le> v \<Longrightarrow> v \<le> w \<Longrightarrow> fits w \<Longrightarrow> fits v"
    and fits_0: "fits 0"
begin

lemma value_mono:
  assumes "base \<in> {2, 8, 10, 16}" "list_all (is_digit base) ds" "0 \<le> v"
  shows "v \<le> foldl (\<lambda>v c. v * base + ascii_to_int base c) v ds"
  using assms(2,3)
proof (induction ds arbitrary: v)
  case (Cons c ds)
  have "v \<le> v * base" using assms(1) Cons.prems(2) by (auto simp: mult_le_cancel_left1)
  moreover have "0 \<le> ascii_to_int base c" using ascii_to_int_range assms(1) Cons.prems(1) by simp
  ultimately show ?case
    using Cons.IH [of "v * base + ascii_to_int base c"] Cons.prems by simp
qed simp

lemma read_digits_exact:
  assumes "base \<in> {2, 8, 10, 16}" "list_all (is_digit base) ds" "0 \<le> v" "fits v" "code \<noteq> success"
  shows "parse_result (read_digits (is_digit base) (step base) code (sign * v) ds) =
    (let w = foldl (\<lambda>v c. v * base + ascii_to_int base c) v ds in if fits w then Inr (sign * w) else Inl code)"
  using assms(2-4)
proof (induction ds arbitrary: v)
  case Nil
  then show ?case by (simp add: parse_result_def)
next
  case (Cons c ds)
  let ?v = "v * base + ascii_to_int base c"
  have c: "is_digit base c" "c \<noteq> 0" using ascii_to_int_range assms(1) Cons.prems(1) by simp_all
  have v: "0 \<le> ?v" using ascii_to_int_range [OF assms(1) c(1)] assms(1) Cons.prems(2) by auto
  show ?case
  proof (cases "fits ?v")
    case True
    with Cons c v step_eq [OF assms(1) c(1) Cons.prems(2)] show ?thesis by simp
  next
    case False
    have "\<not> fits (foldl (\<lambda>v c. v * base + ascii_to_int base c) ?v ds)"
      using False fits_mono value_mono [OF assms(1) _ v] Cons.prems(1) v by auto
    with False c step_eq [OF assms(1) c(1) Cons.prems(2)] assms(5) show ?thesis
      by (simp add: parse_result_def)
  qed
qed

lemma start_digits_exact:
  assumes "base \<in> {2, 8, 10, 16}" "list_all (is_digit base) ds" "ds \<noteq> []" "code \<noteq> success"
  shows "parse_result (start_digits (is_digit base) (step base) code ds) =
    (if fits (digits_value base ds) then Inr (sign * digits_value base ds) else Inl code)"
  using read_digits_exact [OF assms(1,2), of 0 code] assms ascii_to_int_range(3) [OF assms(1)] fits_0
  by (cases ds) (auto simp: start_digits_def digits_value_def Let_def)

text \<open>The notation: decimal without leading zero, or octal, binary or hexadecimal after a prefix.\<close>

lemma read_signless_exact:
  assumes p: "(base, prefix) \<in> {(10, []), (8, [0x30]), (16, [0x30, 0x78]), (16, [0x30, 0x58]), (2, [0x30, 0x62]), (2, [0x30, 0x42])}"
    and ds: "list_all (is_digit base) ds" "ds = [] \<longrightarrow> base = 8" "base = 10 \<longrightarrow> hd ds \<noteq> 0x30" and code: "code \<noteq> success"
  shows "parse_result (read_signless step code (prefix @ ds)) =
    (if fits (digits_value base ds) then Inr (sign * digits_value base ds) else Inl code)"
proof -
  have base: "base \<in> {2, 8, 10, 16}" using p by auto
  have dg: "is_digit 10 = is_dec" "is_digit 8 = is_oct" "is_digit 16 = is_hex" "is_digit 2 = is_bin"
    by (simp_all add: is_digit_def)
  consider "base = 10" "prefix = []" | "base = 8" "prefix = [0x30]"
    | "base = 16" "prefix = [0x30, 0x78] \<or> prefix = [0x30, 0x58]"
    | "base = 2" "prefix = [0x30, 0x62] \<or> prefix = [0x30, 0x42]"
    using p by auto
  then show ?thesis
  proof cases
    case 1
    then obtain c cs where c: "ds = c # cs" "is_dec c" "c \<noteq> 0x30" using ds dg by (cases ds) auto
    moreover have "c \<noteq> 0" using c(2) by (auto simp: is_dec_def)
    ultimately show ?thesis
      using start_digits_exact [OF base ds(1) _ code] 1 dg by (simp add: read_signless_def start_digits_def)
  next
    case 2
    have "read_zero step code ds = (if ds = [] then (success, [], 0) else read_digits is_oct (step 8) code 0 ds)"
      using ds(1) 2 dg by (cases ds) (auto simp: read_zero_def is_oct_def)
    with 2 show ?thesis
      using read_digits_exact [OF base ds(1), of 0 code] code fits_0 dg
      by (auto simp: read_signless_def parse_result_def digits_value_def Let_def)
  next
    case 3
    then show ?thesis
      using start_digits_exact [OF base ds(1) _ code] ds(2) dg by (auto simp: read_signless_def read_zero_def)
  next
    case 4
    then show ?thesis
      using start_digits_exact [OF base ds(1) _ code] ds(2) dg by (auto simp: read_signless_def read_zero_def)
  qed
qed

end

interpretation adding: digit_step "add_ascii (int n)" 1 "\<lambda>v. v \<le> int n" for n
  by unfold_locales (simp_all add: add_ascii_eq)

interpretation subtracting: digit_step "sub_ascii (- int n)" "- 1" "\<lambda>v. - int n \<le> - v" for n
  by unfold_locales (simp_all add: sub_ascii_eq)

section \<open>Exactness\<close>

definition numeral_text :: "int \<Rightarrow> bytes \<Rightarrow> bytes \<Rightarrow> bool" where
  "numeral_text base prefix ds \<longleftrightarrow>
     (base, prefix) \<in> {(10, []), (8, [0x30]), (16, [0x30, 0x78]), (16, [0x30, 0x58]), (2, [0x30, 0x62]), (2, [0x30, 0x42])} \<and>
     list_all (is_digit base) ds \<and> (ds = [] \<longrightarrow> base = 8) \<and> (base = 10 \<longrightarrow> hd ds \<noteq> 0x30)"

lemma skip_blanks:
  assumes "set blanks \<subseteq> {0x20, 0x09}"
  shows "read_unsigned_integer hi (blanks @ bs) = read_unsigned_integer hi bs"
    "read_signed_integer lo hi (blanks @ bs) = read_signed_integer lo hi bs"
  using assms by (induction blanks) auto

lemma numeral_first:
  assumes "numeral_text base prefix ds"
  obtains c cs where "prefix @ ds = c # cs" "is_dec c"
proof (cases prefix)
  case Nil
  with assms that show ?thesis
    by (cases ds) (auto simp: numeral_text_def is_digit_def)
next
  case (Cons c cs)
  with assms that show ?thesis by (auto simp: numeral_text_def is_dec_def)
qed

lemma is_dec_neq: "is_dec c \<Longrightarrow> c \<noteq> 0 \<and> c \<noteq> 0x20 \<and> c \<noteq> 0x09 \<and> c \<noteq> 0x2B \<and> c \<noteq> 0x2D"
  by (auto simp: is_dec_def)

lemma signless_numeral:
  assumes "numeral_text base prefix ds"
  shows "0 \<le> hi \<Longrightarrow> parse_result (read_signless (add_ascii hi) integer_overflow (prefix @ ds)) =
      (if digits_value base ds \<le> hi then Inr (digits_value base ds) else Inl integer_overflow)"
    and "lo \<le> 0 \<Longrightarrow> parse_result (read_signless (sub_ascii lo) integer_underflow (prefix @ ds)) =
      (if lo \<le> - digits_value base ds then Inr (- digits_value base ds) else Inl integer_underflow)"
proof -
  note asm = assms [unfolded numeral_text_def]
  show "0 \<le> hi \<Longrightarrow> parse_result (read_signless (add_ascii hi) integer_overflow (prefix @ ds)) =
      (if digits_value base ds \<le> hi then Inr (digits_value base ds) else Inl integer_overflow)"
    using adding.read_signless_exact [of base prefix ds integer_overflow "nat hi"] asm by simp
  show "lo \<le> 0 \<Longrightarrow> parse_result (read_signless (sub_ascii lo) integer_underflow (prefix @ ds)) =
      (if lo \<le> - digits_value base ds then Inr (- digits_value base ds) else Inl integer_underflow)"
    using subtracting.read_signless_exact [of base prefix ds integer_underflow "nat (- lo)"] asm by simp
qed

lemma after_sign:
  assumes "numeral_text base prefix ds" "sign \<in> {[], [0x2B]}"
  shows "read_unsigned_integer hi (sign @ prefix @ ds) = read_signless (add_ascii hi) integer_overflow (prefix @ ds)"
    "read_signed_integer lo hi (sign @ prefix @ ds) = read_signless (add_ascii hi) integer_overflow (prefix @ ds)"
proof -
  obtain c cs where c: "prefix @ ds = c # cs" "is_dec c" using numeral_first [OF assms(1)] .
  show "read_unsigned_integer hi (sign @ prefix @ ds) = read_signless (add_ascii hi) integer_overflow (prefix @ ds)"
    "read_signed_integer lo hi (sign @ prefix @ ds) = read_signless (add_ascii hi) integer_overflow (prefix @ ds)"
    unfolding c(1) using assms(2) is_dec_neq [OF c(2)] by auto
qed

text \<open>
  C32: Parsing integers is exact. For every numeral (decimal, or octal, hexadecimal or binary after its prefix) with
  optional leading blanks and sign, the parser of an unsigned type returns the value if it is at most the
  maximum of the type and reports an overflow otherwise; the parser of a signed type does the same for both
  ends of its range, so also the minimum parses.
\<close>

theorem integer_parsing_is_exact:
  assumes "numeral_text base prefix ds" "set blanks \<subseteq> {0x20, 0x09}" "sign \<in> {[], [0x2B]}" "lo \<le> 0" "0 \<le> hi"
  shows "parse_unsigned hi (blanks @ sign @ prefix @ ds) =
      (if digits_value base ds \<le> hi then Inr (digits_value base ds) else Inl integer_overflow) \<and>
    parse_signed lo hi (blanks @ sign @ prefix @ ds) =
      (if digits_value base ds \<le> hi then Inr (digits_value base ds) else Inl integer_overflow) \<and>
    parse_signed lo hi (blanks @ 0x2D # prefix @ ds) =
      (if lo \<le> - digits_value base ds then Inr (- digits_value base ds) else Inl integer_underflow)"
proof -
  have "read_signed_integer lo hi (0x2D # prefix @ ds) = read_signless (sub_ascii lo) integer_underflow (prefix @ ds)"
    by simp
  then show ?thesis
    unfolding parse_unsigned_def parse_signed_def skip_blanks [OF assms(2)] after_sign [OF assms(1,3)]
    by (simp only: signless_numeral [OF assms(1)] assms)
qed

theorem integer_parsing_is_exact_witness:
  "parse_unsigned 255 ([0x20] @ [0x2B] @ [0x30, 0x78] @ [0x46, 0x66]) = Inr 255 \<and>
   parse_signed (- 128) 127 ([0x20] @ 0x2D # [0x30, 0x78] @ [0x38, 0x30]) = Inr (- 128)"
proof -
  have n: "numeral_text 16 [0x30, 0x78] [0x46, 0x66]" "numeral_text 16 [0x30, 0x78] [0x38, 0x30]"
    by (simp_all add: numeral_text_def is_digit_def is_hex_def is_dec_def)
  have v: "digits_value 16 [0x46, 0x66] = 255" "digits_value 16 [0x38, 0x30] = 128"
    by (simp_all add: digits_value_def ascii_to_int_def)
  show ?thesis
    using integer_parsing_is_exact [OF n(1), of "[0x20]" "[0x2B]" "- 128" 255]
      integer_parsing_is_exact [OF n(2), of "[0x20]" "[0x2B]" "- 128" 127] by (simp add: v)
qed

lemma dec_digit:
  assumes "d < 10"
  shows "is_dec (0x30 + of_nat d) \<and> ascii_to_int 10 (0x30 + of_nat d) = int d"
proof -
  have "d = 0 \<or> d = 1 \<or> d = 2 \<or> d = 3 \<or> d = 4 \<or> d = 5 \<or> d = 6 \<or> d = 7 \<or> d = 8 \<or> d = 9"
    using assms by presburger
  then show ?thesis by (elim disjE) (simp_all add: is_dec_def ascii_to_int_def)
qed

lemma dec_digits_value: "list_all is_dec (dec_digits n) \<and> digits_value 10 (dec_digits n) = int n \<and> dec_digits n \<noteq> []"
proof (induction n rule: dec_digits.induct)
  case (1 n)
  show ?case
  proof (cases "n < 10")
    case True
    then show ?thesis using dec_digit [of n] by (subst (1 2 3) dec_digits.simps) (simp add: digits_value_def)
  next
    case False
    then have "int n = int (n div 10) * 10 + int (n mod 10)" by presburger
    with 1 False dec_digit [of "n mod 10"] show ?thesis
      by (subst (1 2 3) dec_digits.simps) simp
  qed
qed

lemma dec_digits_first: "0 < n \<Longrightarrow> hd (dec_digits n) \<noteq> 0x30"
proof (induction n rule: dec_digits.induct)
  case (1 n)
  show ?case
  proof (cases "n < 10")
    case True
    then have "ascii_to_int 10 (0x30 + of_nat n) = int n" using dec_digit by blast
    with 1(2) have "(0x30 + of_nat n :: u8) \<noteq> 0x30" by (auto simp: ascii_to_int_def)
    with True show ?thesis by (subst dec_digits.simps) simp
  next
    case False
    with 1 dec_digits_value [of "n div 10"] show ?thesis by (subst dec_digits.simps) (simp add: hd_append)
  qed
qed

lemma dec_digits_numeral:
  "\<exists>base prefix ds. dec_digits n = prefix @ ds \<and> numeral_text base prefix ds \<and> digits_value base ds = int n"
proof (cases "n = 0")
  case True
  have "dec_digits 0 = [0x30] @ []" by (simp add: dec_digits.simps)
  moreover have "numeral_text 8 [0x30] []" by (simp add: numeral_text_def)
  ultimately show ?thesis using True by (intro exI [of _ 8] exI [of _ "[0x30]"] exI [of _ "[]"]) simp
next
  case False
  then have "numeral_text 10 [] (dec_digits n)"
    using dec_digits_value [of n] dec_digits_first [of n] by (simp add: numeral_text_def is_digit_def)
  then show ?thesis using dec_digits_value [of n] by (intro exI [of _ 10] exI [of _ "[]"] exI [of _ "dec_digits n"]) simp
qed

text \<open>
  Printing an integer and parsing the text with the parser of a type that contains it gives the integer back.
\<close>

theorem integer_print_parse:
  assumes "lo \<le> i" "i \<le> hi" "lo \<le> 0" "0 \<le> hi"
  shows "parse_signed lo hi (int_to_string i) = Inr i \<and> (0 \<le> i \<longrightarrow> parse_unsigned hi (int_to_string i) = Inr i)"
proof -
  obtain base prefix ds where n: "dec_digits (nat \<bar>i\<bar>) = prefix @ ds" "numeral_text base prefix ds"
    "digits_value base ds = \<bar>i\<bar>"
    using dec_digits_numeral [of "nat \<bar>i\<bar>"] by auto
  have neg: "read_signed_integer lo hi (0x2D # prefix @ ds) = read_signless (sub_ascii lo) integer_underflow (prefix @ ds)"
    by simp
  show ?thesis
  proof (cases "i < 0")
    case True
    with n have "int_to_string i = 0x2D # prefix @ ds" by (simp add: int_to_string_def)
    with True assms n neg signless_numeral(2) [OF n(2) assms(3)] show ?thesis
      by (simp add: parse_signed_def del: read_signed_integer.simps)
  next
    case False
    with n have "int_to_string i = prefix @ ds" by (simp add: int_to_string_def)
    with False assms n(3) signless_numeral(1) [OF n(2) assms(4)] after_sign [OF n(2), of "[]"] show ?thesis
      by (simp add: parse_signed_def parse_unsigned_def)
  qed
qed

theorem integer_print_parse_witness:
  "parse_signed (- 128) 127 (int_to_string (- 128)) = Inr (- 128) \<and> parse_unsigned 127 (int_to_string 127) = Inr 127"
  using integer_print_parse [of "- 128" "- 128" 127] integer_print_parse [of "- 128" 127 127] by simp

end
