(* ===== verification/Ip_Address.thy ===== *)
theory Ip_Address
  imports Read_Integer
begin

text \<open>
  IPv4 and IPv6 addresses (\<^verbatim>\<open>libcaf_core/caf/ipv4_address.cpp\<close>, \<^verbatim>\<open>ipv6_address.cpp\<close>) with their text format: the
  printers and the state machines of \<^verbatim>\<open>detail/parser/read_ipv4_address.hpp\<close> and \<^verbatim>\<open>read_ipv6_address.hpp\<close>. An address
  is the list of its 4 or 16 bytes in network order. The parser of every printed address returns the
  address.
\<close>

section \<open>Model\<close>

definition make_ipv4_address :: "u8 \<Rightarrow> u8 \<Rightarrow> u8 \<Rightarrow> u8 \<Rightarrow> bytes" where
  "make_ipv4_address oct1 oct2 oct3 oct4 = [oct1, oct2, oct3, oct4]"

definition ipv4_is_loopback :: "bytes \<Rightarrow> bool" where
  "ipv4_is_loopback x \<longleftrightarrow> hd x = 127"

definition ipv4_is_multicast :: "bytes \<Rightarrow> bool" where
  "ipv4_is_multicast x \<longleftrightarrow> hd x AND 0xF0 = 0xE0"

definition ipv4_to_string :: "bytes \<Rightarrow> bytes" where
  "ipv4_to_string x = dec_digits (unat (hd x)) @ concat (map (\<lambda>b. 0x2E # dec_digits (unat b)) (tl x))"

definition v4_prefix :: bytes where
  "v4_prefix = replicate 10 0 @ [0xFF, 0xFF]"

definition ipv6_of_v4 :: "bytes \<Rightarrow> bytes" where
  "ipv6_of_v4 addr = v4_prefix @ addr"

definition embeds_v4 :: "bytes \<Rightarrow> bool" where
  "embeds_v4 x \<longleftrightarrow> take 12 x = v4_prefix"

definition embedded_v4 :: "bytes \<Rightarrow> bytes" where
  "embedded_v4 x = drop 12 x"

definition ipv6_is_loopback :: "bytes \<Rightarrow> bool" where
  "ipv6_is_loopback x \<longleftrightarrow>
     (if embeds_v4 x then ipv4_is_loopback (embedded_v4 x) else x = replicate 15 0 @ [1])"

definition ipv6_zero :: "bytes \<Rightarrow> bool" where
  "ipv6_zero x \<longleftrightarrow> x = replicate 16 0"

definition hex_char :: "u8 \<Rightarrow> u8" where
  "hex_char n = (if n < 10 then 0x30 + n else 0x57 + n)"

text \<open>A 16-bit segment is the pair of its bytes.\<close>

definition append_v6_hex :: "u8 \<times> u8 \<Rightarrow> bytes" where
  "append_v6_hex xs =
     (let buf = [hex_char (drop_bit 4 (fst xs)), hex_char (fst xs AND 0x0F),
                 hex_char (drop_bit 4 (snd xs)), hex_char (snd xs AND 0x0F)];
          rest = dropWhile (\<lambda>c. \<not> c \<noteq> 0x30) buf
      in if rest \<noteq> [] then rest else [0x30])"

fun segments :: "bytes \<Rightarrow> (u8 \<times> u8) list" where
  "segments (a # b # r) = (a, b) # segments r"
| "segments _ = []"

text \<open>Streaks are pairs of positions; the length of the list stands for the end iterator.\<close>

fun adjacent_zeros :: "(u8 \<times> u8) list \<Rightarrow> nat" where
  "adjacent_zeros (x # y # r) = (if x = (0, 0) \<and> y = (0, 0) then 0 else Suc (adjacent_zeros (y # r)))"
| "adjacent_zeros r = length r"

function longest_streak :: "(u8 \<times> u8) list \<Rightarrow> nat \<times> nat" where
  "longest_streak xs =
     (let first = adjacent_zeros xs in
      if first = length xs then (length xs, length xs)
      else let second = first + 2 + length (takeWhile ((=) (0, 0)) (drop (first + 2) xs)) in
           if second = length xs then (first, second)
           else case longest_streak (drop second xs) of (i, j) \<Rightarrow>
             if second - first \<ge> j - i then (first, second) else (second + i, second + j))"
  by pat_completeness auto
termination
proof (relation "measure length", goal_cases)
  case (2 xs first second)
  then have "xs \<noteq> []" by auto
  with 2 show ?case by simp
qed simp

declare longest_streak.simps [simp del]

definition add_chunks :: "(u8 \<times> u8) list \<Rightarrow> bytes" where
  "add_chunks cs = (case cs of [] \<Rightarrow> []
     | c # cs \<Rightarrow> append_v6_hex c @ concat (map (\<lambda>c. 0x3A # append_v6_hex c) cs))"

definition ipv6_to_string :: "bytes \<Rightarrow> bytes" where
  "ipv6_to_string x =
     (if embeds_v4 x then ipv4_to_string (embedded_v4 x)
      else if ipv6_zero x then [0x3A, 0x3A]
      else let xs = segments x; (i, j) = longest_streak xs in
           if i = length xs then add_chunks xs
           else add_chunks (take i xs) @ [0x3A, 0x3A] @ add_chunks (drop j xs))"

text \<open>The parser of an octet.\<close>

definition read_ipv4_octet :: "bytes \<Rightarrow> parse_state" where
  "read_ipv4_octet bs = start_digits is_dec (add_ascii 255 10) integer_overflow bs"

definition parsed :: "pec \<Rightarrow> bool" where
  "parsed code \<longleftrightarrow> code = success \<or> code = trailing_character"

text \<open>Accepting only the end of input.\<close>

definition at_done :: "bytes \<Rightarrow> pec" where
  "at_done bs = (if bs = [] \<or> hd bs = 0 then success else trailing_character)"

text \<open>The states \<^verbatim>\<open>rd_dot\<close> and \<^verbatim>\<open>rd_oct\<close>, with the number of octets to come.\<close>

primrec rd_dot :: "nat \<Rightarrow> bytes \<Rightarrow> bytes \<Rightarrow> pec \<times> bytes" where
  "rd_dot 0 octets bs = (at_done bs, octets)"
| "rd_dot (Suc n) octets bs = (case bs of
     [] \<Rightarrow> (unexpected_eof, octets)
   | c # cs \<Rightarrow>
       if c = 0 then (unexpected_eof, octets)
       else if c \<noteq> 0x2E then (no_match c, octets)
       else case cs of
         [] \<Rightarrow> (unexpected_eof, octets)
       | d # _ \<Rightarrow>
           if d = 0 then (unexpected_eof, octets)
           else if \<not> is_dec d then (no_match d, octets)
           else case read_ipv4_octet cs of (code, rest, v) \<Rightarrow>
             if \<not> parsed code then (code, octets) else rd_dot n (octets @ [of_int v]) rest)"

definition read_ipv4_address :: "bytes \<Rightarrow> pec \<times> bytes" where
  "read_ipv4_address bs = (case bs of
     [] \<Rightarrow> (unexpected_eof, [])
   | c # _ \<Rightarrow>
       if c = 0 then (unexpected_eof, [])
       else if \<not> is_dec c then (no_match c, [])
       else case read_ipv4_octet bs of (code, rest, v) \<Rightarrow>
         if \<not> parsed code then (code, []) else rd_dot 3 [of_int v] rest)"

definition parse_ipv4 :: "bytes \<Rightarrow> pec + bytes" where
  "parse_ipv4 str = (case read_ipv4_address str of (code, x) \<Rightarrow> if code = success then Inr x else Inl code)"

text \<open>
  The pieces of an IPv6 address: a 16-bit number, or a 16-bit number or an IPv4 address. The result has the
  bytes that the consumer receives.
\<close>

definition u16_bytes :: "int \<Rightarrow> bytes" where
  "u16_bytes v = [of_int (v div 256), of_int (v mod 256)]"

primrec h16_loop :: "nat \<Rightarrow> int \<Rightarrow> bytes \<Rightarrow> pec \<times> bytes \<times> bytes" where
  "h16_loop digits res [] = (success, [], u16_bytes res)"
| "h16_loop digits res (c # cs) =
     (if c = 0 then (success, c # cs, u16_bytes res)
      else if digits < 4 \<and> is_hex c
      then case add_ascii 65535 16 res c of
             None \<Rightarrow> (integer_overflow, c # cs, [])
           | Some res' \<Rightarrow> h16_loop (Suc digits) res' cs
      else (trailing_character, c # cs, u16_bytes res))"

definition read_ipv6_h16 :: "bytes \<Rightarrow> pec \<times> bytes \<times> bytes" where
  "read_ipv6_h16 bs = (case bs of
     [] \<Rightarrow> (unexpected_eof, bs, [])
   | c # _ \<Rightarrow> if c = 0 then (unexpected_eof, bs, [])
              else if is_hex c then h16_loop 0 0 bs else (no_match c, bs, []))"

text \<open>The states after the first dot; the last one is terminal.\<close>

primrec last_octet_loop :: "int \<Rightarrow> bytes \<Rightarrow> bytes \<Rightarrow> pec \<times> bytes \<times> bytes" where
  "last_octet_loop dec_res out [] = (success, [], out @ [of_int dec_res])"
| "last_octet_loop dec_res out (c # cs) =
     (if c = 0 then (success, c # cs, out @ [of_int dec_res])
      else if is_dec c
      then case add_ascii 255 10 dec_res c of
             None \<Rightarrow> (integer_overflow, c # cs, out)
           | Some dec_res' \<Rightarrow> last_octet_loop dec_res' out cs
      else (trailing_character, c # cs, out @ [of_int dec_res]))"

primrec octet_loop :: "int \<Rightarrow> nat \<Rightarrow> bytes \<Rightarrow> bytes \<Rightarrow> pec \<times> bytes \<times> bytes" where
  "octet_loop dec_res digits out [] = (unexpected_eof, [], out)"
| "octet_loop dec_res digits out (c # cs) =
     (if c = 0 then (unexpected_eof, c # cs, out)
      else if is_dec c
      then case add_ascii 255 10 dec_res c of
             None \<Rightarrow> (integer_overflow, c # cs, out)
           | Some dec_res' \<Rightarrow> octet_loop dec_res' (Suc digits) out cs
      else if length out < 2 \<and> 0 < digits \<and> c = 0x2E then octet_loop 0 0 (out @ [of_int dec_res]) cs
      else if length out = 2 \<and> 0 < digits \<and> c = 0x2E then last_octet_loop 0 (out @ [of_int dec_res]) cs
      else (no_match c, c # cs, out))"

text \<open>
  The state \<^verbatim>\<open>read\<close>: as long as the digits could be an octet, both numbers are computed (\<open>dec_res\<close> is
  \<^term>\<open>None\<close> in the mode \<^verbatim>\<open>v6_bits\<close>).
\<close>

primrec h16_or_l32_loop :: "int \<Rightarrow> int option \<Rightarrow> nat \<Rightarrow> bytes \<Rightarrow> pec \<times> bytes \<times> bytes" where
  "h16_or_l32_loop hex_res dec_res digits [] = (success, [], u16_bytes hex_res)"
| "h16_or_l32_loop hex_res dec_res digits (c # cs) =
     (if c = 0 then (success, c # cs, u16_bytes hex_res)
      else if is_hex c
      then let dec_res' = (case dec_res of None \<Rightarrow> None | Some d \<Rightarrow> if is_dec c then add_ascii 255 10 d c else None)
           in case add_ascii 65535 16 hex_res c of
                None \<Rightarrow> (integer_overflow, c # cs, [])
              | Some hex_res' \<Rightarrow> h16_or_l32_loop hex_res' dec_res' (Suc digits) cs
      else case dec_res of
             Some d \<Rightarrow> if 0 < digits \<and> c = 0x2E then octet_loop 0 0 [of_int d] cs
                       else (trailing_character, c # cs, u16_bytes hex_res)
           | None \<Rightarrow> (trailing_character, c # cs, u16_bytes hex_res))"

definition read_ipv6_h16_or_l32 :: "bytes \<Rightarrow> pec \<times> bytes \<times> bytes" where
  "read_ipv6_h16_or_l32 bs = (case bs of
     [] \<Rightarrow> (unexpected_eof, bs, [])
   | c # _ \<Rightarrow> if c = 0 then (unexpected_eof, bs, [])
              else if is_hex c then h16_or_l32_loop 0 (Some 0) 0 bs else (no_match c, bs, []))"

text \<open>
  The address parser. The counter of the loops is half of \<^verbatim>\<open>remaining_bytes()\<close>, since every piece has an even
  number of bytes. The prefix is the list of the bytes read so far, to be filled up with zeros; reading a
  suffix piece rotates it into place.
\<close>

definition shift_in :: "bytes \<Rightarrow> bytes \<Rightarrow> bytes" where
  "shift_in suffix piece = drop (length piece) suffix @ piece"

definition combine :: "bytes \<Rightarrow> bytes \<Rightarrow> bytes" where
  "combine prefix suffix = map2 (OR) (prefix @ replicate (16 - length prefix) 0) suffix"

fun rd_suffix :: "nat \<Rightarrow> bytes \<Rightarrow> bytes \<Rightarrow> bytes \<Rightarrow> pec \<times> bytes" where
  "rd_suffix n prefix suffix bs = (case bs of
     [] \<Rightarrow> (unexpected_eof, [])
   | c # _ \<Rightarrow>
       if c = 0 then (unexpected_eof, [])
       else if \<not> is_hex c \<or> n = 0 then (no_match c, [])
       else case (if n = 1 then read_ipv6_h16 bs else read_ipv6_h16_or_l32 bs) of (code, rest, piece) \<Rightarrow>
         if \<not> parsed code then (code, [])
         else (case rest of
             [] \<Rightarrow> (success, combine prefix (shift_in suffix piece))
           | d # ds \<Rightarrow>
               if d = 0 then (success, combine prefix (shift_in suffix piece))
               else if d \<noteq> 0x3A then (trailing_character, combine prefix (shift_in suffix piece))
               else rd_suffix (n - max 1 (length piece div 2)) prefix (shift_in suffix piece) ds))"

declare rd_suffix.simps [simp del]

definition has_sep :: "nat \<Rightarrow> bytes \<Rightarrow> bytes \<Rightarrow> pec \<times> bytes" where
  "has_sep n prefix bs = (case bs of
     [] \<Rightarrow> (success, combine prefix (replicate 16 0))
   | c # _ \<Rightarrow> if c = 0 then (success, combine prefix (replicate 16 0))
              else if is_hex c then rd_suffix n prefix (replicate 16 0) bs
              else (trailing_character, combine prefix (replicate 16 0)))"

fun rd_prefix_sep :: "nat \<Rightarrow> bytes \<Rightarrow> bytes \<Rightarrow> pec \<times> bytes" where
  "rd_prefix_sep n prefix bs = (case bs of
     [] \<Rightarrow> (unexpected_eof, [])
   | c # cs \<Rightarrow>
       if c = 0 then (unexpected_eof, [])
       else if c \<noteq> 0x3A then (no_match c, [])
       else case cs of
         [] \<Rightarrow> (unexpected_eof, [])
       | d # ds \<Rightarrow>
           if d = 0 then (unexpected_eof, [])
           else if d = 0x3A then has_sep n prefix ds
           else if \<not> is_hex d \<or> n = 0 then (no_match d, [])
           else case (if n = 2 then read_ipv6_h16_or_l32 cs else read_ipv6_h16 cs) of (code, rest, piece) \<Rightarrow>
             if \<not> parsed code then (code, [])
             else if n = 1 \<or> n = 2 \<and> length piece = 4
             then (at_done rest, combine (prefix @ piece) (replicate 16 0))
             else rd_prefix_sep (n - 1) (prefix @ piece) rest)"

declare rd_prefix_sep.simps [simp del]

definition read_ipv6_address :: "bytes \<Rightarrow> pec \<times> bytes" where
  "read_ipv6_address bs = (case bs of
     [] \<Rightarrow> (unexpected_eof, [])
   | c # cs \<Rightarrow>
       if c = 0 then (unexpected_eof, [])
       else if c = 0x3A
       then (case cs of
           [] \<Rightarrow> (unexpected_eof, [])
         | d # ds \<Rightarrow> if d = 0 then (unexpected_eof, [])
                     else if d = 0x3A then has_sep 8 [] ds else (no_match d, []))
       else if is_hex c
       then case read_ipv6_h16_or_l32 bs of (code, rest, piece) \<Rightarrow>
         if \<not> parsed code then (code, [])
         else if length piece = 4 then (at_done rest, combine (ipv6_of_v4 piece) (replicate 16 0))
         else rd_prefix_sep 7 piece rest
       else (no_match c, []))"

definition parse_ipv6 :: "bytes \<Rightarrow> pec + bytes" where
  "parse_ipv6 str = (case read_ipv6_address str of (code, x) \<Rightarrow> if code = success then Inr x else Inl code)"

section \<open>Reading what was printed\<close>

text \<open>The input goes on with something that ends a number.\<close>

definition ends_number :: "bytes \<Rightarrow> bool" where
  "ends_number r \<longleftrightarrow> r = [] \<or> hd r = 0x3A"

lemma ends_number_cases:
  assumes "ends_number r"
  obtains "r = []" | cs where "r = 0x3A # cs"
  using assms by (cases r) (auto simp: ends_number_def)

lemma at_done_eq: "ends_number r \<Longrightarrow> at_done r = (if r = [] then success else trailing_character)"
  by (auto simp: at_done_def ends_number_def)

lemma at_done_Nil: "at_done [] = success"
  by (simp add: at_done_def)

lemma parsed_at_done [simp]: "parsed (at_done r)"
  by (auto simp: at_done_def parsed_def)

lemma colon_no_digit [simp]: "\<not> is_hex 0x3A" "\<not> is_dec 0x3A" "\<not> is_dec 0x2E" "\<not> is_hex 0x2E"
  by (simp_all add: is_hex_def is_dec_def)

lemma hex_digit_neq: "is_hex c \<Longrightarrow> c \<noteq> 0 \<and> c \<noteq> 0x3A"
  by (auto simp: is_hex_def is_dec_def)

definition value_from :: "int \<Rightarrow> int \<Rightarrow> bytes \<Rightarrow> int" where
  "value_from base v ds = foldl (\<lambda>v c. v * base + ascii_to_int base c) v ds"

lemma value_from_simps [simp]:
  "value_from base v [] = v" "value_from base v (c # ds) = value_from base (v * base + ascii_to_int base c) ds"
  by (simp_all add: value_from_def)

lemma digit_step_ok:
  assumes "base \<in> {10, 16}" "list_all (is_digit base) (c # ds)" "0 \<le> v" "value_from base v (c # ds) \<le> hi"
  shows "add_ascii hi base v c = Some (v * base + ascii_to_int base c)" "0 \<le> v * base + ascii_to_int base c"
proof -
  have b: "base \<in> {2, 8, 10, 16}" "is_digit base c" using assms by auto
  from ascii_to_int_range(1) [OF b] assms(1,3) show 0: "0 \<le> v * base + ascii_to_int base c" by auto
  from adding.value_mono [OF b(1) _ 0, of ds] assms(2,4)
  have le: "v * base + ascii_to_int base c \<le> hi" by (simp add: value_from_def)
  with 0 have "0 \<le> hi" by linarith
  with add_ascii_eq [OF b assms(3)] le show "add_ascii hi base v c = Some (v * base + ascii_to_int base c)" by simp
qed

lemmas hex_step_ok = digit_step_ok [of 16, unfolded is_digit_def, simplified]
lemmas dec_step_ok = digit_step_ok [of 10, unfolded is_digit_def, simplified]

lemma h16_loop_digits:
  assumes "list_all is_hex ds" "0 \<le> v" "value_from 16 v ds \<le> 65535" "k + length ds \<le> 4" "ends_number r"
  shows "h16_loop k v (ds @ r) = (at_done r, r, u16_bytes (value_from 16 v ds))"
  using assms(1-4)
proof (induction ds arbitrary: v k)
  case Nil
  from assms(5) show ?case by (cases rule: ends_number_cases) (simp_all add: at_done_def)
next
  case (Cons c ds)
  with hex_step_ok [of c ds v 65535] hex_digit_neq [of c] show ?case by simp
qed

lemma h16_or_l32_loop_digits:
  assumes "list_all is_hex ds" "0 \<le> v" "value_from 16 v ds \<le> 65535" "ends_number r"
  shows "h16_or_l32_loop v d k (ds @ r) = (at_done r, r, u16_bytes (value_from 16 v ds))"
  using assms(1-3)
proof (induction ds arbitrary: v d k)
  case Nil
  from assms(4) show ?case
    by (cases rule: ends_number_cases) (simp_all add: at_done_def split: option.splits)
next
  case (Cons c ds)
  with hex_step_ok [of c ds v 65535] hex_digit_neq [of c] show ?case by (simp add: Let_def)
qed

lemma dec_is_hex: "is_dec c \<Longrightarrow> is_hex c"
  by (simp add: is_hex_def)

lemma l32_first_octet:
  assumes "list_all is_dec ds" "0 \<le> v" "value_from 16 v ds \<le> 65535" "0 \<le> w" "value_from 10 w ds \<le> 255" "0 < k + length ds"
  shows "h16_or_l32_loop v (Some w) k (ds @ 0x2E # r) = octet_loop 0 0 [of_int (value_from 10 w ds)] r"
  using assms
proof (induction ds arbitrary: v w k)
  case (Cons c ds)
  then have "list_all is_hex ds" by (simp add: list_all_iff dec_is_hex)
  with Cons hex_step_ok [of c ds v 65535] dec_step_ok [of c ds w 255] hex_digit_neq [of c] dec_is_hex [of c]
  show ?case by (simp add: Let_def)
qed simp

lemma octet_loop_digits:
  assumes "list_all is_dec ds" "0 \<le> w" "value_from 10 w ds \<le> 255" "0 < k + length ds" "length out \<le> 2"
  shows "octet_loop w k out (ds @ 0x2E # r) =
    (if length out < 2 then octet_loop 0 0 (out @ [of_int (value_from 10 w ds)]) r
     else last_octet_loop 0 (out @ [of_int (value_from 10 w ds)]) r)"
  using assms
proof (induction ds arbitrary: w k)
  case (Cons c ds)
  with dec_step_ok [of c ds w 255] is_dec_neq [of c] show ?case by simp
qed simp

lemma last_octet_loop_digits:
  assumes "list_all is_dec ds" "0 \<le> w" "value_from 10 w ds \<le> 255" "ends_number r"
  shows "last_octet_loop w out (ds @ r) = (at_done r, r, out @ [of_int (value_from 10 w ds)])"
  using assms(1-3)
proof (induction ds arbitrary: w)
  case Nil
  from assms(4) show ?case by (cases rule: ends_number_cases) (simp_all add: at_done_def)
next
  case (Cons c ds)
  with dec_step_ok [of c ds w 255] is_dec_neq [of c] show ?case by simp
qed

lemma read_octet_digits:
  assumes "list_all is_dec ds" "0 \<le> w" "value_from 10 w ds \<le> 255" "r = [] \<or> hd r = 0x2E"
  shows "read_digits is_dec (add_ascii 255 10) integer_overflow w (ds @ r) = (at_done r, r, value_from 10 w ds)"
  using assms(1-3)
proof (induction ds arbitrary: w)
  case Nil
  from assms(4) show ?case by (cases r) (auto simp: at_done_def)
next
  case (Cons c ds)
  with dec_step_ok [of c ds w 255] is_dec_neq [of c] show ?case by simp
qed

lemma hex_char_digit:
  assumes "n < 16"
  shows "is_hex (hex_char n)" "ascii_to_int 16 (hex_char n) = uint n"
proof -
  have n: "unat n < 16" using assms by (simp add: word_less_nat_alt)
  have "unat n \<in> {0, 1, 2, 3, 4, 5, 6, 7, 8, 9, 10, 11, 12, 13, 14, 15}"
  proof (cases "unat n < 8")
    case True
    then have "unat n = 0 \<or> unat n = 1 \<or> unat n = 2 \<or> unat n = 3 \<or> unat n = 4 \<or> unat n = 5 \<or> unat n = 6 \<or> unat n = 7"
      by linarith
    then show ?thesis by blast
  next
    case False
    with n have "unat n = 8 \<or> unat n = 9 \<or> unat n = 10 \<or> unat n = 11 \<or> unat n = 12 \<or> unat n = 13 \<or> unat n = 14 \<or> unat n = 15"
      by linarith
    then show ?thesis by blast
  qed
  then have "n \<in> {0, 1, 2, 3, 4, 5, 6, 7, 8, 9, 10, 11, 12, 13, 14, 15}"
    by (auto simp: word_unat_eq_iff)
  then show "is_hex (hex_char n)" "ascii_to_int 16 (hex_char n) = uint n"
    by (auto simp: hex_char_def is_hex_def is_dec_def ascii_to_int_def)
qed

lemma leading_zeros: "value_from 16 0 (dropWhile (\<lambda>c. \<not> c \<noteq> 0x30) ds) = value_from 16 0 ds"
  by (induction ds) (simp_all add: ascii_to_int_def)

lemma unat_less_256: "unat (b :: u8) < 256"
  using unat_less_exp [of b] by simp

lemma nibbles: "drop_bit 4 (b :: u8) < 16" "b AND 0x0F < 16" "uint b = uint (drop_bit 4 b) * 16 + uint (b AND 0x0F)"
proof -
  have m: "b AND 0x0F = take_bit 4 b" by (simp add: take_bit_eq_mask mask_eq_exp_minus_1)
  show "drop_bit 4 b < 16" using unat_less_256 [of b] by (simp add: drop_bit_eq_div word_less_nat_alt unat_div less_mult_imp_div_less)
  show "b AND 0x0F < 16" unfolding m by (simp add: take_bit_eq_mod word_less_nat_alt unat_mod)
  show "uint b = uint (drop_bit 4 b) * 16 + uint (b AND 0x0F)"
    unfolding m by (simp add: drop_bit_eq_div take_bit_eq_mod uint_div uint_mod)
qed

lemma strip_zeros:
  assumes "list_all is_hex buf" "ds = dropWhile (\<lambda>c. \<not> c \<noteq> 0x30) buf" "res = (if ds \<noteq> [] then ds else [0x30])"
  shows "list_all is_hex res" "res \<noteq> []" "length res \<le> max 1 (length buf)" "value_from 16 0 res = value_from 16 0 buf"
proof -
  have v: "value_from 16 0 ds = value_from 16 0 buf" unfolding assms(2) by (rule leading_zeros)
  have "list_all is_hex ds" using assms(1,2) set_dropWhileD by (fastforce simp: list_all_iff)
  then show "list_all is_hex res" by (simp add: assms(3) is_hex_def is_dec_def)
  show "res \<noteq> []" by (simp add: assms(3))
  show "length res \<le> max 1 (length buf)" using length_dropWhile_le [of _ buf] by (auto simp: assms(2,3) le_max_iff_disj)
  show "value_from 16 0 res = value_from 16 0 buf" using v by (auto simp: assms(3) ascii_to_int_def)
qed

lemma four_digits:
  "(x :: int) = h * 16 + l \<Longrightarrow> y = h' * 16 + l' \<Longrightarrow> (((0 * 16 + h) * 16 + l) * 16 + h') * 16 + l' = x * 256 + y"
  by simp

lemma printed_segment:
  "list_all is_hex (append_v6_hex (a, b))" "append_v6_hex (a, b) \<noteq> []" "length (append_v6_hex (a, b)) \<le> 4"
  "value_from 16 0 (append_v6_hex (a, b)) = uint a * 256 + uint b"
proof -
  define buf where "buf = [hex_char (drop_bit 4 a), hex_char (a AND 0x0F), hex_char (drop_bit 4 b), hex_char (b AND 0x0F)]"
  have hex: "list_all is_hex buf"
    unfolding buf_def list_all_iff using hex_char_digit(1) [OF nibbles(1)] hex_char_digit(1) [OF nibbles(2)] by auto
  have res: "append_v6_hex (a, b) =
      (if dropWhile (\<lambda>c. \<not> c \<noteq> 0x30) buf \<noteq> [] then dropWhile (\<lambda>c. \<not> c \<noteq> 0x30) buf else [0x30])"
    by (simp only: append_v6_hex_def Let_def fst_conv snd_conv buf_def)
  have "value_from 16 0 buf = uint a * 256 + uint b"
    unfolding buf_def value_from_simps
      hex_char_digit(2) [OF nibbles(1)] hex_char_digit(2) [OF nibbles(2)]
    by (rule four_digits [OF nibbles(3) nibbles(3)])
  then show "value_from 16 0 (append_v6_hex (a, b)) = uint a * 256 + uint b"
    using strip_zeros(4) [OF hex refl res] by simp
  show "list_all is_hex (append_v6_hex (a, b))" "append_v6_hex (a, b) \<noteq> []"
    using strip_zeros(1,2) [OF hex refl res] by blast+
  have "length buf = 4" by (simp add: buf_def)
  then show "length (append_v6_hex (a, b)) \<le> 4" using strip_zeros(3) [OF hex refl res] by simp
qed

lemma u16_bytes_pair: "u16_bytes (uint a * 256 + uint b) = [a, b :: u8]"
proof -
  have "(uint a * 256 + uint b) div 256 = uint a" "(uint a * 256 + uint b) mod 256 = uint b"
    using uint_bounded [of b] by (simp_all add: div_add1_eq)
  then show ?thesis by (simp add: u16_bytes_def)
qed

lemma segment_bound: "uint (a :: u8) * 256 + uint (b :: u8) \<le> 65535"
  using uint_bounded [of a] uint_bounded [of b] by simp

lemma read_printed_segment:
  assumes "ends_number r"
  shows "read_ipv6_h16 (append_v6_hex (a, b) @ r) = (at_done r, r, [a, b])"
    "read_ipv6_h16_or_l32 (append_v6_hex (a, b) @ r) = (at_done r, r, [a, b])"
proof -
  obtain c cs where c: "append_v6_hex (a, b) = c # cs" using printed_segment(2) by (cases "append_v6_hex (a, b)") auto
  have h: "is_hex c" "c \<noteq> 0" using printed_segment(1) [of a b] c hex_digit_neq by auto
  have "h16_loop 0 0 (append_v6_hex (a, b) @ r) = (at_done r, r, [a, b])"
    using h16_loop_digits [OF printed_segment(1) _ _ _ assms, of 0 a b 0] printed_segment(3)
    by (simp add: printed_segment(4) segment_bound u16_bytes_pair)
  with h show "read_ipv6_h16 (append_v6_hex (a, b) @ r) = (at_done r, r, [a, b])"
    by (simp add: read_ipv6_h16_def c)
  have "h16_or_l32_loop 0 (Some 0) 0 (append_v6_hex (a, b) @ r) = (at_done r, r, [a, b])"
    using h16_or_l32_loop_digits [OF printed_segment(1) _ _ assms, of 0 a b]
    by (simp add: printed_segment(4) segment_bound u16_bytes_pair)
  with h show "read_ipv6_h16_or_l32 (append_v6_hex (a, b) @ r) = (at_done r, r, [a, b])"
    by (simp add: read_ipv6_h16_or_l32_def c)
qed

lemma printed_first:
  obtains c cs where "append_v6_hex x = c # cs" "is_hex c" "c \<noteq> 0" "c \<noteq> 0x3A"
proof (cases x)
  case (Pair a b)
  obtain c cs where c: "append_v6_hex (a, b) = c # cs" using printed_segment(2) by (cases "append_v6_hex (a, b)") auto
  with printed_segment(1) [of a b] hex_digit_neq [of c] Pair show ?thesis by (intro that [of c cs]) auto
qed

definition more_chunks :: "(u8 \<times> u8) list \<Rightarrow> bytes" where
  "more_chunks cs = concat (map (\<lambda>c. 0x3A # append_v6_hex c) cs)"

lemma add_chunks_Cons: "add_chunks (c # cs) = append_v6_hex c @ more_chunks cs"
  by (simp add: add_chunks_def more_chunks_def)

lemma more_chunks_simps [simp]:
  "more_chunks [] = []" "more_chunks (c # cs) = 0x3A # add_chunks (c # cs)"
  by (simp_all add: more_chunks_def add_chunks_def)

lemma ends_more_chunks [simp]: "ends_number (more_chunks cs)" "ends_number (more_chunks cs @ 0x3A # r)"
  by (cases cs; simp add: ends_number_def)+

definition flat :: "(u8 \<times> u8) list \<Rightarrow> bytes" where
  "flat cs = concat (map (\<lambda>(a, b). [a, b]) cs)"

lemma flat_simps [simp]: "flat [] = []" "flat ((a, b) # cs) = a # b # flat cs" "flat (xs @ ys) = flat xs @ flat ys"
  by (simp_all add: flat_def)

lemma length_flat [simp]: "length (flat cs) = 2 * length cs"
  by (induction cs) auto

lemma flat_segments: "even (length x) \<Longrightarrow> flat (segments x) = x"
  by (induction x rule: segments.induct) auto

lemma length_segments: "length (segments x) = length x div 2"
  by (induction x rule: segments.induct) auto

lemma drop_2: "drop (Suc (Suc 0)) xs = drop 2 xs"
  by (simp add: numeral_2_eq_2)

lemma rd_suffix_chunks:
  assumes "length cs < n" "2 * Suc (length cs) \<le> length suffix"
  shows "rd_suffix n prefix suffix (add_chunks (c # cs)) = (success, combine prefix (drop (2 * Suc (length cs)) suffix @ flat (c # cs)))"
  using assms
proof (induction cs arbitrary: n c suffix)
  case Nil
  obtain a b where c: "c = (a, b)" by (cases c)
  with Nil read_printed_segment [of "[]" a b] show ?case
    by (cases rule: printed_first [of c])
      (auto simp: rd_suffix.simps add_chunks_Cons ends_number_def at_done_def parsed_def shift_in_def numeral_2_eq_2)
next
  case (Cons d ds)
  obtain a b where c: "c = (a, b)" by (cases c)
  obtain p q where d: "d = (p, q)" by (cases d)
  have m: "n - 1 \<noteq> 0" using Cons.prems by simp
  with Cons.prems c read_printed_segment [OF ends_more_chunks(1) [of "d # ds"], of a b] Cons.IH [where n = "n - 1" and c = d and suffix = "drop 2 suffix @ [a, b]"]
  show ?case
    by (cases rule: printed_first [of c])
      (auto simp: rd_suffix.simps [of n] add_chunks_Cons [of "(a, b)"] shift_in_def d drop_2)
qed

lemma has_sep_chunks:
  assumes "length ds \<le> n" "n \<le> 8"
  shows "has_sep n prefix (add_chunks ds) = (success, combine prefix (replicate (16 - 2 * length ds) 0 @ flat ds))"
proof (cases ds)
  case Nil
  then show ?thesis by (simp add: has_sep_def add_chunks_def)
next
  case (Cons c cs)
  show ?thesis
  proof (cases rule: printed_first [of c])
    case (1 d _)
    with assms rd_suffix_chunks [of cs n "replicate 16 0" prefix c] show ?thesis
      by (simp add: has_sep_def add_chunks_Cons Cons)
  qed
qed

lemma rd_prefix_streak:
  assumes "length cs + 2 \<le> n"
  shows "rd_prefix_sep n prefix (more_chunks cs @ 0x3A # 0x3A # r) = has_sep (n - length cs) (prefix @ flat cs) r"
  using assms
proof (induction cs arbitrary: n prefix)
  case Nil
  then show ?case by (simp add: rd_prefix_sep.simps)
next
  case (Cons c cs)
  obtain a b where c: "c = (a, b)" by (cases c)
  from Cons.prems Cons.IH [of "n - 1" "prefix @ [a, b]"] c
    read_printed_segment [of "more_chunks cs @ 0x3A # 0x3A # r" a b]
  show ?case
    by (cases rule: printed_first [of c]) (simp add: rd_prefix_sep.simps [of n] add_chunks_Cons)
qed

lemma rd_prefix_full:
  assumes "length cs = n" "0 < n"
  shows "rd_prefix_sep n prefix (more_chunks cs) = (success, combine (prefix @ flat cs) (replicate 16 0))"
  using assms
proof (induction cs arbitrary: n prefix)
  case (Cons c cs)
  obtain a b where c: "c = (a, b)" by (cases c)
  from Cons.prems Cons.IH [of "n - 1" "prefix @ [a, b]"] c
    read_printed_segment [OF ends_more_chunks(1) [of cs], of a b]
  show ?case
    by (cases rule: printed_first [of c]) (auto simp: rd_prefix_sep.simps [of n] add_chunks_Cons at_done_Nil)
qed simp

lemma adjacent_zeros_found:
  "adjacent_zeros xs \<noteq> length xs \<Longrightarrow> adjacent_zeros xs + 2 \<le> length xs \<and>
     xs ! adjacent_zeros xs = (0, 0) \<and> xs ! Suc (adjacent_zeros xs) = (0, 0)"
  by (induction xs rule: adjacent_zeros.induct) (auto split: if_splits)

definition is_streak :: "(u8 \<times> u8) list \<Rightarrow> nat \<times> nat \<Rightarrow> bool" where
  "is_streak xs r \<longleftrightarrow> fst r + 2 \<le> snd r \<and> snd r \<le> length xs \<and> (\<forall>k. fst r \<le> k \<longrightarrow> k < snd r \<longrightarrow> xs ! k = (0, 0))"

lemma first_streak:
  assumes "adjacent_zeros xs \<noteq> length xs"
  shows "is_streak xs (adjacent_zeros xs,
    adjacent_zeros xs + 2 + length (takeWhile ((=) (0, 0)) (drop (adjacent_zeros xs + 2) xs)))"
proof -
  let ?i = "adjacent_zeros xs" and ?w = "takeWhile ((=) (0, 0)) (drop (adjacent_zeros xs + 2) xs)"
  note a = adjacent_zeros_found [OF assms]
  have len: "length ?w \<le> length xs - (?i + 2)" using length_takeWhile_le [of _ "drop (?i + 2) xs"] by simp
  have "xs ! k = (0, 0)" if "?i \<le> k" "k < ?i + 2 + length ?w" for k
  proof (cases "k < ?i + 2")
    case True
    then have "k = ?i \<or> k = Suc ?i" using that by linarith
    with a show ?thesis by auto
  next
    case False
    then obtain m where m: "k = ?i + 2 + m" by (metis le_iff_add not_less)
    with that have lt: "m < length ?w" by simp
    then have "?w ! m = (0, 0)" using set_takeWhileD [of "?w ! m"] nth_mem by fastforce
    moreover have "?w ! m = drop (?i + 2) xs ! m" by (rule takeWhile_nth [OF lt])
    moreover have "drop (?i + 2) xs ! m = xs ! k" using a m by simp
    ultimately show ?thesis by simp
  qed
  with len a show ?thesis by (simp add: is_streak_def)
qed

lemma is_streak_drop:
  assumes "is_streak (drop m xs) (i, j)" "m \<le> length xs"
  shows "is_streak xs (m + i, m + j)"
proof -
  have "xs ! k = (0, 0)" if "m + i \<le> k" "k < m + j" for k
    using assms that spec [of "\<lambda>k. i \<le> k \<longrightarrow> k < j \<longrightarrow> drop m xs ! k = (0, 0)" "k - m"]
    by (auto simp: is_streak_def)
  with assms show ?thesis by (auto simp: is_streak_def)
qed

lemma longest_streak_sound:
  "longest_streak xs = (length xs, length xs) \<or> is_streak xs (longest_streak xs)"
proof (induction xs rule: longest_streak.induct)
  case (1 xs)
  let ?i = "adjacent_zeros xs"
  let ?j = "?i + 2 + length (takeWhile ((=) (0, 0)) (drop (?i + 2) xs))"
  show ?case
  proof (cases "?i = length xs")
    case False
    note f = first_streak [OF False]
    then have le: "?j \<le> length xs" by (simp add: is_streak_def)
    obtain a b where ab: "longest_streak (drop ?j xs) = (a, b)" by (cases "longest_streak (drop ?j xs)")
    show ?thesis
    proof (cases "?j = length xs \<or> ?j - ?i \<ge> b - a")
      case True
      with f False ab show ?thesis by (auto simp: longest_streak.simps [of xs] Let_def)
    next
      case no: False
      with 1 [OF refl False refl] ab have "is_streak (drop ?j xs) (a, b)" by auto
      from is_streak_drop [OF this le] no False ab show ?thesis
        by (auto simp: longest_streak.simps [of xs] Let_def)
    qed
  qed (simp add: longest_streak.simps Let_def)
qed

lemma streak_split:
  assumes "is_streak xs (i, j)"
  shows "xs = take i xs @ replicate (j - i) (0, 0) @ drop j xs"
proof -
  have "take (j - i) (drop i xs) = replicate (j - i) (0, 0)"
    using assms by (intro nth_equalityI) (auto simp: is_streak_def)
  moreover have "xs = take i xs @ take (j - i) (drop i xs) @ drop j xs"
    using assms take_add [of i "j - i" xs] append_take_drop_id [of j xs] by (simp add: is_streak_def)
  ultimately show ?thesis by simp
qed

lemma value_from_bound:
  assumes "list_all is_dec ds" "0 \<le> v"
  shows "value_from 16 v ds < (v + 1) * 16 ^ length ds"
  using assms
proof (induction ds arbitrary: v)
  case (Cons c ds)
  have r: "0 \<le> ascii_to_int 16 c" "ascii_to_int 16 c < 16"
    using ascii_to_int_range [of 16 c] Cons.prems dec_is_hex by (auto simp: is_digit_def)
  then have "value_from 16 (v * 16 + ascii_to_int 16 c) ds < (v * 16 + ascii_to_int 16 c + 1) * 16 ^ length ds"
    using Cons.prems by (intro Cons.IH) auto
  also have "\<dots> \<le> ((v + 1) * 16) * 16 ^ length ds" using r by (intro mult_right_mono) auto
  finally show ?case by (simp add: algebra_simps)
qed simp

lemma octet_text:
  "list_all is_dec (dec_digits (unat b))" "value_from 10 0 (dec_digits (unat b)) = uint (b :: u8)"
  "dec_digits (unat b) \<noteq> []" "value_from 16 0 (dec_digits (unat b)) \<le> 65535" "uint b \<le> 255"
proof -
  show d: "list_all is_dec (dec_digits (unat b))" and "dec_digits (unat b) \<noteq> []"
    and "value_from 10 0 (dec_digits (unat b)) = uint b"
    using dec_digits_value [of "unat b"] by (simp_all add: value_from_def digits_value_def)
  have "length (dec_digits (unat b)) \<le> 3"
    using unat_less_256 [of b]
    by (simp add: dec_digits.simps [of "unat b"] dec_digits.simps [of "unat b div 10"] dec_digits.simps [of "unat b div 10 div 10"])
  then have "(16 :: int) ^ length (dec_digits (unat b)) \<le> 16 ^ 3" by (intro power_increasing) simp_all
  with value_from_bound [OF d, of 0] show "value_from 16 0 (dec_digits (unat b)) \<le> 65535" by simp
  show "uint b \<le> 255" using uint_bounded [of b] by simp
qed

lemma octet_first:
  obtains c cs where "dec_digits (unat (b :: u8)) = c # cs" "is_dec c" "c \<noteq> 0" "is_hex c" "c \<noteq> 0x3A"
proof -
  obtain c cs where c: "dec_digits (unat b) = c # cs" using octet_text(3) by (cases "dec_digits (unat b)") auto
  with octet_text(1) [of b] have "is_dec c" by simp
  with c hex_digit_neq [of c] dec_is_hex [of c] show ?thesis by (intro that [of c cs]) auto
qed

lemma read_printed_octet:
  assumes "r = [] \<or> hd r = 0x2E"
  shows "read_ipv4_octet (dec_digits (unat b) @ r) = (at_done r, r, uint (b :: u8))"
  using read_octet_digits [OF octet_text(1) _ _ assms, of 0 b] octet_text(2,5) [of b]
  by (cases rule: octet_first [of b]) (simp add: read_ipv4_octet_def start_digits_def)

lemma rd_dot_printed:
  "rd_dot (length bs) octets (concat (map (\<lambda>b. 0x2E # dec_digits (unat b)) bs)) = (success, octets @ bs)"
proof (induction bs arbitrary: octets)
  case Nil
  show ?case by (simp add: at_done_def)
next
  case (Cons b bs)
  let ?r = "concat (map (\<lambda>b. 0x2E # dec_digits (unat b)) bs)"
  have "?r = [] \<or> hd ?r = 0x2E" by (cases bs) auto
  from read_printed_octet [OF this, of b] Cons.IH show ?case
    by (cases rule: octet_first [of b]) simp
qed

lemma read_printed_l32:
  "read_ipv6_h16_or_l32 (ipv4_to_string [a, b, c, d]) = (success, [], [a, b, c, d])"
proof -
  have "h16_or_l32_loop 0 (Some 0) 0 (ipv4_to_string [a, b, c, d]) = (success, [], [a, b, c, d])"
    using octet_text(3) [of a] octet_text(3) [of b] octet_text(3) [of c]
      last_octet_loop_digits [OF octet_text(1) [of d], where r = "[]"]
    by (simp add: ipv4_to_string_def l32_first_octet octet_loop_digits octet_text(1,2,4,5) ends_number_def at_done_Nil)
  then show ?thesis
    by (cases rule: octet_first [of a]) (simp add: read_ipv6_h16_or_l32_def ipv4_to_string_def)
qed

lemma or_zero_bytes: "map2 (OR) xs (replicate (length xs) (0 :: u8)) = xs" "map2 (OR) (replicate (length xs) (0 :: u8)) xs = xs"
  by (induction xs) auto

lemma combine_full: "length x = 16 \<Longrightarrow> combine x (replicate 16 0) = x"
  using or_zero_bytes(1) [of x] by (simp add: combine_def)

lemma combine_parts:
  assumes "length p + length q \<le> 16"
  shows "combine p (replicate (16 - length q) 0 @ q) = p @ replicate (16 - length p - length q) 0 @ q"
proof -
  let ?n = "16 - length p - length q"
  have r: "replicate (16 - length q) (0 :: u8) = replicate (length p) 0 @ replicate ?n 0"
    "replicate (16 - length p) (0 :: u8) = replicate ?n 0 @ replicate (length q) 0"
    using assms by (simp_all add: replicate_add [symmetric])
  show ?thesis unfolding combine_def r using or_zero_bytes [of p] or_zero_bytes [of q] or_zero_bytes [of "replicate ?n 0"]
    by (simp add: zip_append)
qed

lemma flat_replicate: "flat (replicate n (0, 0)) = replicate (2 * n) 0"
  by (induction n) auto

lemma parse_streak:
  assumes x: "length x = 16" and s: "is_streak (segments x) (i, j)"
  shows "read_ipv6_address (add_chunks (take i (segments x)) @ [0x3A, 0x3A] @ add_chunks (drop j (segments x))) = (success, x)"
proof -
  let ?p = "take i (segments x)" and ?q = "drop j (segments x)"
  have l: "length (segments x) = 8" by (simp add: length_segments x)
  have b: "i + 2 \<le> j" "j \<le> 8" using s l by (auto simp: is_streak_def)
  then have len: "length ?p = i" "length ?q = 8 - j" using l by simp_all
  have parts: "x = flat ?p @ replicate (2 * (j - i)) 0 @ flat ?q"
    using arg_cong [OF streak_split [OF s], of flat] flat_segments [of x] x by (simp add: flat_replicate)
  have mid: "16 - length (flat ?p) - length (flat ?q) = 2 * (j - i)" "length (flat ?p) + length (flat ?q) \<le> 16"
    using b len by simp_all
  have c: "combine (flat ?p) (replicate (16 - length (flat ?q)) 0 @ flat ?q) = x"
    unfolding combine_parts [OF mid(2)] mid(1) by (rule parts [symmetric])
  have h: "has_sep (8 - i) (flat ?p) (add_chunks ?q) = (success, x)"
    using has_sep_chunks [of ?q "8 - i" "flat ?p"] b len c by simp
  show ?thesis
  proof (cases ?p)
    case Nil
    with h len show ?thesis by (simp add: read_ipv6_address_def add_chunks_def)
  next
    case (Cons s0 ps)
    obtain u v where s0: "s0 = (u, v)" by (cases s0)
    have n: "length ps + 2 \<le> 7" "7 - length ps = 8 - i" using Cons len b by auto
    have "rd_prefix_sep 7 [u, v] (more_chunks ps @ 0x3A # 0x3A # add_chunks ?q) = (success, x)"
      using rd_prefix_streak [OF n(1), of "[u, v]" "add_chunks ?q"] h n(2) Cons s0 by simp
    with read_printed_segment(2) [OF ends_more_chunks(2), of u v ps "0x3A # add_chunks ?q"] Cons s0 show ?thesis
      by (cases rule: printed_first [of s0]) (simp add: read_ipv6_address_def add_chunks_Cons)
  qed
qed

lemma parse_no_streak:
  assumes x: "length x = 16"
  shows "read_ipv6_address (add_chunks (segments x)) = (success, x)"
proof -
  have l: "length (segments x) = 8" by (simp add: length_segments x)
  then obtain u v ps where s: "segments x = (u, v) # ps" by (cases "segments x") auto
  have "x = [u, v] @ flat ps" using flat_segments [of x] x s by simp
  with rd_prefix_full [of ps 7 "[u, v]"] combine_full [OF x] l s
  have "rd_prefix_sep 7 [u, v] (more_chunks ps) = (success, x)" by simp
  with read_printed_segment(2) [OF ends_more_chunks(1), of u v ps] s show ?thesis
    by (cases rule: printed_first [of "(u, v)"]) (simp add: read_ipv6_address_def add_chunks_Cons)
qed

section \<open>Round trips\<close>

text \<open>Parsing the text of an IPv4 address gives the address.\<close>

theorem ipv4_print_parse:
  assumes "length x = 4"
  shows "parse_ipv4 (ipv4_to_string x) = Inr x"
proof -
  obtain a r where x: "x = a # r" "length r = 3" using assms by (cases x) auto
  let ?r = "concat (map (\<lambda>b. 0x2E # dec_digits (unat b)) r)"
  have "?r = [] \<or> hd ?r = 0x2E" by (cases r) auto
  from read_printed_octet [OF this, of a] rd_dot_printed [of r "[a]"] x show ?thesis
    by (cases rule: octet_first [of a]) (simp add: parse_ipv4_def read_ipv4_address_def ipv4_to_string_def)
qed

theorem ipv4_print_parse_witness:
  "parse_ipv4 (ipv4_to_string [192, 0, 2, 255]) = Inr [192, 0, 2, 255]"
  by (rule ipv4_print_parse) simp

text \<open>
  C33: Parsing the text of an IPv6 address gives the address, whether the text is that of an embedded IPv4
  address, has the shorthand for the longest streak of zeros or has all eight numbers.
\<close>

theorem ipv6_print_parse:
  assumes "length x = 16"
  shows "parse_ipv6 (ipv6_to_string x) = Inr x"
proof -
  have "read_ipv6_address (ipv6_to_string x) = (success, x)"
  proof (cases "embeds_v4 x")
    case True
    then have x: "x = v4_prefix @ drop 12 x" using append_take_drop_id [of 12 x] by (simp add: embeds_v4_def)
    obtain a b c d where t: "drop 12 x = [a, b, c, d]"
      using assms by (auto simp: length_Suc_conv numeral_eq_Suc dest!: arg_cong [of _ _ length])
    with read_printed_l32 [of a b c d] True combine_full [OF assms] x show ?thesis
      by (cases rule: octet_first [of a])
        (simp add: ipv6_to_string_def embedded_v4_def read_ipv6_address_def ipv4_to_string_def ipv6_of_v4_def at_done_Nil parsed_def)
  next
    case v4: False
    show ?thesis
    proof (cases "ipv6_zero x")
      case True
      with v4 show ?thesis
        by (simp add: ipv6_to_string_def ipv6_zero_def read_ipv6_address_def has_sep_def combine_full combine_def
            flip: or_zero_bytes)
    next
      case False
      obtain i j where ij: "longest_streak (segments x) = (i, j)" by (cases "longest_streak (segments x)")
      show ?thesis
      proof (cases "i = length (segments x)")
        case True
        with v4 False ij parse_no_streak [OF assms] show ?thesis by (simp add: ipv6_to_string_def)
      next
        case no: False
        with longest_streak_sound [of "segments x"] ij have "is_streak (segments x) (i, j)" by auto
        from parse_streak [OF assms this] v4 False ij no show ?thesis by (simp add: ipv6_to_string_def Let_def)
      qed
    qed
  qed
  then show ?thesis by (simp add: parse_ipv6_def)
qed

theorem ipv6_print_parse_witness:
  "parse_ipv6 (ipv6_to_string [0x20, 0x01, 0x0D, 0xB8, 0, 0, 0, 0, 0, 0, 0, 0, 0, 0, 0, 1]) =
     Inr [0x20, 0x01, 0x0D, 0xB8, 0, 0, 0, 0, 0, 0, 0, 0, 0, 0, 0, 1]"
  by (rule ipv6_print_parse) simp

text \<open>The IPv6 parser takes an empty last octet for a zero, which the IPv4 parser rejects.\<close>

lemma ipv6_accepts_empty_octet:
  "parse_ipv6 (ascii ''1.2.3.'') = Inr (ipv6_of_v4 [1, 2, 3, 0])" "parse_ipv4 (ascii ''1.2.3.'') = Inl unexpected_eof"
  by code_simp+

text \<open>A suffix may go on after an IPv4 address, and the shorthand may stand for no number at all.\<close>

lemma ipv6_accepts_beyond_grammar:
  "parse_ipv6 (ascii ''::1.2.3.4:5'') = Inr (replicate 10 0 @ [1, 2, 3, 4, 0, 5])"
  "parse_ipv6 (ascii ''1:2:3:4:5:6:7::8'') = Inr [0, 1, 0, 2, 0, 3, 0, 4, 0, 5, 0, 6, 0, 7, 0, 8]"
  by code_simp+

end
