(* ===== verification/Cuda_Tokens.thy ===== *)
theory Cuda_Tokens
  imports CAF_Prelude
begin

text \<open>
  Kernel dimensions and the tokens of the control layer of \<^verbatim>\<open>libcaf_cuda\<close>: \<^verbatim>\<open>caf/cuda/nd_range.hpp\<close> and the
  classes below \<^verbatim>\<open>caf/cuda/control-layer\<close> with their factory functions. A token is a request to a scheduler
  actor; a response token grants a stream and gives it back, exactly once, when it is released.
\<close>

section \<open>Kernel dimensions\<close>

text \<open>
  The dimension vectors are lists; reading a missing component is undefined behaviour, the value
  \<^term>\<open>None\<close>. The hash function of the standard library is a parameter.
\<close>

record nd_range =
  gridDim :: "u64 list"
  blockDim :: "u64 list"
  hashValue :: u64

definition dim :: "u64 list \<Rightarrow> nat \<Rightarrow> u64 option" where
  "dim v i = (if i < length v then Some (v ! i) else None)"

primrec digits :: "nat \<Rightarrow> nat \<Rightarrow> string" where
  "digits 0 n = []"
| "digits (Suc k) n = (if n < 10 then [char_of (48 + n)] else digits k (n div 10) @ [char_of (48 + n mod 10)])"

definition show_u64 :: "u64 \<Rightarrow> string" where
  "show_u64 w = digits 20 (unat w)"

definition show_dims :: "u64 list \<Rightarrow> string option" where
  "show_dims v = (case (dim v 0, dim v 1, dim v 2) of
     (Some x, Some y, Some z) \<Rightarrow> Some (''('' @ show_u64 x @ '','' @ show_u64 y @ '','' @ show_u64 z @ '')'')
   | _ \<Rightarrow> None)"

definition nd_range_to_string :: "nd_range \<Rightarrow> string option" where
  "nd_range_to_string r = (case (show_dims (gridDim r), show_dims (blockDim r)) of
     (Some g, Some b) \<Rightarrow> Some (''grid'' @ g @ ''_block'' @ b)
   | _ \<Rightarrow> None)"

definition computeHash :: "(string \<Rightarrow> u64) \<Rightarrow> nd_range \<Rightarrow> nd_range option" where
  "computeHash hasher r = map_option (\<lambda>s. r\<lparr>hashValue := hasher s\<rparr>) (nd_range_to_string r)"

definition nd_range_of_ints ::
    "(string \<Rightarrow> u64) \<Rightarrow> u32 \<Rightarrow> u32 \<Rightarrow> u32 \<Rightarrow> u32 \<Rightarrow> u32 \<Rightarrow> u32 \<Rightarrow> nd_range option" where
  "nd_range_of_ints hasher gridX gridY gridZ blockX blockY blockZ =
     computeHash hasher \<lparr>gridDim = [scast gridX, scast gridY, scast gridZ],
       blockDim = [scast blockX, scast blockY, scast blockZ], hashValue = 0\<rparr>"

text \<open>The constructor from vectors; \<^term>\<open>None\<close> is the exception \<^verbatim>\<open>std::invalid_argument\<close>.\<close>

definition nd_range_of_vectors :: "u64 list \<Rightarrow> u64 list \<Rightarrow> nd_range option" where
  "nd_range_of_vectors grid block =
     (if length grid \<noteq> 3 \<or> length block \<noteq> 3 then None
      else Some \<lparr>gridDim = grid, blockDim = block, hashValue = 0\<rparr>)"

text \<open>The initializers \<^verbatim>\<open>gridDim{3,0}\<close> and \<^verbatim>\<open>blockDim{3,0}\<close> are lists with the two elements 3 and 0.\<close>

definition nd_range_default :: nd_range where
  "nd_range_default = \<lparr>gridDim = [3, 0], blockDim = [3, 0], hashValue = 0\<rparr>"

definition product_of_dims :: "u64 list \<Rightarrow> u64 option" where
  "product_of_dims v = (case (dim v 0, dim v 1, dim v 2) of
     (Some x, Some y, Some z) \<Rightarrow> Some (x * y * z)
   | _ \<Rightarrow> None)"

definition get_num_threads :: "nd_range \<Rightarrow> u64 option" where
  "get_num_threads r = product_of_dims (blockDim r)"

definition get_num_blocks :: "nd_range \<Rightarrow> u64 option" where
  "get_num_blocks r = product_of_dims (gridDim r)"

section \<open>Tokens\<close>

type_synonym actor = nat

definition INDEPENDENT :: int where
  "INDEPENDENT = - 1"

record launch_token =
  program :: nat
  range_dims :: nd_range
  memory_usage :: int
  launch_id :: string
  reply_handle :: actor
  launch_dependency :: int

record memory_transfer_token =
  transfer_size :: int
  direction :: int
  replyActor :: actor
  transfer_dependency :: int

text \<open>What a token pointer may refer to; the last case stands for the token types without a request.\<close>

datatype token =
    Launch launch_token
  | Memory memory_transfer_token
  | Other int

definition getType :: "token \<Rightarrow> int" where
  "getType t = (case t of Launch _ \<Rightarrow> 1 | Memory _ \<Rightarrow> 4 | Other n \<Rightarrow> n)"

definition isIndependent :: "int \<Rightarrow> bool" where
  "isIndependent d \<longleftrightarrow> d = INDEPENDENT"

definition getBlocks :: "nd_range \<Rightarrow> u32 option" where
  "getBlocks r = map_option ucast (product_of_dims (gridDim r))"

record launch_response_token =
  receiver :: actor
  device_num :: int
  stream_id :: int
  memory_size :: int
  response_range :: nd_range
  response_id :: string
  released :: bool
  reclaim_value :: int
  reclaim_memory_returned :: int
  reclaim_runtime :: int
  reclaim_dependency :: int
  send_mail :: bool

record memory_response_token =
  mreceiver :: actor
  mdevice_num :: int
  mstream_id :: int
  mmemory_size :: int
  mdirection :: int
  mreleased :: bool

definition make_launch_token :: "nat \<Rightarrow> nd_range \<Rightarrow> int \<Rightarrow> string \<Rightarrow> actor \<Rightarrow> int \<Rightarrow> token" where
  "make_launch_token prog dims usage i reply_to dep =
     Launch \<lparr>program = prog, range_dims = dims, memory_usage = usage, launch_id = i, reply_handle = reply_to,
             launch_dependency = dep\<rparr>"

definition make_memory_token :: "int \<Rightarrow> int \<Rightarrow> actor \<Rightarrow> int \<Rightarrow> token" where
  "make_memory_token sz dir reply_to dep =
     Memory \<lparr>transfer_size = sz, direction = dir, replyActor = reply_to, transfer_dependency = dep\<rparr>"

definition make_launch_response_token ::
    "actor \<Rightarrow> launch_token \<Rightarrow> int \<Rightarrow> int \<Rightarrow> int \<Rightarrow> int \<Rightarrow> launch_response_token" where
  "make_launch_response_token rcv orig dev sid value runtime =
     \<lparr>receiver = rcv, device_num = dev, stream_id = sid, memory_size = memory_usage orig,
      response_range = range_dims orig, response_id = launch_id orig, released = False, reclaim_value = value,
      reclaim_memory_returned = memory_usage orig, reclaim_runtime = runtime,
      reclaim_dependency = launch_dependency orig, send_mail = True\<rparr>"

definition make_memory_response_token :: "actor \<Rightarrow> memory_transfer_token \<Rightarrow> int \<Rightarrow> int \<Rightarrow> memory_response_token" where
  "make_memory_response_token rcv orig dev sid =
     \<lparr>mreceiver = rcv, mdevice_num = dev, mstream_id = sid, mmemory_size = transfer_size orig,
      mdirection = direction orig, mreleased = False\<rparr>"

text \<open>The messages of a token to the scheduler actor that issued it.\<close>

datatype token_mail =
    Reclaim int int int int int
  | Word string

definition release_launch_response :: "launch_response_token \<Rightarrow> launch_response_token \<times> (actor \<times> token_mail) list" where
  "release_launch_response t =
     (if released t then (t, [])
      else if \<not> send_mail t then (t\<lparr>released := True\<rparr>, [])
      else (t\<lparr>released := True\<rparr>,
            [(receiver t, Reclaim (reclaim_value t) (reclaim_memory_returned t) (reclaim_runtime t)
                            (reclaim_dependency t) (stream_id t))]))"

definition release_memory_response :: "memory_response_token \<Rightarrow> memory_response_token \<times> (actor \<times> token_mail) list" where
  "release_memory_response t =
     (if mreleased t then (t, [])
      else (t\<lparr>mreleased := True\<rparr>, [(mreceiver t, Word ''Hello world from memory response'')]))"

section \<open>Lemmas\<close>

lemma release_sends_once:
  "snd (release_launch_response (fst (release_launch_response t))) = []"
  "snd (release_memory_response (fst (release_memory_response m))) = []"
  by (simp_all add: release_launch_response_def release_memory_response_def)

lemma dims_defined:
  assumes "length v = 3"
  shows "\<exists>n. product_of_dims v = Some n" "\<exists>s. show_dims v = Some s"
  using assms by (simp_all add: product_of_dims_def show_dims_def dim_def)

text \<open>Ranges from six integers or from vectors have all dimensions; a default range has not.\<close>

lemma nd_range_dims_defined:
  "nd_range_of_vectors grid block = Some r \<Longrightarrow> \<exists>n. get_num_blocks r = Some n"
  "nd_range_of_ints hasher gx gy gz bx by bz = Some r \<Longrightarrow> \<exists>n. get_num_blocks r = Some n"
  by (auto simp: nd_range_of_vectors_def nd_range_of_ints_def computeHash_def get_num_blocks_def dims_defined
      split: if_splits)

lemma nd_range_default_undefined: "get_num_blocks nd_range_default = None" "getBlocks nd_range_default = None"
  by (simp_all add: get_num_blocks_def getBlocks_def nd_range_default_def product_of_dims_def dim_def)

text \<open>A range from vectors keeps the hash value zero, whatever its dimensions.\<close>

lemma nd_range_of_vectors_unhashed: "nd_range_of_vectors grid block = Some r \<Longrightarrow> hashValue r = 0"
  by (auto simp: nd_range_of_vectors_def split: if_splits)

end
