(* ===== verification/Cuda_Scheduler.thy ===== *)
theory Cuda_Scheduler
  imports Cuda_Tokens "HOL-Library.Multiset"
begin

text \<open>
  The scheduler actors of the control layer (\<^verbatim>\<open>src/control-layer/scheduler_actor.cpp\<close>) with the manager's
  functions that start them and distribute tokens (\<^verbatim>\<open>src/manager.cpp\<close>). Each message handler is a
  function on the state of an actor that also returns what it sends; the actors of all devices, the messages
  in flight and the response tokens in the hands of clients are a step relation.
\<close>

section \<open>Model of a scheduler actor\<close>

record scheduler_actor =
  self :: actor
  device_number :: int
  num_streams :: int
  stream_depth :: int
  multi_gpu :: bool
  in_flight :: int
  queue :: "token list"
  schedulers :: "actor list"
  victims :: "actor list"
  available_streams :: "int list"
  current_backoff :: int
  awaiting_steal :: bool

text \<open>
  What a handler sends: a response token to a client, a request for work to another scheduler, and the
  delayed message to itself.
\<close>

datatype effect =
    Respond actor launch_token launch_response_token
  | Respond_memory actor memory_response_token
  | Request_steal actor int
  | Retry_later int

definition mk_scheduler_actor :: "actor \<Rightarrow> int \<Rightarrow> int \<Rightarrow> int \<Rightarrow> bool \<Rightarrow> scheduler_actor" where
  "mk_scheduler_actor me dev streams depth multi =
     \<lparr>self = me, device_number = dev, num_streams = streams, stream_depth = depth, multi_gpu = multi, in_flight = 0,
      queue = [], schedulers = [], victims = [],
      available_streams = concat (replicate (nat depth) (map int [0..<nat streams])),
      current_backoff = 0, awaiting_steal = False\<rparr>"

function dispatch_loop :: "scheduler_actor \<Rightarrow> scheduler_actor \<times> effect list" where
  "dispatch_loop s =
     (case (queue s, available_streams s) of
        (tok # toks, sid # sids) \<Rightarrow>
          (case tok of
             Launch launch \<Rightarrow>
               (case dispatch_loop (s\<lparr>queue := toks, in_flight := in_flight s + 1, available_streams := sids\<rparr>) of
                  (s', es) \<Rightarrow>
                    (s', Respond (reply_handle launch) launch
                           (make_launch_response_token (self s) launch (device_number s) sid 0 0) # es))
           | _ \<Rightarrow> dispatch_loop (s\<lparr>queue := toks\<rparr>))
      | _ \<Rightarrow> (s, []))"
  by pat_completeness auto
termination
  by (relation "measure (\<lambda>s. length (queue s))") (auto, (metis length_Cons lessI)+)

declare dispatch_loop.simps [simp del]

text \<open>The second half of \<^verbatim>\<open>schedule_work\<close>. The random choice of a victim is the argument \<open>idx\<close>.\<close>

definition steal_work :: "nat \<Rightarrow> scheduler_actor \<Rightarrow> scheduler_actor \<times> effect list" where
  "steal_work idx s =
     (if multi_gpu s \<and> queue s = [] \<and> in_flight s < num_streams s * stream_depth s div 2 \<and>
         \<not> awaiting_steal s \<and> current_backoff s = 0 \<and> victims s \<noteq> []
      then (s\<lparr>awaiting_steal := True\<rparr>, [Request_steal (victims s ! idx) (device_number s)])
      else (s, []))"

definition schedule_work :: "nat \<Rightarrow> scheduler_actor \<Rightarrow> scheduler_actor \<times> effect list" where
  "schedule_work idx s =
     (case dispatch_loop s of (s1, es) \<Rightarrow> case steal_work idx s1 of (s2, fs) \<Rightarrow> (s2, es @ fs))"

definition on_receive :: "nat \<Rightarrow> token \<Rightarrow> scheduler_actor \<Rightarrow> scheduler_actor \<times> effect list" where
  "on_receive idx tok s =
     (let s = s\<lparr>current_backoff := 0\<rparr> in
      case tok of
        Launch _ \<Rightarrow> schedule_work idx (s\<lparr>queue := queue s @ [tok]\<rparr>)
      | Memory mem \<Rightarrow>
          (s, [Respond_memory (replyActor mem) (make_memory_response_token (self s) mem (device_number s) 0)])
      | Other _ \<Rightarrow> (s, []))"

definition on_receive_batch :: "nat \<Rightarrow> token list \<Rightarrow> scheduler_actor \<Rightarrow> scheduler_actor \<times> effect list" where
  "on_receive_batch idx toks s =
     (let s = (if toks \<noteq> [] then s\<lparr>current_backoff := 0\<rparr> else s)
      in schedule_work idx (s\<lparr>queue := queue s @ toks\<rparr>))"

definition on_reclaim :: "nat \<Rightarrow> int \<Rightarrow> scheduler_actor \<Rightarrow> scheduler_actor \<times> effect list" where
  "on_reclaim idx sid s =
     schedule_work idx (s\<lparr>in_flight := (if in_flight s > 0 then in_flight s - 1 else in_flight s),
                          available_streams := available_streams s @ [sid]\<rparr>)"

definition on_set_neighbors :: "actor list \<Rightarrow> scheduler_actor \<Rightarrow> scheduler_actor" where
  "on_set_neighbors neighbors s =
     s\<lparr>schedulers := neighbors, victims := filter (\<lambda>n. n \<noteq> self s) neighbors\<rparr>"

definition on_steal_request :: "scheduler_actor \<Rightarrow> token list \<times> scheduler_actor" where
  "on_steal_request s =
     (if length (queue s) > 0
      then let to_give = length (queue s) div 2
           in (take to_give (queue s), s\<lparr>queue := drop to_give (queue s)\<rparr>)
      else ([], s))"

definition on_word :: "nat \<Rightarrow> string \<Rightarrow> scheduler_actor \<Rightarrow> scheduler_actor \<times> effect list" where
  "on_word idx word s =
     (if word = ''retry_steal'' then schedule_work idx (s\<lparr>current_backoff := 0\<rparr>) else (s, []))"

text \<open>The two continuations of the request for work.\<close>

definition on_stolen :: "nat \<Rightarrow> token list \<Rightarrow> scheduler_actor \<Rightarrow> scheduler_actor \<times> effect list" where
  "on_stolen idx stolen s =
     (let s = s\<lparr>awaiting_steal := False\<rparr> in
      if stolen \<noteq> [] then on_receive_batch idx stolen s
      else let b = (if current_backoff s = 0 then 1 else min 100 (current_backoff s * 2))
           in (s\<lparr>current_backoff := b\<rparr>, [Retry_later b]))"

definition on_steal_error :: "scheduler_actor \<Rightarrow> scheduler_actor \<times> effect list" where
  "on_steal_error s =
     (let s = s\<lparr>awaiting_steal := False\<rparr>;
          b = (if current_backoff s = 0 then 50 else min 500 (current_backoff s * 2))
      in (s\<lparr>current_backoff := b\<rparr>, [Retry_later b]))"

section \<open>Model of the manager's part\<close>

text \<open>The actors of \<open>n\<close> devices; with more than one, every actor learns all of them.\<close>

definition spawn_schedulers :: "nat \<Rightarrow> int \<Rightarrow> int \<Rightarrow> scheduler_actor list" where
  "spawn_schedulers n streams depth = map (\<lambda>i. mk_scheduler_actor i (int i) streams depth (n > 1)) [0..<n]"

text \<open>How a list of tokens is spread over the schedulers, with the index of the receiver of every chunk.\<close>

fun spread :: "nat \<Rightarrow> nat \<Rightarrow> nat \<Rightarrow> nat \<Rightarrow> token list \<Rightarrow> (actor \<times> token list) list" where
  "spread 0 i base_chunk remainder it = []"
| "spread (Suc n) i base_chunk remainder it =
     (let count = base_chunk + (if i < remainder then 1 else 0) in
      if count = 0 then spread n (Suc i) base_chunk remainder it
      else (i, take count it) # spread n (Suc i) base_chunk remainder (drop count it))"

definition send_scheduler_actor_messages :: "nat \<Rightarrow> token list \<Rightarrow> (actor \<times> token list) list" where
  "send_scheduler_actor_messages num_schedulers tokens =
     (if num_schedulers = 0 then []
      else spread num_schedulers 0 (length tokens div num_schedulers) (length tokens mod num_schedulers) tokens)"

text \<open>Out of range is undefined behaviour (\<^term>\<open>None\<close>), as is an empty vector after the check (an exception).\<close>

definition get_scheduler_actor :: "actor list \<Rightarrow> int \<Rightarrow> actor option" where
  "get_scheduler_actor actors n =
     (if actors = [] then None
      else if 0 \<le> n \<and> nat n < length actors then Some (actors ! nat n)
      else let idx = (if n < 0 then - (- n mod int (length actors)) else n mod int (length actors))
           in if 0 \<le> idx then Some (actors ! nat idx) else None)"

section \<open>The actors, their messages and their clients\<close>

datatype msg =
    Token token
  | Batch "token list"
  | Mail token_mail
  | Neighbors "actor list"
  | Steal_from actor
  | Stolen "token list"
  | Steal_failed

text \<open>
  \<open>held\<close> are the response tokens sent to clients; \<open>retries\<close> counts the delayed messages of each actor. The
  ghost variables \<open>submitted\<close> and \<open>granted\<close> record the launches that arrived and those that were answered.
\<close>

record network =
  spawned :: bool
  actors :: "scheduler_actor list"
  mails :: "(actor \<times> msg) multiset"
  held :: "launch_response_token multiset"
  mheld :: "memory_response_token multiset"
  retries :: "actor multiset"
  submitted :: "launch_token multiset"
  granted :: "launch_token multiset"

definition launches :: "token list \<Rightarrow> launch_token multiset" where
  "launches toks = mset (List.map_filter (\<lambda>t. case t of Launch l \<Rightarrow> Some l | _ \<Rightarrow> None) toks)"

definition emit :: "actor \<Rightarrow> effect \<Rightarrow> network \<Rightarrow> network" where
  "emit me e w = (case e of
     Respond _ l t \<Rightarrow> w\<lparr>held := add_mset t (held w), granted := add_mset l (granted w)\<rparr>
   | Respond_memory _ t \<Rightarrow> w\<lparr>mheld := add_mset t (mheld w)\<rparr>
   | Request_steal victim _ \<Rightarrow> w\<lparr>mails := add_mset (victim, Steal_from me) (mails w)\<rparr>
   | Retry_later _ \<Rightarrow> w\<lparr>retries := add_mset me (retries w)\<rparr>)"

definition put :: "actor \<Rightarrow> scheduler_actor \<times> effect list \<Rightarrow> network \<Rightarrow> network" where
  "put i r w = fold (emit i) (snd r) (w\<lparr>actors := (actors w)[i := fst r]\<rparr>)"

definition send_all :: "(actor \<times> msg) list \<Rightarrow> network \<Rightarrow> network" where
  "send_all ms w = w\<lparr>mails := mails w + mset ms\<rparr>"

lemma emit_spawned [simp]: "spawned (emit me e w) = spawned w"
  by (simp add: emit_def split: effect.split)

lemma put_spawned [simp]: "spawned (put i r w) = spawned w"
proof -
  have "spawned (fold (emit i) es w) = spawned w" for es w
    by (induction es arbitrary: w) simp_all
  then show ?thesis by (simp add: put_def)
qed

text \<open>Handling a message that has been taken out of the mails.\<close>

definition handle_msg :: "nat \<Rightarrow> actor \<Rightarrow> msg \<Rightarrow> network \<Rightarrow> network" where
  "handle_msg idx i m w =
     (let s = actors w ! i in
      case m of
        Token t \<Rightarrow> put i (on_receive idx t s) w
      | Batch ts \<Rightarrow> put i (on_receive_batch idx ts s) w
      | Mail (Reclaim _ _ _ _ sid) \<Rightarrow> put i (on_reclaim idx sid s) w
      | Mail (Word x) \<Rightarrow> put i (on_word idx x s) w
      | Neighbors ns \<Rightarrow> put i (on_set_neighbors ns s, []) w
      | Steal_from j \<Rightarrow> (case on_steal_request s of (ts, s') \<Rightarrow> send_all [(j, Stolen ts)] (put i (s', []) w))
      | Stolen ts \<Rightarrow> put i (on_stolen idx ts s) w
      | Steal_failed \<Rightarrow> put i (on_steal_error s) w)"

inductive net_step :: "network \<Rightarrow> network \<Rightarrow> bool" where
  submit: "i < length (actors w) \<Longrightarrow>
    net_step w (send_all [(i, Token t)] (w\<lparr>submitted := submitted w + launches [t]\<rparr>))"
| submit_batch: "actors w \<noteq> [] \<Longrightarrow>
    net_step w (send_all (map (\<lambda>(i, ts). (i, Batch ts)) (send_scheduler_actor_messages (length (actors w)) ts))
                 (w\<lparr>submitted := submitted w + launches ts\<rparr>))"
| deliver: "(i, m) \<in># mails w \<Longrightarrow> i < length (actors w) \<Longrightarrow> (victims (actors w ! i) \<noteq> [] \<Longrightarrow> idx < length (victims (actors w ! i))) \<Longrightarrow>
    net_step w (handle_msg idx i m (w\<lparr>mails := mails w - {#(i, m)#}\<rparr>))"
| timer: "i \<in># retries w \<Longrightarrow> (victims (actors w ! i) \<noteq> [] \<Longrightarrow> idx < length (victims (actors w ! i))) \<Longrightarrow>
    net_step w (put i (on_word idx ''retry_steal'' (actors w ! i)) (w\<lparr>retries := retries w - {#i#}\<rparr>))"
| release: "t \<in># held w \<Longrightarrow> release_launch_response t = (t', ms) \<Longrightarrow>
    net_step w (send_all (map (\<lambda>(i, m). (i, Mail m)) ms) (w\<lparr>held := add_mset t' (held w - {#t#})\<rparr>))"
| release_memory: "t \<in># mheld w \<Longrightarrow> release_memory_response t = (t', ms) \<Longrightarrow>
    net_step w (send_all (map (\<lambda>(i, m). (i, Mail m)) ms) (w\<lparr>mheld := add_mset t' (mheld w - {#t#})\<rparr>))"
| bounce: "(v, Steal_from j) \<in># mails w \<Longrightarrow>
    net_step w (w\<lparr>mails := add_mset (j, Steal_failed) (mails w - {#(v, Steal_from j)#})\<rparr>)"

text \<open>The manager before its first call, and the call, which has no effect once the actors have been spawned.\<close>

definition no_schedulers :: network where
  "no_schedulers = \<lparr>spawned = False, actors = [], mails = {#}, held = {#}, mheld = {#}, retries = {#}, submitted = {#},
     granted = {#}\<rparr>"

definition toggle_scheduler_actor :: "nat \<Rightarrow> int \<Rightarrow> int \<Rightarrow> network \<Rightarrow> network" where
  "toggle_scheduler_actor n streams depth w =
     (if spawned w then w
      else
        let as = actors w @ spawn_schedulers n streams depth;
            links = (if n > 1 then map (\<lambda>i. (i, Neighbors [0..<length as])) [0..<length as] else [])
        in w\<lparr>actors := as, mails := mails w + mset links, spawned := True\<rparr>)"

inductive net_reachable :: "nat \<Rightarrow> int \<Rightarrow> int \<Rightarrow> network \<Rightarrow> bool" for n streams depth where
  start: "net_reachable n streams depth (toggle_scheduler_actor n streams depth no_schedulers)"
| toggle: "net_reachable n streams depth w \<Longrightarrow> net_reachable n streams depth (toggle_scheduler_actor n' streams' depth' w)"
| step: "net_reachable n streams depth w \<Longrightarrow> net_step w w' \<Longrightarrow> net_reachable n streams depth w'"

section \<open>What a handler moves\<close>

definition grants :: "effect list \<Rightarrow> launch_response_token multiset" where
  "grants es = mset (List.map_filter (\<lambda>e. case e of Respond _ _ t \<Rightarrow> Some t | _ \<Rightarrow> None) es)"

definition granted_launches :: "effect list \<Rightarrow> launch_token multiset" where
  "granted_launches es = mset (List.map_filter (\<lambda>e. case e of Respond _ l _ \<Rightarrow> Some l | _ \<Rightarrow> None) es)"

definition steal_mails :: "actor \<Rightarrow> effect list \<Rightarrow> (actor \<times> msg) multiset" where
  "steal_mails me es = mset (List.map_filter (\<lambda>e. case e of Request_steal v _ \<Rightarrow> Some (v, Steal_from me) | _ \<Rightarrow> None) es)"

definition memory_grants :: "effect list \<Rightarrow> memory_response_token multiset" where
  "memory_grants es = mset (List.map_filter (\<lambda>e. case e of Respond_memory _ t \<Rightarrow> Some t | _ \<Rightarrow> None) es)"

definition retry_timers :: "actor \<Rightarrow> effect list \<Rightarrow> actor multiset" where
  "retry_timers me es = mset (List.map_filter (\<lambda>e. case e of Retry_later _ \<Rightarrow> Some me | _ \<Rightarrow> None) es)"

lemmas effect_views = grants_def granted_launches_def steal_mails_def memory_grants_def retry_timers_def

lemma effect_views_Nil [simp]:
  "grants [] = {#}" "granted_launches [] = {#}" "steal_mails me [] = {#}" "memory_grants [] = {#}" "retry_timers me [] = {#}"
  by (simp_all add: effect_views List.map_filter_def)

lemma effect_views_Cons [simp]:
  "grants (e # es) = (case e of Respond _ _ t \<Rightarrow> {#t#} | _ \<Rightarrow> {#}) + grants es"
  "granted_launches (e # es) = (case e of Respond _ l _ \<Rightarrow> {#l#} | _ \<Rightarrow> {#}) + granted_launches es"
  "steal_mails me (e # es) = (case e of Request_steal v _ \<Rightarrow> {#(v, Steal_from me)#} | _ \<Rightarrow> {#}) + steal_mails me es"
  "memory_grants (e # es) = (case e of Respond_memory _ t \<Rightarrow> {#t#} | _ \<Rightarrow> {#}) + memory_grants es"
  "retry_timers me (e # es) = (case e of Retry_later _ \<Rightarrow> {#me#} | _ \<Rightarrow> {#}) + retry_timers me es"
  by (auto simp: effect_views List.map_filter_def split: effect.splits)

lemma effect_views_append [simp]:
  "grants (es @ fs) = grants es + grants fs"
  "granted_launches (es @ fs) = granted_launches es + granted_launches fs"
  "steal_mails me (es @ fs) = steal_mails me es + steal_mails me fs"
  "memory_grants (es @ fs) = memory_grants es + memory_grants fs"
  "retry_timers me (es @ fs) = retry_timers me es + retry_timers me fs"
  by (simp_all add: effect_views List.map_filter_def)

lemma launches_simps [simp]:
  "launches [] = {#}"
  "launches (t # ts) = (case t of Launch l \<Rightarrow> {#l#} | _ \<Rightarrow> {#}) + launches ts"
  "launches (ts @ us) = launches ts + launches us"
  by (auto simp: launches_def List.map_filter_def split: token.splits)

lemma fold_emit:
  "fold (emit i) es w = w\<lparr>held := held w + grants es, granted := granted w + granted_launches es,
     mails := mails w + steal_mails i es, mheld := mheld w + memory_grants es, retries := retries w + retry_timers i es\<rparr>"
  by (induction es arbitrary: w) (auto simp: emit_def ac_simps split: effect.splits)

lemma put_eq:
  "put i (s, es) w = w\<lparr>actors := (actors w)[i := s], held := held w + grants es, granted := granted w + granted_launches es,
     mails := mails w + steal_mails i es, mheld := mheld w + memory_grants es, retries := retries w + retry_timers i es\<rparr>"
  by (simp add: put_def fold_emit)

text \<open>
  A handler that ends with \<^const>\<open>schedule_work\<close>: streams go from the pool into response tokens, launches from the
  queue to the clients, and afterwards the queue or the pool is empty.
\<close>

definition moves :: "scheduler_actor \<Rightarrow> scheduler_actor \<times> effect list \<Rightarrow> bool" where
  "moves s r \<longleftrightarrow> (case r of (s', es) \<Rightarrow>
     self s' = self s \<and> num_streams s' = num_streams s \<and> stream_depth s' = stream_depth s \<and> victims s' = victims s \<and>
     mset (available_streams s) = mset (available_streams s') + image_mset stream_id (grants es) \<and>
     in_flight s' = in_flight s + int (size (grants es)) \<and>
     launches (queue s) = launches (queue s') + granted_launches es \<and>
     (\<forall>t \<in># grants es. receiver t = self s \<and> \<not> released t \<and> send_mail t) \<and>
     (queue s' = [] \<or> available_streams s' = []))"

lemma dispatch_loop_moves:
  "moves s (dispatch_loop s) \<and> (case dispatch_loop s of (s', es) \<Rightarrow>
     current_backoff s' = current_backoff s \<and> awaiting_steal s' = awaiting_steal s \<and> steal_mails i es = {#} \<and>
     retry_timers i es = {#} \<and> memory_grants es = {#})"
proof (induction s rule: dispatch_loop.induct)
  case (1 s)
  show ?case
  proof (cases "queue s")
    case Nil
    then show ?thesis by (simp add: dispatch_loop.simps [of s] moves_def)
  next
    case q: (Cons tok toks)
    show ?thesis
    proof (cases "available_streams s")
      case Nil
      with q show ?thesis by (simp add: dispatch_loop.simps [of s] moves_def)
    next
      case a: (Cons sid sids)
      show ?thesis
      proof (cases tok)
        case (Launch l)
        from 1(1) [OF refl q a Launch] show ?thesis
          unfolding dispatch_loop.simps [of s] using q a Launch
          by (auto simp: moves_def make_launch_response_token_def split: prod.splits)
      next
        case (Memory m)
        from 1(2) [OF refl q a Memory] show ?thesis
          unfolding dispatch_loop.simps [of s] using q a Memory by (auto simp: moves_def split: prod.splits)
      next
        case (Other m)
        from 1(3) [OF refl q a Other] show ?thesis
          unfolding dispatch_loop.simps [of s] using q a Other by (auto simp: moves_def split: prod.splits)
      qed
    qed
  qed
qed

text \<open>Steal requests go to a neighbor, one at a time and only without backoff.\<close>

definition may_steal :: "actor \<Rightarrow> scheduler_actor \<Rightarrow> scheduler_actor \<times> effect list \<Rightarrow> bool" where
  "may_steal i s r \<longleftrightarrow> (case r of (s', es) \<Rightarrow>
     current_backoff s' = current_backoff s \<and> retry_timers i es = {#} \<and> memory_grants es = {#} \<and>
     (awaiting_steal s' = awaiting_steal s \<and> steal_mails i es = {#} \<or>
      awaiting_steal s' \<and> \<not> awaiting_steal s \<and> current_backoff s = 0 \<and>
      (\<exists>v \<in> set (victims s). steal_mails i es = {#(v, Steal_from i)#})))"

lemma schedule_work_ok:
  assumes "victims s \<noteq> [] \<Longrightarrow> idx < length (victims s)"
  shows "moves s (schedule_work idx s)" "may_steal i s (schedule_work idx s)"
  using dispatch_loop_moves [of s i] assms
  by (auto simp: schedule_work_def steal_work_def moves_def may_steal_def split: prod.splits)

section \<open>Invariant of the network\<close>

definition mail_tokens :: "msg \<Rightarrow> token list" where
  "mail_tokens m = (case m of Token t \<Rightarrow> [t] | Batch ts \<Rightarrow> ts | Stolen ts \<Rightarrow> ts | _ \<Rightarrow> [])"

definition reclaim_sid :: "msg \<Rightarrow> int multiset" where
  "reclaim_sid m = (case m of Mail (Reclaim _ _ _ _ sid) \<Rightarrow> {#sid#} | _ \<Rightarrow> {#})"

definition is_reply :: "msg \<Rightarrow> bool" where
  "is_reply m \<longleftrightarrow> (case m of Stolen _ \<Rightarrow> True | Steal_failed \<Rightarrow> True | _ \<Rightarrow> False)"

definition mail_launches :: "(actor \<times> msg) multiset \<Rightarrow> launch_token multiset" where
  "mail_launches M = (\<Sum>p\<in>#M. launches (mail_tokens (snd p)))"

definition reclaims :: "actor \<Rightarrow> (actor \<times> msg) multiset \<Rightarrow> int multiset" where
  "reclaims i M = (\<Sum>p\<in>#M. if fst p = i then reclaim_sid (snd p) else {#})"

definition steals :: "actor \<Rightarrow> (actor \<times> msg) multiset \<Rightarrow> nat" where
  "steals i M = (\<Sum>p\<in>#M. of_bool (snd p = Steal_from i) + of_bool (fst p = i \<and> is_reply (snd p)))"

definition outstanding :: "actor \<Rightarrow> launch_response_token multiset \<Rightarrow> launch_response_token multiset" where
  "outstanding i H = {#t \<in># H. receiver t = i \<and> \<not> released t#}"

definition slots :: "int \<Rightarrow> int \<Rightarrow> int multiset" where
  "slots streams depth = mset (concat (replicate (nat depth) (map int [0..<nat streams])))"

lemmas mail_views = mail_launches_def reclaims_def steals_def

lemma mail_views_simps [simp]:
  "mail_launches {#} = {#}" "reclaims i {#} = {#}" "steals i {#} = 0"
  "mail_launches (add_mset p M) = launches (mail_tokens (snd p)) + mail_launches M"
  "reclaims i (add_mset p M) = (if fst p = i then reclaim_sid (snd p) else {#}) + reclaims i M"
  "steals i (add_mset p M) = of_bool (snd p = Steal_from i) + of_bool (fst p = i \<and> is_reply (snd p)) + steals i M"
  "mail_launches (M + N) = mail_launches M + mail_launches N"
  "reclaims i (M + N) = reclaims i M + reclaims i N"
  "steals i (M + N) = steals i M + steals i N"
  by (simp_all add: mail_views)

lemma msg_views_simps [simp]:
  "mail_tokens (Token t) = [t]" "mail_tokens (Batch ts) = ts" "mail_tokens (Stolen ts) = ts" "mail_tokens (Mail x) = []"
  "mail_tokens (Neighbors ns) = []" "mail_tokens (Steal_from j) = []" "mail_tokens Steal_failed = []"
  "reclaim_sid (Mail (Reclaim a b c d sid)) = {#sid#}" "reclaim_sid (Mail (Word y)) = {#}" "reclaim_sid (Token t) = {#}"
  "reclaim_sid (Batch ts) = {#}" "reclaim_sid (Stolen ts) = {#}" "reclaim_sid (Neighbors ns) = {#}"
  "reclaim_sid (Steal_from j) = {#}" "reclaim_sid Steal_failed = {#}"
  "is_reply (Stolen ts)" "is_reply Steal_failed" "\<not> is_reply (Token t)" "\<not> is_reply (Batch ts)" "\<not> is_reply (Mail x)"
  "\<not> is_reply (Neighbors ns)" "\<not> is_reply (Steal_from j)"
  by (simp_all add: mail_tokens_def reclaim_sid_def is_reply_def)

lemma outstanding_simps [simp]:
  "outstanding i {#} = {#}" "outstanding i (G + H) = outstanding i G + outstanding i H"
  "outstanding i (add_mset t H) = (if receiver t = i \<and> \<not> released t then {#t#} else {#}) + outstanding i H"
  by (simp_all add: outstanding_def)

text \<open>
  \<open>actor_pre\<close> is what holds of an actor in the middle of a handler: each of its streams is in its pool, in an
  unreleased response token or in a reclaim message, and it waits for at most one reply.
\<close>

definition actor_pre :: "nat \<Rightarrow> int \<Rightarrow> int \<Rightarrow> actor \<Rightarrow> scheduler_actor \<Rightarrow> (actor \<times> msg) multiset \<Rightarrow> launch_response_token multiset \<Rightarrow> bool" where
  "actor_pre n streams depth i s M H \<longleftrightarrow>
     self s = i \<and> num_streams s = streams \<and> stream_depth s = depth \<and> set (victims s) \<subseteq> {0..<n} \<and>
     mset (available_streams s) + image_mset stream_id (outstanding i H) + reclaims i M = slots streams depth \<and>
     in_flight s = int (size (outstanding i H) + size (reclaims i M)) \<and>
     of_bool (awaiting_steal s) = steals i M \<and> (awaiting_steal s \<longrightarrow> current_backoff s = 0) \<and>
     current_backoff s \<in> {0, 1, 50}"

definition actor_ok :: "nat \<Rightarrow> int \<Rightarrow> int \<Rightarrow> actor \<Rightarrow> scheduler_actor \<Rightarrow> (actor \<times> msg) multiset \<Rightarrow> launch_response_token multiset \<Rightarrow> bool" where
  "actor_ok n streams depth i s M H \<longleftrightarrow>
     actor_pre n streams depth i s M H \<and> (queue s = [] \<or> available_streams s = [])"

definition mail_ok :: "nat \<Rightarrow> actor \<times> msg \<Rightarrow> bool" where
  "mail_ok n p \<longleftrightarrow> fst p < n \<and> (case snd p of Steal_from j \<Rightarrow> j < n | Neighbors ns \<Rightarrow> set ns \<subseteq> {0..<n} | _ \<Rightarrow> True)"

definition net_ok :: "nat \<Rightarrow> network \<Rightarrow> bool" where
  "net_ok n w \<longleftrightarrow> length (actors w) = n \<and> (\<forall>p\<in>#mails w. mail_ok n p) \<and> (\<forall>i\<in>#retries w. i < n) \<and>
     (\<forall>t\<in>#held w. receiver t < n \<and> send_mail t) \<and> (\<forall>t\<in>#mheld w. mreceiver t < n)"

definition net_inv :: "nat \<Rightarrow> int \<Rightarrow> int \<Rightarrow> network \<Rightarrow> bool" where
  "net_inv n streams depth w \<longleftrightarrow> net_ok n w \<and>
     (\<forall>i<n. actor_ok n streams depth i (actors w ! i) (mails w) (held w)) \<and>
     submitted w = granted w + launches (concat (map queue (actors w))) + mail_launches (mails w)"

text \<open>The same in the middle of a handler of actor \<open>i\<close> whose state is \<open>s\<close>.\<close>

definition net_pre :: "nat \<Rightarrow> int \<Rightarrow> int \<Rightarrow> actor \<Rightarrow> scheduler_actor \<Rightarrow> network \<Rightarrow> bool" where
  "net_pre n streams depth i s w \<longleftrightarrow> net_ok n w \<and> i < n \<and> actor_pre n streams depth i s (mails w) (held w) \<and>
     (\<forall>j<n. j \<noteq> i \<longrightarrow> actor_ok n streams depth j (actors w ! j) (mails w) (held w)) \<and>
     submitted w = granted w + launches (concat (map queue ((actors w)[i := s]))) + mail_launches (mails w)"

lemma launches_update:
  assumes "i < length xs"
  shows "launches (concat (map queue (xs[i := s]))) =
    launches (queue s) + (launches (concat (map queue (take i xs))) + launches (concat (map queue (drop (Suc i) xs))))"
  using assms by (simp add: upd_conv_take_nth_drop ac_simps)

lemma put_schedule:
  assumes pre: "net_pre n streams depth i s w" and r: "moves s (s', es)" "may_steal i s (s', es)"
  shows "net_inv n streams depth (put i (s', es) w)"
proof -
  have i: "i < length (actors w)" "i < n" "self s = i" using pre by (auto simp: net_pre_def net_ok_def actor_pre_def)
  have g: "outstanding j (grants es) = (if j = i then grants es else {#})" for j
    using r(1) i(3) by (auto simp: moves_def outstanding_def filter_mset_eq_conv)
  have st: "steals j (steal_mails i es) = (if j = i then size (steal_mails i es) else 0)" "reclaims j (steal_mails i es) = {#}"
    "mail_launches (steal_mails i es) = {#}" "\<forall>p\<in>#steal_mails i es. mail_ok n p" for j
    using r(2) pre i by (auto simp: may_steal_def net_pre_def actor_pre_def mail_ok_def)
  have own: "actor_ok n streams depth i s' (mails w + steal_mails i es) (held w + grants es)"
    using pre r i g st(2) by (auto simp: net_pre_def actor_ok_def actor_pre_def moves_def may_steal_def ac_simps)
  have other: "actor_ok n streams depth j (actors w ! j) (mails w + steal_mails i es) (held w + grants es)" if "j < n" "j \<noteq> i" for j
    using pre that g [of j] st(1,2) [of j] by (simp add: net_pre_def actor_ok_def actor_pre_def)
  have ok: "net_ok n (put i (s', es) w)"
    using pre r st(4) i by (auto simp: net_pre_def net_ok_def put_eq moves_def may_steal_def)
  have "submitted w = granted w + granted_launches es + launches (concat (map queue ((actors w)[i := s']))) + mail_launches (mails w)"
    using pre r(1) unfolding net_pre_def launches_update [OF i(1)] by (simp add: moves_def ac_simps)
  with ok own other i(1) st(3) show ?thesis
    by (auto simp: net_inv_def put_eq nth_list_update net_ok_def)
qed

text \<open>A handler that sends nothing but a timer or a memory response.\<close>

lemma put_quiet:
  assumes pre: "net_pre n streams depth i s w" and q: "queue s = [] \<or> available_streams s = []"
    and es: "grants es = {#}" "granted_launches es = {#}" "steal_mails i es = {#}" "\<forall>j\<in>#retry_timers i es. j = i"
      "\<forall>t\<in>#memory_grants es. mreceiver t = i"
  shows "net_inv n streams depth (put i (s, es) w)"
proof -
  have i: "i < length (actors w)" "i < n" using pre by (auto simp: net_pre_def net_ok_def)
  have "net_ok n (put i (s, es) w)" using pre es i by (auto simp: net_pre_def net_ok_def put_eq)
  with pre q es i show ?thesis
    by (auto simp: net_inv_def net_pre_def put_eq nth_list_update actor_ok_def)
qed

lemma net_pre_taken:
  assumes inv: "net_inv n streams depth w" and m: "mails w = add_mset (i, m) M" and nj: "\<And>j. m \<noteq> Steal_from j"
    and i: "i < n"
    and own: "actor_pre n streams depth i (actors w ! i) (add_mset (i, m) M) (held w) \<Longrightarrow> actor_pre n streams depth i s M (held w)"
    and q: "launches (queue s) = launches (queue (actors w ! i)) + launches (mail_tokens m)"
  shows "net_pre n streams depth i s (w\<lparr>mails := M\<rparr>)"
proof -
  have len: "i < length (actors w)" using inv i by (simp add: net_inv_def net_ok_def)
  have "actor_ok n streams depth j (actors w ! j) M (held w)" if "j < n" "j \<noteq> i" for j
    using inv that nj [of j] unfolding net_inv_def m by (auto simp: actor_ok_def actor_pre_def)
  moreover have "actor_pre n streams depth i s M (held w)"
    using own inv i unfolding net_inv_def m by (auto simp: actor_ok_def)
  moreover have "submitted w = granted w + launches (concat (map queue ((actors w)[i := s]))) + mail_launches M"
  proof -
    have "launches (concat (map queue (actors w))) = launches (concat (map queue ((actors w)[i := actors w ! i])))" by simp
    then show ?thesis using inv q unfolding net_inv_def m launches_update [OF len] by (simp add: ac_simps)
  qed
  moreover have "net_ok n (w\<lparr>mails := M\<rparr>)" using inv unfolding net_inv_def net_ok_def by (simp add: m)
  ultimately show ?thesis using i by (simp add: net_pre_def)
qed

lemma net_pre_unchanged:
  assumes inv: "net_inv n streams depth w" and i: "i < n"
    and own: "actor_pre n streams depth i (actors w ! i) (mails w) (held w) \<Longrightarrow> actor_pre n streams depth i s (mails w) (held w)"
    and q: "queue s = queue (actors w ! i)" and R: "set_mset R \<subseteq> set_mset (retries w)"
  shows "net_pre n streams depth i s (w\<lparr>retries := R\<rparr>)"
proof -
  have len: "i < length (actors w)" using inv i by (simp add: net_inv_def net_ok_def)
  have "launches (concat (map queue ((actors w)[i := s]))) = launches (concat (map queue ((actors w)[i := actors w ! i])))"
    unfolding launches_update [OF len] q by simp
  with assms show ?thesis by (auto simp: net_pre_def net_inv_def net_ok_def actor_ok_def)
qed

lemma on_steal_request_parts:
  assumes "on_steal_request s = (ts, s')"
  shows "launches (queue s) = launches (queue s') + launches ts" "queue s = [] \<Longrightarrow> queue s' = []"
    "self s' = self s \<and> num_streams s' = num_streams s \<and> stream_depth s' = stream_depth s \<and> victims s' = victims s \<and>
       available_streams s' = available_streams s \<and> in_flight s' = in_flight s \<and>
       awaiting_steal s' = awaiting_steal s \<and> current_backoff s' = current_backoff s"
proof -
  let ?k = "length (queue s) div 2"
  have "launches (queue s) = launches (take ?k (queue s)) + launches (drop ?k (queue s))"
    unfolding launches_simps(3) [symmetric] append_take_drop_id ..
  with assms show "launches (queue s) = launches (queue s') + launches ts" "queue s = [] \<Longrightarrow> queue s' = []"
    "self s' = self s \<and> num_streams s' = num_streams s \<and> stream_depth s' = stream_depth s \<and> victims s' = victims s \<and>
       available_streams s' = available_streams s \<and> in_flight s' = in_flight s \<and>
       awaiting_steal s' = awaiting_steal s \<and> current_backoff s' = current_backoff s"
    by (auto simp: on_steal_request_def Let_def ac_simps split: if_splits)
qed

lemma of_bool_eq_Suc [simp]: "of_bool b = Suc k \<longleftrightarrow> b \<and> k = 0"
  by (cases b) auto

lemma handle_msg_inv:
  assumes inv: "net_inv n streams depth w" and m: "mails w = add_mset (i, m) M"
    and idx: "victims (actors w ! i) \<noteq> [] \<Longrightarrow> idx < length (victims (actors w ! i))"
  shows "net_inv n streams depth (handle_msg idx i m (w\<lparr>mails := M\<rparr>))"
proof -
  let ?s = "actors w ! i" and ?w = "w\<lparr>mails := M\<rparr>"
  have i: "i < n" and okm: "mail_ok n (i, m)" using inv by (auto simp: net_inv_def net_ok_def m mail_ok_def)
  have ok: "actor_ok n streams depth i ?s (add_mset (i, m) M) (held w)" using inv i by (simp add: net_inv_def m)
  note taken = net_pre_taken [OF inv m _ i]
  have sched: "net_inv n streams depth (put i (schedule_work idx s) ?w)"
    if "net_pre n streams depth i s ?w" "victims s = victims ?s" for s
    using put_schedule [OF that(1)] schedule_work_ok [of s idx] idx that(2) by (metis surj_pair)
  show ?thesis
  proof (cases m)
    case (Token t)
    show ?thesis
    proof (cases t)
      case (Launch l)
      have "net_pre n streams depth i (?s\<lparr>current_backoff := 0, queue := queue ?s @ [t]\<rparr>) ?w"
        by (rule taken) (auto simp: actor_pre_def Token Launch)
      from sched [OF this] show ?thesis by (simp add: handle_msg_def Let_def Token Launch on_receive_def Let_def)
    next
      case (Memory mem)
      have "net_pre n streams depth i (?s\<lparr>current_backoff := 0\<rparr>) ?w"
        by (rule taken) (auto simp: actor_pre_def Token Memory)
      from put_quiet [OF this] ok show ?thesis
        by (simp add: handle_msg_def Let_def Token Memory on_receive_def actor_ok_def actor_pre_def make_memory_response_token_def Let_def)
    next
      case (Other k)
      have "net_pre n streams depth i (?s\<lparr>current_backoff := 0\<rparr>) ?w"
        by (rule taken) (auto simp: actor_pre_def Token Other)
      from put_quiet [OF this] ok show ?thesis
        by (simp add: handle_msg_def Let_def Token Other on_receive_def actor_ok_def Let_def)
    qed
  next
    case (Batch ts)
    have "net_pre n streams depth i ((if ts \<noteq> [] then ?s\<lparr>current_backoff := 0\<rparr> else ?s)\<lparr>queue := queue ?s @ ts\<rparr>) ?w"
      by (rule taken) (auto simp: actor_pre_def Batch)
    from sched [OF this] show ?thesis by (cases "ts = []") (simp_all add: handle_msg_def Let_def Batch on_receive_batch_def Let_def)
  next
    case (Mail x)
    show ?thesis
    proof (cases x)
      case (Reclaim a b c d sid)
      have "net_pre n streams depth i (?s\<lparr>in_flight := (if in_flight ?s > 0 then in_flight ?s - 1 else in_flight ?s),
          available_streams := available_streams ?s @ [sid]\<rparr>) ?w"
        by (rule taken) (auto simp: actor_pre_def Mail Reclaim)
      from sched [OF this] show ?thesis by (simp add: handle_msg_def Let_def Mail Reclaim on_reclaim_def)
    next
      case (Word y)
      have pre: "net_pre n streams depth i ?s ?w" "net_pre n streams depth i (?s\<lparr>current_backoff := 0\<rparr>) ?w"
        by (rule taken; auto simp: actor_pre_def Mail Word)+
      from sched [OF pre(2)] put_quiet [OF pre(1), of "[]"] ok show ?thesis
        by (simp add: handle_msg_def Let_def Mail Word on_word_def actor_ok_def)
    qed
  next
    case (Neighbors ns)
    have "net_pre n streams depth i (on_set_neighbors ns ?s) ?w"
      using okm by (intro taken) (auto simp: actor_pre_def Neighbors on_set_neighbors_def mail_ok_def)
    from put_quiet [OF this, of "[]"] ok show ?thesis
      by (simp add: handle_msg_def Let_def Neighbors on_set_neighbors_def actor_ok_def)
  next
    case (Stolen ts)
    have aw: "awaiting_steal ?s" "steals i M = 0" "current_backoff ?s = 0"
      using ok by (auto simp: actor_ok_def actor_pre_def Stolen split: if_splits)
    show ?thesis
    proof (cases "ts = []")
      case True
      have "net_pre n streams depth i (?s\<lparr>awaiting_steal := False, current_backoff := 1\<rparr>) ?w"
        using aw by (intro taken) (auto simp: actor_pre_def Stolen True)
      from put_quiet [OF this, of "[Retry_later 1]"] ok aw show ?thesis
        by (simp add: handle_msg_def Let_def Stolen on_stolen_def True actor_ok_def)
    next
      case False
      have "net_pre n streams depth i (?s\<lparr>awaiting_steal := False, current_backoff := 0, queue := queue ?s @ ts\<rparr>) ?w"
        using aw by (intro taken) (auto simp: actor_pre_def Stolen)
      from sched [OF this] False show ?thesis
        by (simp add: handle_msg_def Let_def Stolen on_stolen_def on_receive_batch_def Let_def)
    qed
  next
    case Steal_failed
    have aw: "awaiting_steal ?s" "steals i M = 0" "current_backoff ?s = 0"
      using ok by (auto simp: actor_ok_def actor_pre_def Steal_failed split: if_splits)
    have "net_pre n streams depth i (?s\<lparr>awaiting_steal := False, current_backoff := 50\<rparr>) ?w"
      using aw by (intro taken) (auto simp: actor_pre_def Steal_failed)
    from put_quiet [OF this, of "[Retry_later 50]"] ok aw show ?thesis
      by (simp add: handle_msg_def Let_def Steal_failed on_steal_error_def actor_ok_def Let_def)
  next
    case (Steal_from j)
    obtain ts s' where r: "on_steal_request ?s = (ts, s')" by (cases "on_steal_request ?s")
    let ?w' = "w\<lparr>mails := add_mset (j, Stolen ts) M\<rparr>"
    have j: "j < n" using okm by (simp add: mail_ok_def Steal_from)
    have len: "i < length (actors w)" using inv i by (simp add: net_inv_def net_ok_def)
    note stolen = on_steal_request_parts [OF r]
    have q: "queue s' = [] \<or> available_streams s' = []" using stolen(2,3) ok by (auto simp: actor_ok_def)
    have same: "actor_pre n streams depth i s' N (held w) = actor_pre n streams depth i ?s N (held w)" for N
      by (simp add: actor_pre_def stolen(3))
    have views: "steals k (add_mset (j, Stolen ts) M) = steals k (add_mset (i, m) M)"
      "reclaims k (add_mset (j, Stolen ts) M) = reclaims k (add_mset (i, m) M)" for k
      by (simp_all add: Steal_from)
    have all: "actor_pre n streams depth k u (add_mset (j, Stolen ts) M) (held w) = actor_pre n streams depth k u (add_mset (i, m) M) (held w)" for k u
      by (simp only: actor_pre_def views)
    have sub: "submitted w = granted w + launches (concat (map queue ((actors w)[i := s']))) + mail_launches (add_mset (j, Stolen ts) M)"
    proof -
      have "launches (concat (map queue (actors w))) = launches (concat (map queue ((actors w)[i := ?s])))" by simp
      then show ?thesis using inv stolen(1) unfolding net_inv_def m launches_update [OF len]
        by (simp add: Steal_from ac_simps)
    qed
    have "net_ok n ?w'" using inv j unfolding net_inv_def net_ok_def by (simp add: m mail_ok_def)
    moreover have "\<forall>k<n. actor_ok n streams depth k (actors w ! k) (add_mset (i, m) M) (held w)"
      using inv by (simp add: net_inv_def m)
    ultimately have "net_pre n streams depth i s' ?w'"
      using i sub by (auto simp: net_pre_def actor_ok_def same all)
    from put_quiet [OF this q, of "[]"] r show ?thesis
      by (simp add: handle_msg_def Let_def Steal_from put_eq send_all_def)
  qed
qed

section \<open>Steps preserve the invariant\<close>

lemma spread_covers:
  assumes "length it = n * base + (r - i)" "r \<le> i + n"
  shows "concat (map snd (spread n i base r it)) = it \<and> (\<forall>p\<in>set (spread n i base r it). fst p < i + n)"
  using assms
proof (induction n i base r it rule: spread.induct)
  case (2 n i base r it)
  let ?c = "base + (if i < r then 1 else 0)"
  have len: "length (drop ?c it) = n * base + (r - Suc i)" "r \<le> Suc i + n" using 2(3,4) by (auto split: if_splits)
  show ?case
  proof (cases "?c = 0")
    case True
    with 2(1) [OF refl True] len show ?thesis by auto
  next
    case False
    from 2(2) [OF refl False len] False show ?thesis by (auto simp: Let_def)
  qed
qed simp

lemma send_messages_cover:
  assumes "0 < n"
  shows "concat (map snd (send_scheduler_actor_messages n ts)) = ts"
    "\<forall>p\<in>set (send_scheduler_actor_messages n ts). fst p < n"
  using spread_covers [of ts n "length ts div n" "length ts mod n" 0] assms
  by (auto simp: send_scheduler_actor_messages_def less_imp_le)

lemma batch_views:
  defines "ms cs \<equiv> mset (map (\<lambda>(i, ts). (i, Batch ts)) cs)"
  shows "mail_launches (ms cs) = launches (concat (map snd cs))" "reclaims k (ms cs) = {#}" "steals k (ms cs) = 0"
  unfolding ms_def by (induction cs) auto

lemma net_inv_send:
  assumes "net_inv n streams depth w" "\<forall>p\<in>#P. mail_ok n p" "\<And>k. reclaims k P = {#}" "\<And>k. steals k P = 0"
    "mail_launches P = L"
  shows "net_inv n streams depth (w\<lparr>submitted := submitted w + L, mails := mails w + P\<rparr>)"
  using assms by (auto simp: net_inv_def net_ok_def actor_ok_def actor_pre_def)

lemma net_inv_release:
  assumes inv: "net_inv n streams depth w" and t: "t \<in># held w" and r: "release_launch_response t = (t', ms)"
  shows "net_inv n streams depth (send_all (map (\<lambda>(i, m). (i, Mail m)) ms) (w\<lparr>held := add_mset t' (held w - {#t#})\<rparr>))"
proof -
  obtain H where H: "held w = add_mset t H" using t by (metis multi_member_split)
  have "receiver t < n" "send_mail t" using inv t by (auto simp: net_inv_def net_ok_def)
  show ?thesis
  proof (cases "released t")
    case True
    with r inv H show ?thesis by (simp add: release_launch_response_def send_all_def net_inv_def net_ok_def)
  next
    case False
    define m where "m = Mail (Reclaim (reclaim_value t) (reclaim_memory_returned t) (reclaim_runtime t) (reclaim_dependency t) (stream_id t))"
    have w': "send_all (map (\<lambda>(i, m). (i, Mail m)) ms) (w\<lparr>held := add_mset t' (held w - {#t#})\<rparr>) =
        w\<lparr>held := add_mset (t\<lparr>released := True\<rparr>) H, mails := add_mset (receiver t, m) (mails w)\<rparr>"
      using r False \<open>send_mail t\<close> by (auto simp: release_launch_response_def send_all_def H m_def)
    have "actor_ok n streams depth k (actors w ! k) (add_mset (receiver t, m) (mails w)) (add_mset (t\<lparr>released := True\<rparr>) H)"
      if "actor_ok n streams depth k (actors w ! k) (mails w) (add_mset t H)" for k
      using that False by (cases "receiver t = k") (simp_all add: actor_ok_def actor_pre_def m_def)
    moreover have "net_ok n (w\<lparr>held := add_mset (t\<lparr>released := True\<rparr>) H, mails := add_mset (receiver t, m) (mails w)\<rparr>)"
      using inv \<open>receiver t < n\<close> \<open>send_mail t\<close> by (simp add: net_inv_def net_ok_def H mail_ok_def m_def)
    ultimately show ?thesis using inv unfolding w' by (simp add: net_inv_def H m_def)
  qed
qed

lemma net_inv_release_memory:
  assumes inv: "net_inv n streams depth w" and t: "t \<in># mheld w" and r: "release_memory_response t = (t', ms)"
  shows "net_inv n streams depth (send_all (map (\<lambda>(i, m). (i, Mail m)) ms) (w\<lparr>mheld := add_mset t' (mheld w - {#t#})\<rparr>))"
proof -
  obtain H where H: "mheld w = add_mset t H" using t by (metis multi_member_split)
  have "mreceiver t < n" using inv t by (auto simp: net_inv_def net_ok_def)
  with inv r show ?thesis
    by (cases "mreleased t")
      (auto simp: net_inv_def net_ok_def H release_memory_response_def send_all_def actor_ok_def actor_pre_def mail_ok_def)
qed

lemma net_inv_bounce:
  assumes inv: "net_inv n streams depth w" and p: "(v, Steal_from j) \<in># mails w"
  shows "net_inv n streams depth (w\<lparr>mails := add_mset (j, Steal_failed) (mails w - {#(v, Steal_from j)#})\<rparr>)"
proof -
  obtain M where M: "mails w = add_mset (v, Steal_from j) M" using p by (metis multi_member_split)
  have "j < n" using inv M by (auto simp: net_inv_def net_ok_def mail_ok_def)
  with inv show ?thesis
    by (auto simp: net_inv_def net_ok_def M actor_ok_def actor_pre_def mail_ok_def)
qed

lemma net_step_inv:
  assumes "net_step w w'" "net_inv n streams depth w"
  shows "net_inv n streams depth w'"
  using assms
proof cases
  case (submit i t)
  with assms(2) net_inv_send [OF assms(2), of "{#(i, Token t)#}"] show ?thesis
    by (simp add: send_all_def net_inv_def net_ok_def mail_ok_def)
next
  case (submit_batch ts)
  let ?cs = "send_scheduler_actor_messages (length (actors w)) ts"
  have n: "length (actors w) = n" "0 < n" using assms(2) submit_batch by (auto simp: net_inv_def net_ok_def)
  have "\<forall>p\<in>#mset (map (\<lambda>(i, ts). (i, Batch ts)) ?cs). mail_ok n p"
    using send_messages_cover(2) [of n ts] n by (auto simp: mail_ok_def)
  from net_inv_send [OF assms(2) this batch_views(2,3) batch_views(1)] submit_batch send_messages_cover(1) [of n ts] n
  show ?thesis by (simp add: send_all_def)
next
  case (deliver i m idx)
  from \<open>(i, m) \<in># mails w\<close> have "mails w = add_mset (i, m) (mails w - {#(i, m)#})" by simp
  from handle_msg_inv [OF assms(2) this] deliver show ?thesis by simp
next
  case (timer i idx)
  let ?s = "actors w ! i"
  have i: "i < n" using timer assms(2) by (auto simp: net_inv_def net_ok_def)
  have "net_pre n streams depth i (?s\<lparr>current_backoff := 0\<rparr>) (w\<lparr>retries := retries w - {#i#}\<rparr>)"
    by (rule net_pre_unchanged [OF assms(2) i]) (auto simp: actor_pre_def dest: in_diffD)
  from put_schedule [OF this] schedule_work_ok(1) [of "?s\<lparr>current_backoff := 0\<rparr>" idx]
    schedule_work_ok(2) [of "?s\<lparr>current_backoff := 0\<rparr>" idx i] timer show ?thesis
    by (cases "schedule_work idx (?s\<lparr>current_backoff := 0\<rparr>)") (auto simp: on_word_def)
next
  case (release t t' ms)
  with net_inv_release [OF assms(2)] show ?thesis by simp
next
  case (release_memory t t' ms)
  with net_inv_release_memory [OF assms(2)] show ?thesis by simp
next
  case (bounce v j)
  with net_inv_bounce [OF assms(2)] show ?thesis by simp
qed

lemma neighbor_views:
  "mail_launches (image_mset (\<lambda>i. (i, Neighbors ns)) A) = {#}" "reclaims k (image_mset (\<lambda>i. (i, Neighbors ns)) A) = {#}"
  "steals k (image_mset (\<lambda>i. (i, Neighbors ns)) A) = 0"
  by (induction A) auto

lemma launches_empty_queues: "(\<And>x. f x = []) \<Longrightarrow> launches (concat (map f xs)) = {#}"
  by (induction xs) auto

lemma net_inv_start: "net_inv n streams depth (toggle_scheduler_actor n streams depth no_schedulers)"
  by (auto simp: net_inv_def net_ok_def toggle_scheduler_actor_def no_schedulers_def Let_def spawn_schedulers_def mk_scheduler_actor_def actor_ok_def
      actor_pre_def mail_ok_def neighbor_views slots_def launches_empty_queues)

lemma spawned_step: "net_step w w' \<Longrightarrow> spawned w' = spawned w"
  by (induction rule: net_step.induct)
    (auto simp: send_all_def handle_msg_def Let_def split: msg.splits token_mail.splits prod.splits)

lemma net_reachable_spawned: "net_reachable n streams depth w \<Longrightarrow> spawned w \<and> net_inv n streams depth w"
proof (induction rule: net_reachable.induct)
  case start
  then show ?case by (simp add: net_inv_start) (simp add: toggle_scheduler_actor_def no_schedulers_def Let_def)
next
  case (toggle w n' streams' depth')
  then show ?case by (simp add: toggle_scheduler_actor_def)
next
  case (step w w')
  then show ?case using spawned_step net_step_inv by blast
qed

lemma net_reachable_inv: "net_reachable n streams depth w \<Longrightarrow> net_inv n streams depth w"
  using net_reachable_spawned by blast

section \<open>Properties\<close>

lemma count_image: "count (image_mset f M) k = size {#t \<in># M. f t = k#}"
  by (induction M) auto

lemma count_slots: "count (slots streams depth) k = (if 0 \<le> k \<and> k < streams then nat depth else 0)"
proof -
  have "distinct (map int [0..<nat streams])" by (simp add: distinct_map)
  moreover have "k \<in> set (map int [0..<nat streams]) \<longleftrightarrow> 0 \<le> k \<and> k < streams"
    by (auto simp: image_iff intro!: bexI [of _ "nat k"])
  ultimately have "count_list (map int [0..<nat streams]) k = (if 0 \<le> k \<and> k < streams then 1 else 0)"
    unfolding count_mset [symmetric] by (metis distinct_count_atmost_1 set_mset_mset)
  then have "count_list (concat (replicate d (map int [0..<nat streams]))) k = d * (if 0 \<le> k \<and> k < streams then 1 else 0)" for d
    by (induction d) auto
  then show ?thesis by (simp add: slots_def count_mset)
qed

text \<open>
  C34: Scheduling neither loses nor repeats a launch, and never overcommits a stream. In every reachable state of
  the scheduler actors, whatever the order in which messages arrive, clients release their tokens and
  actors steal from each other, the launches submitted are exactly those granted to a client, those in the
  queues and those in messages; each stream slot of a device is in its pool, in one unreleased response token or
  in one reclaim message, so that at most \<open>depth\<close> unreleased response tokens name the same stream of a device.
\<close>

theorem scheduler_conserves_work:
  assumes "net_reachable n streams depth w"
  shows "submitted w = granted w + launches (concat (map queue (actors w))) + mail_launches (mails w) \<and>
    (\<forall>i<n. mset (available_streams (actors w ! i)) + image_mset stream_id (outstanding i (held w)) + reclaims i (mails w) =
       slots streams depth \<and>
       (\<forall>k. size {#t \<in># held w. receiver t = i \<and> \<not> released t \<and> stream_id t = k#} \<le> nat depth))"
proof (intro conjI allI impI)
  note inv = net_reachable_inv [OF assms]
  from inv show "submitted w = granted w + launches (concat (map queue (actors w))) + mail_launches (mails w)"
    by (simp add: net_inv_def)
  fix i k assume i: "i < n"
  show *: "mset (available_streams (actors w ! i)) + image_mset stream_id (outstanding i (held w)) + reclaims i (mails w) =
      slots streams depth"
    using inv i by (simp add: net_inv_def actor_ok_def actor_pre_def)
  have "size {#t \<in># held w. receiver t = i \<and> \<not> released t \<and> stream_id t = k#} =
      count (image_mset stream_id (outstanding i (held w))) k"
    by (simp add: count_image outstanding_def filter_filter_mset conj_ac)
  also have "\<dots> \<le> count (slots streams depth) k" unfolding * [symmetric] by simp
  also have "\<dots> \<le> nat depth" by (simp add: count_slots)
  finally show "size {#t \<in># held w. receiver t = i \<and> \<not> released t \<and> stream_id t = k#} \<le> nat depth" .
qed

text \<open>
  C35: No launch is forgotten. In every reachable state an actor with queued tokens has no free stream; and once
  no message is in flight and every response token has been released, each submitted launch has been granted.
\<close>

theorem scheduler_serves_all:
  assumes "net_reachable n streams depth w" "0 < streams" "0 < depth"
  shows "(\<forall>i<n. queue (actors w ! i) = [] \<or> available_streams (actors w ! i) = []) \<and>
    (mails w = {#} \<and> (\<forall>t\<in>#held w. released t) \<longrightarrow> granted w = submitted w)"
proof -
  note inv = net_reachable_inv [OF assms(1)]
  from inv have q: "queue (actors w ! i) = [] \<or> available_streams (actors w ! i) = []" if "i < n" for i
    using that by (simp add: net_inv_def actor_ok_def)
  have "granted w = submitted w" if m: "mails w = {#}" and h: "\<forall>t\<in>#held w. released t"
  proof -
    have out: "outstanding i (held w) = {#}" for i
      by (rule multiset_eqI) (use h in \<open>auto simp: outstanding_def count_eq_zero_iff\<close>)
    have "queue s = []" if "s \<in> set (actors w)" for s
    proof -
      have "length (actors w) = n" using inv by (simp add: net_inv_def net_ok_def)
      with \<open>s \<in> set (actors w)\<close> obtain i where i: "i < n" "s = actors w ! i" by (metis in_set_conv_nth)
      have "mset (available_streams s) = slots streams depth"
        using inv i m out by (simp add: net_inv_def actor_ok_def actor_pre_def)
      then have "count (mset (available_streams s)) 0 \<noteq> 0" using assms(2,3) by (simp add: count_slots)
      then have "available_streams s \<noteq> []" by auto
      with q [OF i(1)] i(2) show ?thesis by simp
    qed
    then have "concat (map queue (actors w)) = []" by (simp add: concat_eq_Nil_conv)
    with inv m show ?thesis by (simp add: net_inv_def)
  qed
  with q show ?thesis by blast
qed

text \<open>
  C36: The backoff between attempts to steal work never grows: it is zero, 1 ms after an empty reply or 50 ms after
  an error. The doubling up to 100 and 500 ms in the code is never reached, since every request is
  sent with a backoff of zero and nothing sets it before the reply arrives.
\<close>

theorem scheduler_backoff_constant:
  assumes "net_reachable n streams depth w" "i < n"
  shows "current_backoff (actors w ! i) \<in> {0, 1, 50} \<and> (awaiting_steal (actors w ! i) \<longrightarrow> current_backoff (actors w ! i) = 0)"
  using net_reachable_inv [OF assms(1)] assms(2) by (simp add: net_inv_def actor_ok_def actor_pre_def)

text \<open>A memory token is answered when it arrives alone, and dropped without an answer when it arrives in a batch.\<close>

lemma batch_drops_memory_token:
  assumes "available_streams s \<noteq> []" "queue s = []" "\<not> multi_gpu s"
  shows "on_receive_batch idx [Memory m] s = (s\<lparr>current_backoff := 0, queue := []\<rparr>, [])"
    "snd (on_receive idx (Memory m) s) = [Respond_memory (replyActor m) (make_memory_response_token (self s) m (device_number s) 0)]"
  using assms
  by (auto simp: on_receive_batch_def on_receive_def schedule_work_def steal_work_def dispatch_loop.simps Let_def split: list.splits)

section \<open>Witnesses\<close>

text \<open>A run with one device and one stream: a launch is submitted, granted and released.\<close>

definition example_range :: nd_range where
  "example_range = \<lparr>gridDim = [1, 1, 1], blockDim = [32, 1, 1], hashValue = 0\<rparr>"

definition example_launch :: launch_token where
  "example_launch = \<lparr>program = 0, range_dims = example_range, memory_usage = 64, launch_id = ''k'', reply_handle = 7,
     launch_dependency = - 1\<rparr>"

lemma reachable_deliver:
  assumes "net_reachable n streams depth w" "mails w = add_mset (i, m) M" "i < length (actors w)"
    "victims (actors w ! i) \<noteq> [] \<Longrightarrow> idx < length (victims (actors w ! i))"
  shows "net_reachable n streams depth (handle_msg idx i m (w\<lparr>mails := M\<rparr>))"
  using net_reachable.step [OF assms(1) net_step.deliver [of i m w idx]] assms(2-4) by simp

lemmas eval_network = send_all_def toggle_scheduler_actor_def no_schedulers_def spawn_schedulers_def mk_scheduler_actor_def handle_msg_def on_receive_def
  schedule_work_def steal_work_def dispatch_loop.simps put_eq Let_def make_launch_response_token_def on_set_neighbors_def
  on_steal_request_def on_stolen_def on_reclaim_def

lemma example_run:
  "\<exists>w. net_reachable 1 1 1 w \<and> submitted w = {#example_launch#} \<and> granted w = {#example_launch#} \<and> mails w = {#} \<and>
     held w = {#make_launch_response_token 0 example_launch 0 0 0 0#} \<and>
     actors w = [(mk_scheduler_actor 0 0 1 1 False)\<lparr>in_flight := 1, available_streams := []\<rparr>]"
proof -
  let ?w0 = "toggle_scheduler_actor 1 1 1 no_schedulers"
  let ?w1 = "send_all [(0, Token (Launch example_launch))] (?w0\<lparr>submitted := submitted ?w0 + launches [Launch example_launch]\<rparr>)"
  let ?w2 = "handle_msg 0 0 (Token (Launch example_launch)) (?w1\<lparr>mails := {#}\<rparr>)"
  have "net_step ?w0 ?w1" by (rule net_step.submit) (simp add: eval_network)
  then have "net_reachable 1 1 1 ?w1" by (blast intro: net_reachable.intros)
  then have "net_reachable 1 1 1 ?w2" by (rule reachable_deliver) (simp_all add: eval_network)
  moreover have "submitted ?w2 = {#example_launch#} \<and> granted ?w2 = {#example_launch#} \<and> mails ?w2 = {#} \<and>
      held ?w2 = {#make_launch_response_token 0 example_launch 0 0 0 0#} \<and>
      actors ?w2 = [(mk_scheduler_actor 0 0 1 1 False)\<lparr>in_flight := 1, available_streams := []\<rparr>]"
    by (simp add: eval_network)
  ultimately show ?thesis by blast
qed

lemma example_run_released:
  "\<exists>w. net_reachable 1 1 1 w \<and> submitted w = {#example_launch#} \<and> mails w = {#} \<and> {#t \<in># held w. \<not> released t#} = {#} \<and> (\<forall>t\<in>#held w. released t)"
proof -
  obtain w where w: "net_reachable 1 1 1 w" "submitted w = {#example_launch#}" "mails w = {#}"
      "held w = {#make_launch_response_token 0 example_launch 0 0 0 0#}"
      "actors w = [(mk_scheduler_actor 0 0 1 1 False)\<lparr>in_flight := 1, available_streams := []\<rparr>]"
    using example_run by blast
  define t where "t = make_launch_response_token 0 example_launch 0 0 0 0"
  define m where "m = Reclaim (reclaim_value t) (reclaim_memory_returned t) (reclaim_runtime t) (reclaim_dependency t) 0"
  let ?w1 = "send_all (map (\<lambda>(i, m). (i, Mail m)) [(0, m)]) (w\<lparr>held := add_mset (t\<lparr>released := True\<rparr>) (held w - {#t#})\<rparr>)"
  let ?w2 = "handle_msg 0 0 (Mail m) (?w1\<lparr>mails := {#}\<rparr>)"
  have "release_launch_response t = (t\<lparr>released := True\<rparr>, [(0, m)])"
    by (simp add: t_def m_def release_launch_response_def make_launch_response_token_def)
  then have "net_step w ?w1" using w(4) by (intro net_step.release) (simp_all add: t_def)
  with w(1) have "net_reachable 1 1 1 ?w1" by (rule net_reachable.step)
  then have "net_reachable 1 1 1 ?w2" by (rule reachable_deliver) (use w(3,5) in \<open>simp_all add: eval_network\<close>)
  moreover have "submitted ?w2 = {#example_launch#} \<and> mails ?w2 = {#} \<and> held ?w2 = {#t\<lparr>released := True\<rparr>#}"
    using w by (simp add: eval_network m_def t_def)
  ultimately show ?thesis by (intro exI [of _ ?w2]) simp
qed

text \<open>A run with two devices: the first one asks the second one for work and gets none.\<close>

lemma example_run_steal:
  "\<exists>w. net_reachable 2 4 1 w \<and> current_backoff (actors w ! 0) = 1"
proof -
  let ?t = "Token (Launch example_launch)"
  let ?w0 = "toggle_scheduler_actor 2 4 1 no_schedulers"
  let ?w1 = "send_all [(0, ?t)] (?w0\<lparr>submitted := submitted ?w0 + launches [Launch example_launch]\<rparr>)"
  let ?n = "Neighbors [0, 1]"
  let ?w2 = "handle_msg 0 0 ?n (?w1\<lparr>mails := {#(1, ?n), (0, ?t)#}\<rparr>)"
  let ?w3 = "handle_msg 0 0 ?t (?w2\<lparr>mails := {#(1, ?n)#}\<rparr>)"
  let ?w4 = "handle_msg 0 1 (Steal_from 0) (?w3\<lparr>mails := {#(1, ?n)#}\<rparr>)"
  let ?w5 = "handle_msg 0 0 (Stolen []) (?w4\<lparr>mails := {#(1, ?n)#}\<rparr>)"
  have "net_step ?w0 ?w1" by (rule net_step.submit) (simp add: eval_network)
  then have "net_reachable 2 4 1 ?w1" by (blast intro: net_reachable.intros)
  then have "net_reachable 2 4 1 ?w2" by (rule reachable_deliver) (simp_all add: eval_network upt_rec)
  then have "net_reachable 2 4 1 ?w3" by (rule reachable_deliver) (simp_all add: eval_network upt_rec)
  then have "net_reachable 2 4 1 ?w4" by (rule reachable_deliver) (simp_all add: eval_network upt_rec)
  then have "net_reachable 2 4 1 ?w5" by (rule reachable_deliver) (simp_all add: eval_network upt_rec)
  moreover have "current_backoff (actors ?w5 ! 0) = 1" by (simp add: eval_network upt_rec)
  ultimately show ?thesis by blast
qed

theorem scheduler_conserves_work_witness:
  "\<exists>w. net_reachable 1 1 1 w \<and> submitted w = {#example_launch#} \<and> launches (concat (map queue (actors w))) + mail_launches (mails w) = {#} \<and>
     size {#t \<in># held w. receiver t = 0 \<and> \<not> released t \<and> stream_id t = 0#} \<le> 1"
proof -
  obtain w where w: "net_reachable 1 1 1 w" "submitted w = {#example_launch#}" "granted w = {#example_launch#}"
    using example_run by blast
  from scheduler_conserves_work [OF w(1)] w show ?thesis by (intro exI [of _ w]) auto
qed

theorem scheduler_serves_all_witness:
  "\<exists>w. net_reachable 1 1 1 w \<and> submitted w = {#example_launch#} \<and> {#t \<in># held w. \<not> released t#} = {#} \<and> granted w = submitted w"
proof -
  obtain w where w: "net_reachable 1 1 1 w" "submitted w = {#example_launch#}" "mails w = {#}"
      "{#t \<in># held w. \<not> released t#} = {#}" "\<forall>t\<in>#held w. released t"
    using example_run_released by blast
  from scheduler_serves_all [OF w(1)] w show ?thesis by (intro exI [of _ w]) auto
qed

theorem scheduler_backoff_constant_witness:
  "\<exists>w. net_reachable 2 4 1 w \<and> current_backoff (actors w ! 0) = 1 \<and> \<not> awaiting_steal (actors w ! 0)"
proof -
  obtain w where w: "net_reachable 2 4 1 w" "current_backoff (actors w ! 0) = 1" using example_run_steal by blast
  from scheduler_backoff_constant [OF w(1), of 0] w show ?thesis by (intro exI [of _ w]) auto
qed

end
