(* ===== verification/Cuda_Memory.thy ===== *)
theory Cuda_Memory
  imports CAF_Prelude "HOL-Library.Multiset"
begin

text \<open>
  The memory actor of the control layer (\<^verbatim>\<open>src/control-layer/memory_actor/memory_actor.cpp\<close>) and the token that
  stands for granted memory (\<^verbatim>\<open>caf/cuda/control-layer/memory_actor/mem_token.hpp\<close>). The actor keeps a counter of
  available bytes per device; a token returns its bytes with a message when it is destroyed or overwritten.
  Sizes are 64-bit words, as in the source.
\<close>

section \<open>Tokens\<close>

type_synonym client = nat

record memory_request_token =
  size_bytes :: u64
  request_device :: int
  reply_actor :: client

text \<open>The handle of the memory actor is present or not; the messages of a token are pairs of device and bytes.\<close>

record mem_token =
  memory_bytes :: u64
  token_device :: int
  memory_actor_handle :: bool

definition mem_token_default :: mem_token where
  "mem_token_default = \<lparr>memory_bytes = 0, token_device = - 1, memory_actor_handle = False\<rparr>"

definition mk_mem_token :: "u64 \<Rightarrow> int \<Rightarrow> mem_token" where
  "mk_mem_token n dev = \<lparr>memory_bytes = n, token_device = dev, memory_actor_handle = True\<rparr>"

definition release :: "mem_token \<Rightarrow> mem_token \<times> (int \<times> u64) list" where
  "release t =
     (if memory_bytes t > 0 \<and> memory_actor_handle t
      then (t\<lparr>memory_bytes := 0\<rparr>, [(token_device t, memory_bytes t)]) else (t, []))"

text \<open>
  The copy and move constructors return the new object and the old one. Moving also takes the handle away;
  assigning first returns the memory of the target.
\<close>

definition copy_construct :: "mem_token \<Rightarrow> mem_token \<times> mem_token" where
  "copy_construct other = (other, other\<lparr>memory_bytes := 0\<rparr>)"

definition move_construct :: "mem_token \<Rightarrow> mem_token \<times> mem_token" where
  "move_construct other = (other, other\<lparr>memory_bytes := 0, memory_actor_handle := False\<rparr>)"

definition copy_assign :: "mem_token \<Rightarrow> mem_token \<Rightarrow> mem_token \<times> mem_token \<times> (int \<times> u64) list" where
  "copy_assign this other =
     (case release this of (_, ms) \<Rightarrow>
        (\<lparr>memory_bytes = memory_bytes other, token_device = token_device other,
          memory_actor_handle = memory_actor_handle other\<rparr>,
         other\<lparr>memory_bytes := 0\<rparr>, ms))"

definition move_assign :: "mem_token \<Rightarrow> mem_token \<Rightarrow> mem_token \<times> mem_token \<times> (int \<times> u64) list" where
  "move_assign this other =
     (case release this of (_, ms) \<Rightarrow>
        (\<lparr>memory_bytes = memory_bytes other, token_device = token_device other,
          memory_actor_handle = memory_actor_handle other\<rparr>,
         other\<lparr>memory_bytes := 0, memory_actor_handle := False\<rparr>, ms))"

section \<open>The memory actor\<close>

record memory_actor_state =
  requests :: "memory_request_token list list"
  available_memory :: "u64 list"
  num_devices :: int

text \<open>The argument has the free memory the devices report at start.\<close>

definition memory_actor :: "u64 list \<Rightarrow> memory_actor_state" where
  "memory_actor free =
     \<lparr>requests = replicate (length free) [], available_memory = free, num_devices = int (length free)\<rparr>"

definition on_request ::
    "memory_request_token \<Rightarrow> memory_actor_state \<Rightarrow> memory_actor_state \<times> (client \<times> mem_token) list" where
  "on_request tok st =
     (if request_device tok < 0 \<or> request_device tok \<ge> num_devices st then (st, [])
      else let d = nat (request_device tok); avail = available_memory st ! d in
           if avail \<ge> size_bytes tok
           then (st\<lparr>available_memory := (available_memory st)[d := avail - size_bytes tok]\<rparr>,
                 [(reply_actor tok, mk_mem_token (size_bytes tok) (request_device tok))])
           else (st\<lparr>requests := (requests st)[d := requests st ! d @ [tok]]\<rparr>, []))"

primrec serve_queue ::
    "memory_request_token list \<Rightarrow> int \<Rightarrow> u64 \<Rightarrow> memory_request_token list \<times> u64 \<times> (client \<times> mem_token) list" where
  "serve_queue [] dev avail = ([], avail, [])"
| "serve_queue (front # q) dev avail =
     (if avail \<ge> size_bytes front
      then (case serve_queue q dev (avail - size_bytes front) of (q', avail', gs) \<Rightarrow>
              (q', avail', (reply_actor front, mk_mem_token (size_bytes front) dev) # gs))
      else (front # q, avail, []))"

definition on_release :: "int \<Rightarrow> u64 \<Rightarrow> memory_actor_state \<Rightarrow> memory_actor_state \<times> (client \<times> mem_token) list" where
  "on_release dev n st =
     (if dev < 0 \<or> dev \<ge> num_devices st then (st, [])
      else let d = nat dev in
           case serve_queue (requests st ! d) dev (available_memory st ! d + n) of (q, avail, gs) \<Rightarrow>
             (st\<lparr>available_memory := (available_memory st)[d := avail], requests := (requests st)[d := q]\<rparr>, gs))"

section \<open>The actor with its clients\<close>

datatype mem_msg =
    Request memory_request_token
  | Released "int \<times> u64"

record mem_system =
  mem_actor :: memory_actor_state
  mem_mails :: "mem_msg multiset"
  tokens :: "mem_token multiset"

definition deliver_msg :: "mem_msg \<Rightarrow> memory_actor_state \<Rightarrow> memory_actor_state \<times> (client \<times> mem_token) list" where
  "deliver_msg m st = (case m of Request tok \<Rightarrow> on_request tok st | Released (dev, n) \<Rightarrow> on_release dev n st)"

text \<open>
  Clients send any requests; tokens are copied, moved, assigned and destroyed in any order. A destroyed token is
  one whose release has run.
\<close>

inductive mem_step :: "mem_system \<Rightarrow> mem_system \<Rightarrow> bool" where
  request: "mem_step w (w\<lparr>mem_mails := add_mset (Request tok) (mem_mails w)\<rparr>)"
| deliver: "mem_mails w = add_mset m M \<Longrightarrow> deliver_msg m (mem_actor w) = (st, gs) \<Longrightarrow>
    mem_step w (w\<lparr>mem_actor := st, mem_mails := M, tokens := tokens w + mset (map snd gs)\<rparr>)"
| default: "mem_step w (w\<lparr>tokens := add_mset mem_token_default (tokens w)\<rparr>)"
| construct: "tokens w = add_mset t T \<Longrightarrow> (a, b) \<in> {copy_construct t, move_construct t} \<Longrightarrow>
    mem_step w (w\<lparr>tokens := add_mset a (add_mset b T)\<rparr>)"
| assign: "tokens w = add_mset t (add_mset u T) \<Longrightarrow> (a, b, ms) \<in> {copy_assign t u, move_assign t u} \<Longrightarrow>
    mem_step w (w\<lparr>tokens := add_mset a (add_mset b T), mem_mails := mem_mails w + mset (map Released ms)\<rparr>)"
| destroy: "tokens w = add_mset t T \<Longrightarrow> release t = (t', ms) \<Longrightarrow>
    mem_step w (w\<lparr>tokens := T, mem_mails := mem_mails w + mset (map Released ms)\<rparr>)"

inductive mem_reachable :: "u64 list \<Rightarrow> mem_system \<Rightarrow> bool" for free where
  start: "mem_reachable free \<lparr>mem_actor = memory_actor free, mem_mails = {#}, tokens = {#}\<rparr>"
| step: "mem_reachable free w \<Longrightarrow> mem_step w w' \<Longrightarrow> mem_reachable free w'"

section \<open>Accounting\<close>

definition held_bytes :: "int \<Rightarrow> mem_token multiset \<Rightarrow> nat" where
  "held_bytes dev T = (\<Sum>t\<in>#T. if token_device t = dev then unat (memory_bytes t) else 0)"

definition msg_bytes :: "int \<Rightarrow> mem_msg \<Rightarrow> nat" where
  "msg_bytes dev m = (case m of Request _ \<Rightarrow> 0 | Released (d, n) \<Rightarrow> if d = dev then unat n else 0)"

definition mail_bytes :: "int \<Rightarrow> mem_msg multiset \<Rightarrow> nat" where
  "mail_bytes dev M = (\<Sum>m\<in>#M. msg_bytes dev m)"

lemma bytes_simps [simp]:
  "held_bytes dev {#} = 0" "mail_bytes dev {#} = 0"
  "held_bytes dev (add_mset t T) = (if token_device t = dev then unat (memory_bytes t) else 0) + held_bytes dev T"
  "mail_bytes dev (add_mset m M) = msg_bytes dev m + mail_bytes dev M"
  "held_bytes dev (S + T) = held_bytes dev S + held_bytes dev T"
  "mail_bytes dev (M + N) = mail_bytes dev M + mail_bytes dev N"
  "msg_bytes dev (Request tok) = 0" "msg_bytes dev (Released (d, n)) = (if d = dev then unat n else 0)"
  by (simp_all add: held_bytes_def mail_bytes_def msg_bytes_def)

text \<open>Every token with bytes knows its memory actor and a device of the system.\<close>

definition token_ok :: "nat \<Rightarrow> mem_token \<Rightarrow> bool" where
  "token_ok n t \<longleftrightarrow> memory_bytes t \<noteq> 0 \<longrightarrow> memory_actor_handle t \<and> 0 \<le> token_device t \<and> token_device t < int n"

definition waiting_ok :: "u64 \<Rightarrow> memory_request_token list \<Rightarrow> bool" where
  "waiting_ok avail q \<longleftrightarrow> q = [] \<or> avail < size_bytes (hd q)"

definition mem_inv :: "u64 list \<Rightarrow> mem_system \<Rightarrow> bool" where
  "mem_inv free w \<longleftrightarrow>
     num_devices (mem_actor w) = int (length free) \<and>
     length (available_memory (mem_actor w)) = length free \<and> length (requests (mem_actor w)) = length free \<and>
     (\<forall>t\<in>#tokens w. token_ok (length free) t) \<and>
     (\<forall>d<length free.
        unat (available_memory (mem_actor w) ! d) + held_bytes (int d) (tokens w) + mail_bytes (int d) (mem_mails w) =
          unat (free ! d) \<and>
        waiting_ok (available_memory (mem_actor w) ! d) (requests (mem_actor w) ! d))"

lemma unat_sub: "(y :: u64) \<le> x \<Longrightarrow> unat (x - y) + unat y = unat x"
  by (simp add: unat_sub word_le_nat_alt)

lemma serve_queue_ok:
  "case serve_queue q (int d) avail of (q', avail', gs) \<Rightarrow>
     waiting_ok avail' q' \<and> unat avail' + held_bytes (int d) (mset (map snd gs)) = unat avail \<and>
     (\<forall>k. k \<noteq> int d \<longrightarrow> held_bytes k (mset (map snd gs)) = 0) \<and>
     (\<forall>g\<in>set gs. token_device (snd g) = int d \<and> memory_actor_handle (snd g))"
proof (induction q arbitrary: avail)
  case (Cons front q)
  show ?case
  proof (cases "avail \<ge> size_bytes front")
    case True
    obtain q' avail' gs where r: "serve_queue q (int d) (avail - size_bytes front) = (q', avail', gs)"
      by (cases "serve_queue q (int d) (avail - size_bytes front)")
    with Cons [of "avail - size_bytes front"] True unat_sub [OF True] show ?thesis
      by (auto simp: mk_mem_token_def)
  next
    case False
    then show ?thesis by (auto simp: waiting_ok_def dest: leD)
  qed
qed (simp add: waiting_ok_def)

lemma on_request_inv:
  assumes inv: "mem_inv free w" and m: "mem_mails w = add_mset (Request tok) M" and r: "on_request tok (mem_actor w) = (st, gs)"
  shows "mem_inv free (w\<lparr>mem_actor := st, mem_mails := M, tokens := tokens w + mset (map snd gs)\<rparr>)"
proof (cases "request_device tok < 0 \<or> request_device tok \<ge> num_devices (mem_actor w)")
  case True
  with inv r show ?thesis by (auto simp: mem_inv_def on_request_def m)
next
  case False
  define d where "d = nat (request_device tok)"
  have d: "request_device tok = int d" "d < length free" using False inv by (auto simp: d_def mem_inv_def)
  let ?avail = "available_memory (mem_actor w) ! d"
  show ?thesis
  proof (cases "?avail \<ge> size_bytes tok")
    case True
    have eq: "st = (mem_actor w)\<lparr>available_memory := (available_memory (mem_actor w))[d := ?avail - size_bytes tok]\<rparr>"
      "gs = [(reply_actor tok, mk_mem_token (size_bytes tok) (int d))]"
      using r False True d by (auto simp: on_request_def Let_def)
    have le: "?avail - size_bytes tok \<le> ?avail" using True by (simp add: word_sub_le)
    show ?thesis
      using inv d(2) unat_sub [OF True] le unfolding mem_inv_def eq m
      by (auto simp: mk_mem_token_def token_ok_def nth_list_update waiting_ok_def)
  next
    case no: False
    have eq: "st = (mem_actor w)\<lparr>requests := (requests (mem_actor w))[d := requests (mem_actor w) ! d @ [tok]]\<rparr>" "gs = []"
      using r False no d by (auto simp: on_request_def Let_def)
    show ?thesis
      using inv d(2) no unfolding mem_inv_def eq m
      by (auto simp: nth_list_update waiting_ok_def hd_append not_le)
  qed
qed

lemma on_release_inv:
  assumes inv: "mem_inv free w" and m: "mem_mails w = add_mset (Released (dev, n)) M" and r: "on_release dev n (mem_actor w) = (st, gs)"
  shows "mem_inv free (w\<lparr>mem_actor := st, mem_mails := M, tokens := tokens w + mset (map snd gs)\<rparr>)"
proof (cases "dev < 0 \<or> dev \<ge> num_devices (mem_actor w)")
  case True
  with inv r show ?thesis by (auto simp: mem_inv_def on_release_def m)
next
  case False
  define d where "d = nat dev"
  have d: "dev = int d" "d < length free" using False inv by (auto simp: d_def mem_inv_def)
  let ?avail = "available_memory (mem_actor w) ! d"
  have "unat ?avail + unat n \<le> unat (free ! d)" using inv d unfolding mem_inv_def m by (auto dest: spec [of _ d])
  then have sum: "unat (?avail + n) = unat ?avail + unat n"
    using unat_less_exp [of "free ! d"] by (intro unat_add_lem [THEN iffD1]) simp
  obtain q avail where s: "serve_queue (requests (mem_actor w) ! d) (int d) (?avail + n) = (q, avail, gs)"
      and st: "st = (mem_actor w)\<lparr>available_memory := (available_memory (mem_actor w))[d := avail], requests := (requests (mem_actor w))[d := q]\<rparr>"
    using r False d by (auto simp: on_release_def Let_def split: prod.splits)
  from serve_queue_ok [where q = "requests (mem_actor w) ! d" and d = d and avail = "?avail + n"] s
  have q: "waiting_ok avail q" "unat avail + held_bytes (int d) (mset (map snd gs)) = unat ?avail + unat n"
    "\<And>k. k \<noteq> int d \<Longrightarrow> held_bytes k (mset (map snd gs)) = 0"
    "\<And>g. g \<in> set gs \<Longrightarrow> token_device (snd g) = int d \<and> memory_actor_handle (snd g)"
    by (auto simp: sum)
  show ?thesis
    using inv d(2) q unfolding mem_inv_def st m d(1)
    by (auto simp: nth_list_update token_ok_def)
qed

lemma token_ops:
  "(a, b) \<in> {copy_construct t, move_construct t} \<Longrightarrow> a = t \<and> memory_bytes b = 0 \<and> token_device b = token_device t"
  "(a, b, ms) \<in> {copy_assign t u, move_assign t u} \<Longrightarrow>
     memory_bytes a = memory_bytes u \<and> token_device a = token_device u \<and> memory_actor_handle a = memory_actor_handle u \<and>
     memory_bytes b = 0 \<and> ms = snd (release t)"
  by (auto simp: copy_construct_def move_construct_def copy_assign_def move_assign_def split: prod.splits)

lemma release_bytes:
  "token_ok n t \<Longrightarrow> mail_bytes dev (mset (map Released (snd (release t)))) = (if token_device t = dev then unat (memory_bytes t) else 0)"
  by (auto simp: release_def token_ok_def word_gt_0)

lemma mem_step_inv:
  assumes "mem_step w w'" "mem_inv free w"
  shows "mem_inv free w'"
  using assms
proof cases
  case (request tok)
  with assms(2) show ?thesis by (simp add: mem_inv_def)
next
  case (deliver m M st gs)
  show ?thesis
  proof (cases m)
    case (Request tok)
    with deliver on_request_inv [OF assms(2)] show ?thesis by (simp add: deliver_msg_def)
  next
    case (Released x)
    with deliver on_release_inv [OF assms(2)] show ?thesis by (cases x) (simp add: deliver_msg_def)
  qed
next
  case default
  with assms(2) show ?thesis by (simp add: mem_inv_def mem_token_default_def token_ok_def)
next
  case (construct t T a b)
  with assms(2) token_ops(1) [OF construct(3)] show ?thesis by (auto simp: mem_inv_def token_ok_def)
next
  case (assign t u T a b ms)
  note ops = token_ops(2) [OF assign(3)]
  have ok: "token_ok (length free) t" "token_ok (length free) a" "token_ok (length free) b" "\<forall>x\<in>#T. token_ok (length free) x"
    using assms(2) assign(2) ops by (auto simp: mem_inv_def token_ok_def)
  have "held_bytes dev (tokens w) + mail_bytes dev (mem_mails w) = held_bytes dev (tokens w') + mail_bytes dev (mem_mails w')" for dev
    unfolding assign(1,2) using ops release_bytes [OF ok(1), of dev] by (simp del: mset_map)
  with assms(2) ok show ?thesis unfolding assign(1) mem_inv_def by (simp add: add.assoc)
next
  case (destroy t T t' ms)
  have ok: "token_ok (length free) t" "\<forall>x\<in>#T. token_ok (length free) x" using assms(2) destroy(2) by (auto simp: mem_inv_def)
  have mb: "mail_bytes dev (mset (map Released ms)) = (if token_device t = dev then unat (memory_bytes t) else 0)" for dev
    using release_bytes [OF ok(1)] destroy(3) by simp
  have "held_bytes dev (tokens w) + mail_bytes dev (mem_mails w) = held_bytes dev (tokens w') + mail_bytes dev (mem_mails w')" for dev
    unfolding destroy(1,2) by (simp del: mset_map add: mb)
  with assms(2) ok show ?thesis unfolding destroy(1) mem_inv_def by (simp add: add.assoc)
qed

lemma mem_reachable_inv: "mem_reachable free w \<Longrightarrow> mem_inv free w"
  by (induction rule: mem_reachable.induct)
    (auto simp: mem_inv_def [of _ "\<lparr>mem_actor = _, mem_mails = _, tokens = _\<rparr>"] memory_actor_def waiting_ok_def intro: mem_step_inv)

text \<open>
  C37: The memory actor never gives away more than a device has. In every reachable state, whatever clients do with
  their tokens, the counter of a device, the bytes of its living tokens and the bytes in release messages
  add up to the memory the device had at the start; and the first waiting request does not fit the counter.
\<close>

theorem memory_is_conserved:
  assumes "mem_reachable free w" "d < length free"
  shows "unat (available_memory (mem_actor w) ! d) + held_bytes (int d) (tokens w) + mail_bytes (int d) (mem_mails w) = unat (free ! d) \<and>
    (requests (mem_actor w) ! d \<noteq> [] \<longrightarrow> available_memory (mem_actor w) ! d < size_bytes (hd (requests (mem_actor w) ! d)))"
  using mem_reachable_inv [OF assms(1)] assms(2) by (auto simp: mem_inv_def waiting_ok_def)

theorem memory_is_conserved_witness:
  "\<exists>w. mem_reachable [100] w \<and> held_bytes 0 (tokens w) = 60 \<and> available_memory (mem_actor w) ! 0 = 40"
proof -
  let ?r = "\<lparr>size_bytes = 60, request_device = 0, reply_actor = 1\<rparr>"
  let ?w0 = "\<lparr>mem_actor = memory_actor [100], mem_mails = {#}, tokens = {#}\<rparr>"
  let ?w1 = "?w0\<lparr>mem_mails := {#Request ?r#}\<rparr>"
  let ?t = "mk_mem_token 60 0"
  let ?w2 = "?w1\<lparr>mem_actor := (memory_actor [100])\<lparr>available_memory := [40]\<rparr>, mem_mails := {#}, tokens := {#?t#}\<rparr>"
  have "mem_step ?w0 ?w1" using mem_step.request [of ?w0 ?r] by simp
  moreover have "mem_step ?w1 ?w2"
    using mem_step.deliver [of ?w1 "Request ?r" "{#}" "(memory_actor [100])\<lparr>available_memory := [40]\<rparr>" "[(1, ?t)]"]
    by (simp add: deliver_msg_def on_request_def memory_actor_def)
  ultimately have r: "mem_reachable [100] ?w2" by (blast intro: mem_reachable.intros)
  from memory_is_conserved [OF r, of 0] have "unat (available_memory (mem_actor ?w2) ! 0) + held_bytes 0 (tokens ?w2) = 100"
    by simp
  with r show ?thesis by (intro exI [of _ ?w2]) simp
qed

text \<open>
  A request for more than the device has is queued, not rejected, and blocks all requests queued behind it even
  when all memory is free; a later request that fits the counter overtakes the queue.
\<close>

lemma oversized_request_blocks:
  assumes "requests st = [big # q]" "available_memory st = [avail]" "num_devices st = 1" "avail < size_bytes big"
  shows "on_release 0 0 st = (st, [])"
    "size_bytes tok \<le> avail \<Longrightarrow> request_device tok = 0 \<Longrightarrow> snd (on_request tok st) = [(reply_actor tok, mk_mem_token (size_bytes tok) 0)]"
  using assms by (auto simp: on_release_def on_request_def Let_def dest: leD)

end
