(* ===== verification/Cuda_Streams.thy ===== *)
theory Cuda_Streams
  imports CAF_Prelude "HOL-Library.Multiset"
begin

text \<open>
  The stream and handle pools of \<^verbatim>\<open>src/streampool.cpp\<close>: \<^verbatim>\<open>StreamPool\<close> hands out CUDA streams,
  \<^verbatim>\<open>DeviceStreamTable\<close> remembers the stream of each actor, and the pools and tables for cuBLAS and cuSPARSE
  handles do the same for library handles. What the driver answers to a call is an argument of the operation:
  whether pushing the context, creating the object and popping the context succeeded, and the new object.
\<close>

section \<open>Stream pool\<close>

datatype pool_error =
    Push_failed
  | Pop_failed
  | Create_failed
  | Bind_failed
  | No_streams

record 's stream_pool =
  available_streams :: "'s list"
  all_streams :: "'s list"
  max_size :: nat
  total_streams :: nat
  in_use :: nat
  rr_index :: nat

record 's driver_answer =
  push_ok :: bool
  create_ok :: bool
  pop_ok :: bool
  new_object :: 's

definition create_stream :: "'s driver_answer \<Rightarrow> pool_error + 's" where
  "create_stream ans =
     (if \<not> push_ok ans then Inl Push_failed
      else if \<not> pop_ok ans then Inl Pop_failed
      else if \<not> create_ok ans then Inl Create_failed
      else Inr (new_object ans))"

text \<open>
  The constructor; \<open>answer i\<close> is what the driver says to the creation of the \<open>i\<close>th stream, and a failure leaves no
  pool.
\<close>

primrec fill_pool :: "nat \<Rightarrow> (nat \<Rightarrow> 's driver_answer) \<Rightarrow> 's stream_pool \<Rightarrow> pool_error + 's stream_pool" where
  "fill_pool 0 answer p = Inr p"
| "fill_pool (Suc n) answer p =
     (if total_streams p < max_size p
      then (case create_stream (answer (total_streams p)) of
              Inl e \<Rightarrow> Inl e
            | Inr s \<Rightarrow> fill_pool n answer
                (p\<lparr>all_streams := all_streams p @ [s], available_streams := available_streams p @ [s],
                   total_streams := total_streams p + 1\<rparr>))
      else Inr p)"

definition mk_stream_pool :: "(nat \<Rightarrow> 's driver_answer) \<Rightarrow> nat \<Rightarrow> nat \<Rightarrow> pool_error + 's stream_pool" where
  "mk_stream_pool answer initial_size mx =
     fill_pool initial_size answer
       \<lparr>available_streams = [], all_streams = [], max_size = mx, total_streams = 0, in_use = 0, rr_index = 0\<rparr>"

definition acquire :: "'s driver_answer \<Rightarrow> 's stream_pool \<Rightarrow> (pool_error + 's) \<times> 's stream_pool" where
  "acquire ans p =
     (if available_streams p \<noteq> []
      then (Inr (hd (available_streams p)), p\<lparr>available_streams := tl (available_streams p), in_use := in_use p + 1\<rparr>)
      else if total_streams p < max_size p
      then (case create_stream ans of
              Inl e \<Rightarrow> (Inl e, p)
            | Inr s \<Rightarrow> (Inr s, p\<lparr>all_streams := all_streams p @ [s], total_streams := total_streams p + 1, in_use := in_use p + 1\<rparr>))
      else if all_streams p \<noteq> []
      then (Inr (all_streams p ! rr_index p),
            p\<lparr>rr_index := (rr_index p + 1) mod length (all_streams p), in_use := in_use p + 1\<rparr>)
      else (Inl No_streams, p))"

definition release :: "'s \<Rightarrow> 's stream_pool \<Rightarrow> 's stream_pool" where
  "release s p =
     (let p = p\<lparr>available_streams := available_streams p @ [s]\<rparr>
      in if in_use p > 0 then p\<lparr>in_use := in_use p - 1\<rparr> else p)"

definition num_total :: "'s stream_pool \<Rightarrow> nat" where
  "num_total p = total_streams p"

definition num_in_use :: "'s stream_pool \<Rightarrow> nat" where
  "num_in_use p = in_use p"

definition num_available :: "'s stream_pool \<Rightarrow> nat" where
  "num_available p = length (available_streams p)"

section \<open>Stream table of a device\<close>

record 's stream_table =
  pool :: "'s stream_pool"
  table :: "int \<Rightarrow> 's option"

definition mk_stream_table :: "(nat \<Rightarrow> 's driver_answer) \<Rightarrow> nat \<Rightarrow> pool_error + 's stream_table" where
  "mk_stream_table answer pool_size =
     (case mk_stream_pool answer pool_size 500 of Inl e \<Rightarrow> Inl e | Inr p \<Rightarrow> Inr \<lparr>pool = p, table = Map.empty\<rparr>)"

definition table_pool_size :: "'s stream_table \<Rightarrow> nat" where
  "table_pool_size t = max_size (pool t)"

text \<open>The two critical sections of \<^verbatim>\<open>get_stream\<close>: the lookup under the shared lock, and the assignment.\<close>

definition lookup_stream :: "int \<Rightarrow> 's stream_table \<Rightarrow> 's option" where
  "lookup_stream actor t = table t actor"

definition assign_stream :: "'s driver_answer \<Rightarrow> int \<Rightarrow> 's stream_table \<Rightarrow> (pool_error + 's) \<times> 's stream_table" where
  "assign_stream ans actor t =
     (case table t actor of
        Some s \<Rightarrow> (Inr s, t)
      | None \<Rightarrow> (case acquire ans (pool t) of
            (Inl e, p) \<Rightarrow> (Inl e, t\<lparr>pool := p\<rparr>)
          | (Inr s, p) \<Rightarrow> (Inr s, t\<lparr>pool := p, table := (table t)(actor \<mapsto> s)\<rparr>)))"

definition get_stream :: "'s driver_answer \<Rightarrow> int \<Rightarrow> 's stream_table \<Rightarrow> (pool_error + 's) \<times> 's stream_table" where
  "get_stream ans actor t = (case lookup_stream actor t of Some s \<Rightarrow> (Inr s, t) | None \<Rightarrow> assign_stream ans actor t)"

definition release_stream :: "int \<Rightarrow> 's stream_table \<Rightarrow> 's stream_table" where
  "release_stream actor t =
     (case table t actor of
        None \<Rightarrow> t
      | Some s \<Rightarrow> t\<lparr>pool := release s (pool t), table := (table t)(actor := None)\<rparr>)"

text \<open>The part of \<^verbatim>\<open>device::reset_context\<close> after the old context is gone.\<close>

definition reset_context :: "(nat \<Rightarrow> 's driver_answer) \<Rightarrow> 's stream_table \<Rightarrow> pool_error + 's stream_table" where
  "reset_context answer t = mk_stream_table answer (table_pool_size t)"

section \<open>Handle pools\<close>

text \<open>
  The pools for cuBLAS and cuSPARSE handles are the same code. The round-robin position is a static variable of
  the function, shared by all pools of the program; reading beyond the vector is undefined behaviour, the
  result \<^term>\<open>None\<close>.
\<close>

record 'h handle_pool =
  available_handles :: "'h list"
  all_handles :: "'h list"
  max_handles :: nat

definition mk_handle_pool :: "nat \<Rightarrow> 'h handle_pool" where
  "mk_handle_pool mx = \<lparr>available_handles = [], all_handles = [], max_handles = min mx 32\<rparr>"

definition create_handle :: "'h driver_answer \<Rightarrow> pool_error + 'h" where
  "create_handle ans =
     (if \<not> push_ok ans then Inl Push_failed
      else if \<not> pop_ok ans then Inl Pop_failed
      else if \<not> create_ok ans then Inl Create_failed
      else Inr (new_object ans))"

definition acquire_handle :: "'h driver_answer \<Rightarrow> nat \<Rightarrow> 'h handle_pool \<Rightarrow> ((pool_error + 'h) \<times> nat \<times> 'h handle_pool) option" where
  "acquire_handle ans rr_idx p =
     (if available_handles p \<noteq> []
      then Some (Inr (hd (available_handles p)), rr_idx, p\<lparr>available_handles := tl (available_handles p)\<rparr>)
      else if length (all_handles p) < max_handles p
      then (case create_handle ans of
              Inl e \<Rightarrow> Some (Inl e, rr_idx, p)
            | Inr h \<Rightarrow> Some (Inr h, rr_idx, p\<lparr>all_handles := all_handles p @ [h]\<rparr>))
      else if all_handles p \<noteq> []
      then (if rr_idx < length (all_handles p)
            then Some (Inr (all_handles p ! rr_idx), (rr_idx + 1) mod length (all_handles p), p) else None)
      else Some (Inl No_streams, rr_idx, p))"

definition release_handle :: "'h \<Rightarrow> 'h handle_pool \<Rightarrow> 'h handle_pool" where
  "release_handle h p = p\<lparr>available_handles := available_handles p @ [h]\<rparr>"

record 'h handle_table =
  hpool :: "'h handle_pool"
  htable :: "int \<Rightarrow> 'h option"

definition mk_handle_table :: "nat \<Rightarrow> 'h handle_table" where
  "mk_handle_table pool_size = \<lparr>hpool = mk_handle_pool pool_size, htable = Map.empty\<rparr>"

text \<open>\<open>bind_ok\<close> is the answer of the library to binding the handle to the caller's stream.\<close>

definition get_handle ::
    "bool \<Rightarrow> 'h driver_answer \<Rightarrow> nat \<Rightarrow> int \<Rightarrow> 'h handle_table \<Rightarrow> ((pool_error + 'h) \<times> nat \<times> 'h handle_table) option" where
  "get_handle bind_ok ans rr_idx actor t =
     (case (case htable t actor of
              Some h \<Rightarrow> Some (Inr h, rr_idx, t)
            | None \<Rightarrow> (case acquire_handle ans rr_idx (hpool t) of
                  None \<Rightarrow> None
                | Some (Inl e, rr, p) \<Rightarrow> Some (Inl e, rr, t\<lparr>hpool := p\<rparr>)
                | Some (Inr h, rr, p) \<Rightarrow> Some (Inr h, rr, t\<lparr>hpool := p, htable := (htable t)(actor \<mapsto> h)\<rparr>))) of
        Some (Inr h, rr, t') \<Rightarrow> Some (if bind_ok then Inr h else Inl Bind_failed, rr, t')
      | r \<Rightarrow> r)"

definition release_handle_of :: "int \<Rightarrow> 'h handle_table \<Rightarrow> 'h handle_table" where
  "release_handle_of actor t =
     (case htable t actor of
        None \<Rightarrow> t
      | Some h \<Rightarrow> t\<lparr>hpool := release_handle h (hpool t), htable := (htable t)(actor := None)\<rparr>)"

section \<open>Threads\<close>

text \<open>
  Threads use the table of a device concurrently; each critical section is one step. A thread has looked up an
  actor without success and is about to take the exclusive lock, or is idle. \<open>answers\<close> records what the calls to
  \<^verbatim>\<open>get_stream\<close> returned, and \<open>exhausted\<close> whether some call found the pool empty and at its limit.
\<close>

record 's stream_sys =
  streams :: "'s stream_table"
  missed :: "nat \<Rightarrow> int option"
  answers :: "(int \<times> 's) list"
  exhausted :: bool

definition pool_exhausted :: "'s stream_table \<Rightarrow> int \<Rightarrow> bool" where
  "pool_exhausted t actor \<longleftrightarrow>
     table t actor = None \<and> available_streams (pool t) = [] \<and> \<not> total_streams (pool t) < max_size (pool t)"

inductive stream_step :: "'s stream_sys \<Rightarrow> 's stream_sys \<Rightarrow> bool" where
  hit: "missed w th = None \<Longrightarrow> lookup_stream actor (streams w) = Some s \<Longrightarrow>
    stream_step w (w\<lparr>answers := answers w @ [(actor, s)]\<rparr>)"
| miss: "missed w th = None \<Longrightarrow> lookup_stream actor (streams w) = None \<Longrightarrow>
    stream_step w (w\<lparr>missed := (missed w)(th \<mapsto> actor)\<rparr>)"
| assign: "missed w th = Some actor \<Longrightarrow> new_object ans \<notin> set (all_streams (pool (streams w))) \<Longrightarrow>
    assign_stream ans actor (streams w) = (r, t) \<Longrightarrow>
    stream_step w (w\<lparr>streams := t, missed := (missed w)(th := None),
      answers := answers w @ (case r of Inl _ \<Rightarrow> [] | Inr s \<Rightarrow> [(actor, s)]),
      exhausted := exhausted w \<or> pool_exhausted (streams w) actor\<rparr>)"
| release: "stream_step w (w\<lparr>streams := release_stream actor (streams w)\<rparr>)"

inductive stream_reachable :: "'s stream_table \<Rightarrow> 's stream_sys \<Rightarrow> bool" for t where
  start: "stream_reachable t \<lparr>streams = t, missed = (\<lambda>_. None), answers = [], exhausted = False\<rparr>"
| step: "stream_reachable t w \<Longrightarrow> stream_step w w' \<Longrightarrow> stream_reachable t w'"

section \<open>Invariant\<close>

text \<open>
  As long as no call found the pool exhausted, every created stream is either available or belongs to exactly one
  actor.
\<close>

definition exclusive :: "'s stream_table \<Rightarrow> bool" where
  "exclusive t \<longleftrightarrow> finite (dom (table t)) \<and> distinct (all_streams (pool t)) \<and>
     distinct (available_streams (pool t)) \<and> inj_on (table t) (dom (table t)) \<and>
     set (available_streams (pool t)) \<inter> ran (table t) = {} \<and>
     set (available_streams (pool t)) \<union> ran (table t) = set (all_streams (pool t))"

definition counted :: "'s stream_table \<Rightarrow> bool" where
  "counted t \<longleftrightarrow> total_streams (pool t) = length (all_streams (pool t)) \<and> total_streams (pool t) \<le> max_size (pool t) \<and>
     finite (dom (table t)) \<and> in_use (pool t) = card (dom (table t)) \<and>
     set (available_streams (pool t)) \<union> ran (table t) \<subseteq> set (all_streams (pool t)) \<and>
     rr_index (pool t) < max 1 (length (all_streams (pool t)))"

lemma assign_cases [consumes 1, case_names known free create failed reuse none]:
  assumes "assign_stream ans actor t = (r, t')"
  obtains s where "table t actor = Some s" "r = Inr s" "t' = t"
  | s ss where "table t actor = None" "available_streams (pool t) = s # ss" "r = Inr s"
      "t' = t\<lparr>pool := (pool t)\<lparr>available_streams := ss, in_use := in_use (pool t) + 1\<rparr>, table := (table t)(actor \<mapsto> s)\<rparr>"
  | s where "table t actor = None" "available_streams (pool t) = []" "total_streams (pool t) < max_size (pool t)"
      "s = new_object ans" "r = Inr s"
      "t' = t\<lparr>pool := (pool t)\<lparr>all_streams := all_streams (pool t) @ [s], total_streams := total_streams (pool t) + 1,
                in_use := in_use (pool t) + 1\<rparr>, table := (table t)(actor \<mapsto> s)\<rparr>"
  | e where "table t actor = None" "available_streams (pool t) = []" "total_streams (pool t) < max_size (pool t)" "r = Inl e" "t' = t"
  | s where "pool_exhausted t actor" "all_streams (pool t) \<noteq> []" "s = all_streams (pool t) ! rr_index (pool t)" "r = Inr s"
      "t' = t\<lparr>pool := (pool t)\<lparr>rr_index := (rr_index (pool t) + 1) mod length (all_streams (pool t)),
                in_use := in_use (pool t) + 1\<rparr>, table := (table t)(actor \<mapsto> s)\<rparr>"
  | "pool_exhausted t actor" "all_streams (pool t) = []" "r = Inl No_streams" "t' = t"
proof -
  note intro = that
  consider "table t actor \<noteq> None" | "table t actor = None" "available_streams (pool t) \<noteq> []"
    | "table t actor = None" "available_streams (pool t) = []" "total_streams (pool t) < max_size (pool t)"
    | "pool_exhausted t actor"
    by (cases "table t actor"; cases "available_streams (pool t)"; cases "total_streams (pool t) < max_size (pool t)")
       (simp_all add: pool_exhausted_def)
  then show thesis
  proof cases
    case 1
    then obtain s where "table t actor = Some s" by auto
    with assms show ?thesis by (intro intro(1)[of s]) (simp_all add: assign_stream_def)
  next
    case 2
    then obtain s ss where "available_streams (pool t) = s # ss" by (cases "available_streams (pool t)") simp_all
    with 2 assms show ?thesis by (intro intro(2)[of s ss]) (simp_all add: assign_stream_def acquire_def)
  next
    case 3
    show ?thesis
    proof (cases "create_stream ans")
      case (Inl e)
      with 3 assms show ?thesis by (intro intro(4)[of e]) (simp_all add: assign_stream_def acquire_def)
    next
      case (Inr s)
      then have "s = new_object ans" by (auto simp: create_stream_def split: if_splits)
      with Inr 3 assms show ?thesis by (intro intro(3)[of s]) (simp_all add: assign_stream_def acquire_def)
    qed
  next
    case 4
    show ?thesis
    proof (cases "all_streams (pool t) = []")
      case True
      with 4 assms show ?thesis by (intro intro(6)) (simp_all add: assign_stream_def acquire_def pool_exhausted_def)
    next
      case False
      with 4 assms show ?thesis
        by (intro intro(5)[of "all_streams (pool t) ! rr_index (pool t)"])
           (simp_all add: assign_stream_def acquire_def pool_exhausted_def)
    qed
  qed
qed

lemma card_dom_upd:
  "finite (dom m) \<Longrightarrow> m a = None \<Longrightarrow> card (dom (m(a \<mapsto> s))) = Suc (card (dom m))"
  by (simp add: domIff)

lemma finite_dom_upd: "finite (dom m) \<Longrightarrow> finite (dom (m(a \<mapsto> s)))"
  by simp

lemma counted_assign:
  assumes "counted t" "assign_stream ans actor t = (r, t')"
  shows "counted t'"
  using assms(2)
proof (cases rule: assign_cases)
  case (known s)
  with assms show ?thesis by simp
next
  case (free s ss)
  with assms show ?thesis by (auto simp: counted_def ran_map_upd card_dom_upd finite_dom_upd simp del: dom_fun_upd)
next
  case (create s)
  with assms show ?thesis by (auto simp: counted_def ran_map_upd card_dom_upd finite_dom_upd simp del: dom_fun_upd)
next
  case (failed e)
  with assms show ?thesis by simp
next
  case (reuse s)
  then have "table t actor = None" "length (all_streams (pool t)) > 0" by (simp_all add: pool_exhausted_def)
  moreover have "rr_index (pool t) < length (all_streams (pool t))"
    using assms(1) calculation(2) by (simp add: counted_def max_def split: if_splits)
  ultimately show ?thesis using reuse assms by (auto simp: counted_def less_max_iff_disj ran_map_upd card_dom_upd finite_dom_upd simp del: dom_fun_upd)
next
  case none
  with assms show ?thesis by simp
qed

lemma counted_release: "counted t \<Longrightarrow> counted (release_stream actor t)"
proof (cases "table t actor")
  case (Some s)
  assume c: "counted t"
  have d: "card (dom (table t)) = Suc (card (dom (table t) - {actor}))"
    using c Some by (subst card.remove[of _ actor]) (auto simp: counted_def)
  have r: "ran ((table t)(actor := None)) \<subseteq> ran (table t)" "s \<in> ran (table t)"
    using Some by (auto simp: ran_def split: if_splits)
  show ?thesis using c d r Some by (auto simp: counted_def release_stream_def release_def Let_def)
qed (simp add: release_stream_def)

lemma exclusive_assign:
  assumes "exclusive t" "assign_stream ans actor t = (r, t')" "new_object ans \<notin> set (all_streams (pool t))"
    "\<not> pool_exhausted t actor"
  shows "exclusive t'"
  using assms(2)
proof (cases rule: assign_cases)
  case (free s ss)
  with assms(1) have "inj_on ((table t)(actor \<mapsto> s)) (dom ((table t)(actor \<mapsto> s)))"
    by (auto simp: exclusive_def inj_on_def ran_def dom_def)
  with free assms(1) show ?thesis by (auto simp: exclusive_def ran_map_upd finite_dom_upd simp del: dom_fun_upd)
next
  case (create s)
  with assms(1,3) have "inj_on ((table t)(actor \<mapsto> s)) (dom ((table t)(actor \<mapsto> s)))"
    by (auto simp: exclusive_def inj_on_def ran_def dom_def)
  with create assms(1,3) show ?thesis by (auto simp: exclusive_def ran_map_upd finite_dom_upd simp del: dom_fun_upd)
qed (use assms in auto)

lemma ran_remove:
  assumes a: "m a = Some s" and u: "\<And>x. m x = Some s \<Longrightarrow> x = a"
  shows "ran (m(a := None)) = ran m - {s}"
proof (rule set_eqI)
  fix y
  have "y \<in> ran (m(a := None)) \<longleftrightarrow> (\<exists>x. x \<noteq> a \<and> m x = Some y)" by (auto simp: ran_def)
  also have "\<dots> \<longleftrightarrow> (\<exists>x. m x = Some y) \<and> y \<noteq> s" using a u by (metis option.inject)
  finally show "y \<in> ran (m(a := None)) \<longleftrightarrow> y \<in> ran m - {s}" by (simp add: ran_def)
qed

lemma exclusive_release: "exclusive t \<Longrightarrow> exclusive (release_stream actor t)"
proof (cases "table t actor")
  case (Some s)
  assume x: "exclusive t"
  then have i: "inj_on (table t) (dom (table t))" by (simp add: exclusive_def)
  have r: "ran ((table t)(actor := None)) = ran (table t) - {s}"
  proof -
    have "x = actor" if "table t x = Some s" for x
      using inj_onD[OF i, of x actor] that Some by auto
    then show ?thesis using Some by (intro ran_remove) blast+
  qed
  have "s \<in> ran (table t)" using Some by (auto simp: ran_def)
  moreover have "inj_on ((table t)(actor := None)) (dom (table t) - {actor})"
    using i by (auto simp: inj_on_def)
  ultimately show ?thesis using x Some r by (auto simp: exclusive_def release_stream_def release_def Let_def)
qed (simp add: release_stream_def)

lemma pool_exhausted_full:
  assumes "exclusive t" "counted t" "pool_exhausted t actor"
  shows "card (dom (table t)) = max_size (pool t)"
proof -
  have "card (ran (table t)) = card (set (all_streams (pool t)))"
    using assms by (simp add: exclusive_def pool_exhausted_def)
  also have "\<dots> = length (all_streams (pool t))" using assms(1) by (simp add: exclusive_def distinct_card)
  also have "\<dots> = max_size (pool t)" using assms by (simp add: counted_def pool_exhausted_def)
  finally have r: "card (ran (table t)) = max_size (pool t)" .
  have "Some ` ran (table t) = table t ` dom (table t)" by (force simp: ran_def dom_def image_def)
  then have "card (ran (table t)) = card (table t ` dom (table t))" by (metis card_image inj_Some inj_on_subset subset_UNIV)
  also have "\<dots> = card (dom (table t))" using assms(1) by (intro card_image) (simp add: exclusive_def)
  finally show ?thesis using r by simp
qed

lemma max_size_kept:
  "max_size (pool (release_stream actor t)) = max_size (pool t)"
  "assign_stream ans actor t = (r, t') \<Longrightarrow> max_size (pool t') = max_size (pool t)"
  by (simp add: release_stream_def release_def Let_def split: option.split)
     (auto elim!: assign_cases)

definition stream_inv :: "nat \<Rightarrow> 's stream_sys \<Rightarrow> bool" where
  "stream_inv mx w \<longleftrightarrow> counted (streams w) \<and> max_size (pool (streams w)) = mx \<and> (\<not> exhausted w \<longrightarrow> exclusive (streams w))"

lemma stream_step_inv: "stream_step w w' \<Longrightarrow> stream_inv mx w \<Longrightarrow> stream_inv mx w'"
proof (induction rule: stream_step.induct)
  case (assign w th actor ans r t)
  then show ?case
    using counted_assign[OF _ assign(3)] exclusive_assign[OF _ assign(3,2)] max_size_kept(2)[OF assign(3)]
    by (auto simp: stream_inv_def)
qed (auto simp: stream_inv_def counted_release exclusive_release max_size_kept)

text \<open>The constructor establishes the invariant if the driver never returns a stream twice.\<close>

lemma fill_pool_ok:
  assumes "inj (\<lambda>i. new_object (answer i))" "fill_pool n answer p = Inr p'"
    "all_streams p = map (\<lambda>i. new_object (answer i)) [0..<total_streams p]" "available_streams p = all_streams p"
    "total_streams p \<le> max_size p"
  shows "all_streams p' = map (\<lambda>i. new_object (answer i)) [0..<total_streams p'] \<and> available_streams p' = all_streams p' \<and>
    total_streams p' \<le> max_size p' \<and> max_size p' = max_size p \<and> in_use p' = in_use p \<and> rr_index p' = rr_index p"
  using assms(2-)
proof (induction n arbitrary: p)
  case (Suc n)
  show ?case
  proof (cases "total_streams p < max_size p")
    case True
    with Suc.prems obtain s where s: "create_stream (answer (total_streams p)) = Inr s"
      by (cases "create_stream (answer (total_streams p))") auto
    then have "s = new_object (answer (total_streams p))" by (auto simp: create_stream_def split: if_splits)
    with s True Suc.prems Suc.IH show ?thesis by fastforce
  next
    case False
    with Suc.prems show ?thesis by auto
  qed
qed simp

lemma mk_stream_table_ok:
  assumes "inj (\<lambda>i. new_object (answer i))" "mk_stream_table answer n = Inr t"
  shows "stream_inv 500 \<lparr>streams = t, missed = (\<lambda>_. None), answers = [], exhausted = False\<rparr>"
proof -
  obtain p where p: "mk_stream_pool answer n 500 = Inr p" "t = \<lparr>pool = p, table = Map.empty\<rparr>"
    using assms(2) by (auto simp: mk_stream_table_def split: sum.splits)
  have "distinct (map (\<lambda>i. new_object (answer i)) [0..<total_streams p])"
    using assms(1) by (auto simp: distinct_map inj_on_def inj_def)
  with p fill_pool_ok[OF assms(1) p(1)[unfolded mk_stream_pool_def]] show ?thesis
    by (auto simp: stream_inv_def counted_def exclusive_def)
qed

lemma stream_reachable_inv:
  assumes "inj (\<lambda>i. new_object (answer i))" "mk_stream_table answer n = Inr t" "stream_reachable t w"
  shows "stream_inv 500 w"
  using assms(3) by induction (use assms mk_stream_table_ok stream_step_inv in blast)+

lemma step_answer:
  assumes "stream_step w w'" "answers w' = answers w @ [(a, s)]"
  shows "table (streams w') a = Some s"
  using assms
proof (induction rule: stream_step.induct)
  case (assign w th actor ans r t)
  from assign(3,4) show ?case by (cases rule: assign_cases) auto
qed (auto simp: lookup_stream_def)

lemma step_exhausts:
  assumes "stream_step w w'" "stream_inv mx w" "exhausted w'" "\<not> exhausted w"
  shows "card (dom (table (streams w))) = mx"
  using assms
proof (induction rule: stream_step.induct)
  case (assign w th actor ans r t)
  then show ?case using pool_exhausted_full[of "streams w" actor] by (auto simp: stream_inv_def)
qed simp_all

section \<open>Properties\<close>

text \<open>
  C38: Streams are exclusive until 500 actors use the device. Let the driver never return the same stream twice, and
  let threads look up, assign and release streams of actors in any interleaving. Then the pool never has more than
  500 streams and counts as in use exactly one per actor in the table, a call of \<^verbatim>\<open>get_stream\<close> returns the stream that
  the table holds for its actor at that moment, so that two threads never assign different streams to one actor, and
  as long as no call found the pool exhausted no two actors share a stream. A call finds the pool exhausted for the
  first time only when 500 actors hold a stream.
\<close>

theorem streams_are_exclusive:
  assumes "inj (\<lambda>i. new_object (answer i))" "mk_stream_table answer n = Inr t" "stream_reachable t w"
  shows "num_total (pool (streams w)) \<le> 500 \<and> num_in_use (pool (streams w)) = card (dom (table (streams w))) \<and>
    (\<not> exhausted w \<longrightarrow> (\<forall>a b s. table (streams w) a = Some s \<and> table (streams w) b = Some s \<longrightarrow> a = b)) \<and>
    (\<forall>w' a s. stream_step w w' \<and> answers w' = answers w @ [(a, s)] \<longrightarrow> table (streams w') a = Some s) \<and>
    (\<forall>w'. stream_step w w' \<and> exhausted w' \<and> \<not> exhausted w \<longrightarrow> card (dom (table (streams w))) = 500)"
proof -
  note inv = stream_reachable_inv[OF assms]
  then have "num_total (pool (streams w)) \<le> 500 \<and> num_in_use (pool (streams w)) = card (dom (table (streams w)))"
    by (auto simp: stream_inv_def counted_def num_total_def num_in_use_def)
  moreover have "a = b" if "\<not> exhausted w" "table (streams w) a = Some s" "table (streams w) b = Some s" for a b s
    using inv that inj_onD[of "table (streams w)" "dom (table (streams w))" a b]
    by (auto simp: stream_inv_def exclusive_def)
  ultimately show ?thesis
    by (intro conjI allI impI; elim conjE) (assumption | rule step_answer step_exhausts[OF _ inv])+
qed

definition answer_of :: "nat \<Rightarrow> nat driver_answer" where
  "answer_of i = \<lparr>push_ok = True, create_ok = True, pop_ok = True, new_object = i\<rparr>"

definition one_stream :: "nat stream_table" where
  "one_stream = \<lparr>pool = \<lparr>available_streams = [0], all_streams = [0], max_size = 500, total_streams = 1, in_use = 0, rr_index = 0\<rparr>,
     table = Map.empty\<rparr>"

definition two_actors :: "nat stream_sys" where
  "two_actors = \<lparr>streams = \<lparr>pool = \<lparr>available_streams = [], all_streams = [0, 7], max_size = 500, total_streams = 2, in_use = 2,
     rr_index = 0\<rparr>, table = [1 \<mapsto> 0, 2 \<mapsto> 7]\<rparr>, missed = (\<lambda>_. None), answers = [(1, 0), (2, 7)], exhausted = False\<rparr>"

text \<open>Two threads miss for the actors 1 and 2, and both assign.\<close>

lemma two_actors_reachable: "stream_reachable one_stream two_actors"
proof -
  let ?w0 = "\<lparr>streams = one_stream, missed = (\<lambda>_. None), answers = [], exhausted = False\<rparr>"
  let ?w1 = "?w0\<lparr>missed := (missed ?w0)(0 \<mapsto> 1)\<rparr>"
  let ?w2 = "?w1\<lparr>missed := (missed ?w1)(1 \<mapsto> 2)\<rparr>"
  let ?t = "one_stream\<lparr>pool := (pool one_stream)\<lparr>available_streams := [], in_use := 1\<rparr>, table := [1 \<mapsto> 0]\<rparr>"
  let ?w3 = "?w2\<lparr>streams := ?t, missed := (missed ?w2)(0 := None), answers := [(1, 0)]\<rparr>"
  have idle: "Map.empty(0 \<mapsto> 1, 1 \<mapsto> 2, 0 := None, 1 := None) = (\<lambda>_ :: nat. None :: int option)" by (simp add: fun_eq_iff)
  have s1: "stream_step ?w0 ?w1" by (rule stream_step.miss) (simp_all add: lookup_stream_def one_stream_def)
  have s2: "stream_step ?w1 ?w2" by (rule stream_step.miss) (simp_all add: lookup_stream_def one_stream_def)
  have s3: "stream_step ?w2 ?w3"
    using stream_step.assign[of ?w2 0 1 "answer_of 9" "Inr 0" ?t]
    by (simp add: one_stream_def answer_of_def assign_stream_def acquire_def pool_exhausted_def fun_upd_def)
  have s4: "stream_step ?w3 two_actors"
    using stream_step.assign[of ?w3 1 2 "answer_of 7" "Inr 7" "streams two_actors"]
    by (simp add: one_stream_def two_actors_def answer_of_def assign_stream_def acquire_def create_stream_def pool_exhausted_def idle)
  show ?thesis by (rule stream_reachable.step[OF stream_reachable.step[OF stream_reachable.step[OF stream_reachable.step[OF
    stream_reachable.start s1] s2] s3] s4])
qed

theorem streams_are_exclusive_witness:
  "mk_stream_table answer_of 1 = Inr one_stream \<and> stream_reachable one_stream two_actors \<and>
   num_total (pool (streams two_actors)) \<le> 500 \<and> table (streams two_actors) 1 \<noteq> table (streams two_actors) 2 \<and>
   num_in_use (pool (streams two_actors)) = card (dom (table (streams two_actors)))"
proof -
  have inj: "inj (\<lambda>i. new_object (answer_of i))" by (simp add: answer_of_def)
  have mk: "mk_stream_table answer_of 1 = Inr one_stream"
    by (simp add: mk_stream_table_def mk_stream_pool_def create_stream_def answer_of_def one_stream_def)
  note ex = streams_are_exclusive[OF inj mk two_actors_reachable]
  have "table (streams two_actors) 1 = Some 0" "\<not> exhausted two_actors" by (simp_all add: two_actors_def)
  then have "table (streams two_actors) 1 \<noteq> table (streams two_actors) 2"
    using ex[THEN conjunct2, THEN conjunct2, THEN conjunct1, rule_format, of 1 0 2] by auto
  with ex[THEN conjunct1] ex[THEN conjunct2, THEN conjunct1] mk two_actors_reachable show ?thesis by simp
qed

section \<open>Consequences of exhaustion\<close>

text \<open>
  Once the pool was exhausted, sharing outlives the load. With two streams: actors 1, 2 and 3 acquire and release,
  and the two actors that use the device afterwards get the same stream while the other one is idle.
\<close>

definition small_pool :: "nat stream_pool" where
  "small_pool = \<lparr>available_streams = [], all_streams = [], max_size = 2, total_streams = 0, in_use = 0, rr_index = 0\<rparr>"

definition after_load :: "nat stream_table" where
  "after_load = release_stream 2 (release_stream 1 (release_stream 3
     (snd (get_stream (answer_of 2) 3 (snd (get_stream (answer_of 1) 2 (snd (get_stream (answer_of 0) 1
       \<lparr>pool = small_pool, table = Map.empty\<rparr>))))))))"

lemmas eval_streams = mk_stream_pool_def answer_of_def create_stream_def after_load_def small_pool_def get_stream_def lookup_stream_def assign_stream_def
  acquire_def release_stream_def release_def

lemma sharing_outlives_exhaustion:
  "mk_stream_pool answer_of 0 2 = Inr small_pool"
  "num_in_use (pool after_load) = 0" "num_total (pool after_load) = 2" "num_available (pool after_load) = 3"
  "fst (get_stream (answer_of 3) 4 after_load) = Inr 0"
  "fst (get_stream (answer_of 4) 5 (snd (get_stream (answer_of 3) 4 after_load))) = Inr 0"
  by (simp_all add: eval_streams num_in_use_def num_total_def num_available_def)

text \<open>
  The static round-robin position stays in bounds as long as all pools have the same limit, since a pool uses it
  only when it has as many handles as its limit allows; with pools of different limits it may point beyond the
  smaller one.
\<close>

definition handles_ok :: "nat \<Rightarrow> 'h handle_pool \<Rightarrow> bool" where
  "handles_ok mx p \<longleftrightarrow> max_handles p = mx \<and> length (all_handles p) \<le> mx"

lemma handle_index_in_bounds:
  assumes "handles_ok mx p" "rr < mx"
  shows "\<exists>r rr' p'. acquire_handle ans rr p = Some (r, rr', p') \<and> rr' < mx \<and> handles_ok mx p'"
  using assms
  by (cases "create_handle ans") (auto simp: acquire_handle_def handles_ok_def)

lemma handle_index_out_of_bounds:
  "acquire_handle (answer_of 9) 1 \<lparr>available_handles = [], all_handles = [7], max_handles = 1\<rparr> = None"
  "acquire_handle (answer_of 9) 0 \<lparr>available_handles = [], all_handles = [5, 6], max_handles = 2\<rparr>
     = Some (Inr 5, 1, \<lparr>available_handles = [], all_handles = [5, 6], max_handles = 2\<rparr>)"
  by (simp_all add: acquire_handle_def)

text \<open>
  A device starts with 32 streams or as many as asked for; after a reset of its context it has 500, since
  \<^verbatim>\<open>pool_size\<close> returns the limit and not the initial size.
\<close>

lemma fill_pool_total:
  assumes "fill_pool n answer p = Inr p'" "total_streams p \<le> max_size p"
  shows "total_streams p' = min (total_streams p + n) (max_size p)"
  using assms
proof (induction n arbitrary: p)
  case (Suc n)
  show ?case
  proof (cases "total_streams p < max_size p")
    case True
    with Suc.prems obtain s where "create_stream (answer (total_streams p)) = Inr s"
      by (cases "create_stream (answer (total_streams p))") auto
    with True Suc.prems Suc.IH show ?thesis by fastforce
  qed (use Suc.prems in auto)
qed simp

lemma reset_context_creates_all:
  "mk_stream_table answer n = Inr t \<Longrightarrow> num_total (pool t) = min n 500"
  "max_size (pool t) = 500 \<Longrightarrow> reset_context answer t = Inr t' \<Longrightarrow> num_total (pool t') = 500"
  by (auto simp: reset_context_def table_pool_size_def mk_stream_table_def mk_stream_pool_def num_total_def
      dest!: fill_pool_total split: sum.splits)

end
