(* ===== verification/Cuda_Blas.thy ===== *)
theory Cuda_Blas
  imports CAF_Prelude
begin

text \<open>
  The linear algebra operations of \<^verbatim>\<open>caf/cuda/device.hpp\<close>: row-major matrices and vectors in device memory are
  passed to cuBLAS, which works on column-major matrices. The library is a parameter; what the operations rely on
  is its documented behaviour, stated in \<open>cublas_ok\<close>. Numbers are the elements of a commutative ring: rounding is
  not modelled, and the single and double precision variants are the same code over two element types.
\<close>

section \<open>Interface of the library\<close>

datatype cublas_op = OP_N | OP_T
datatype fill_mode = FILL_LOWER | FILL_UPPER
datatype side_mode = SIDE_LEFT | SIDE_RIGHT
datatype pointer_mode = POINTER_MODE_HOST | POINTER_MODE_DEVICE

text \<open>
  The functions take and return buffers; \<^term>\<open>None\<close> is a status other than \<^verbatim>\<open>CUBLAS_STATUS_SUCCESS\<close>. The
  parameters are in the order of the library's headers, with the pointer mode of the handle in its place: in host mode
  the library reads and writes scalars in host memory, in device mode in device memory. \<open>set_pointer_mode\<close> gives the
  mode of the handle after the call.
\<close>

record 'a cublas =
  set_pointer_mode :: "pointer_mode \<Rightarrow> pointer_mode \<Rightarrow> pointer_mode"
  gemv :: "pointer_mode \<Rightarrow> cublas_op \<Rightarrow> int \<Rightarrow> int \<Rightarrow> 'a \<Rightarrow> 'a list \<Rightarrow> int \<Rightarrow> 'a list \<Rightarrow> int \<Rightarrow> 'a \<Rightarrow> 'a list \<Rightarrow> int \<Rightarrow> 'a list option"
  gemm :: "pointer_mode \<Rightarrow> cublas_op \<Rightarrow> cublas_op \<Rightarrow> int \<Rightarrow> int \<Rightarrow> int \<Rightarrow> 'a \<Rightarrow> 'a list \<Rightarrow> int \<Rightarrow> 'a list \<Rightarrow> int \<Rightarrow> 'a \<Rightarrow> 'a list \<Rightarrow> int \<Rightarrow> 'a list option"
  syrk :: "pointer_mode \<Rightarrow> fill_mode \<Rightarrow> cublas_op \<Rightarrow> int \<Rightarrow> int \<Rightarrow> 'a \<Rightarrow> 'a list \<Rightarrow> int \<Rightarrow> 'a \<Rightarrow> 'a list \<Rightarrow> int \<Rightarrow> 'a list option"
  dgmm :: "pointer_mode \<Rightarrow> side_mode \<Rightarrow> int \<Rightarrow> int \<Rightarrow> 'a list \<Rightarrow> int \<Rightarrow> 'a list \<Rightarrow> int \<Rightarrow> 'a list \<Rightarrow> int \<Rightarrow> 'a list option"
  axpy :: "pointer_mode \<Rightarrow> int \<Rightarrow> 'a \<Rightarrow> 'a list \<Rightarrow> int \<Rightarrow> 'a list \<Rightarrow> int \<Rightarrow> 'a list option"
  scal :: "pointer_mode \<Rightarrow> int \<Rightarrow> 'a \<Rightarrow> 'a list \<Rightarrow> int \<Rightarrow> 'a list option"
  dot :: "pointer_mode \<Rightarrow> int \<Rightarrow> 'a list \<Rightarrow> int \<Rightarrow> 'a list \<Rightarrow> int \<Rightarrow> 'a list \<Rightarrow> 'a list option"
  nrm2 :: "pointer_mode \<Rightarrow> int \<Rightarrow> 'a list \<Rightarrow> int \<Rightarrow> 'a list \<Rightarrow> 'a list option"
  copy :: "pointer_mode \<Rightarrow> int \<Rightarrow> 'a list \<Rightarrow> int \<Rightarrow> 'a list \<Rightarrow> int \<Rightarrow> 'a list option"

section \<open>Operations\<close>

datatype blas_error =
    Not_enabled
  | Push_error
  | Pop_error
  | Library_error

text \<open>
  What the device finds: whether it has a cuBLAS handle, the results of pushing and popping the context, and the
  pointer mode of the handle.
\<close>

record call_env =
  has_handle :: bool
  ctx_pushed :: bool
  ctx_popped :: bool
  ptr_mode :: pointer_mode

definition blas_call :: "call_env \<Rightarrow> 'b option \<Rightarrow> blas_error + 'b" where
  "blas_call env status =
     (if \<not> has_handle env then Inl Not_enabled
      else if \<not> ctx_pushed env then Inl Push_error
      else if \<not> ctx_popped env then Inl Pop_error
      else case status of None \<Rightarrow> Inl Library_error | Some r \<Rightarrow> Inr r)"

text \<open>
  The operations with a scalar result write it to device memory: they switch the handle to device mode for the call
  and back to host mode. The new mode of the handle is part of the result.
\<close>

definition device_result ::
    "'a cublas \<Rightarrow> call_env \<Rightarrow> (pointer_mode \<Rightarrow> 'a list option) \<Rightarrow> (blas_error + 'a list) \<times> call_env" where
  "device_result lib env call =
     (if \<not> has_handle env \<or> \<not> ctx_pushed env then (blas_call env None, env)
      else
        let env = env\<lparr>ptr_mode := set_pointer_mode lib POINTER_MODE_DEVICE (ptr_mode env)\<rparr>;
            status = call (ptr_mode env);
            env = env\<lparr>ptr_mode := set_pointer_mode lib POINTER_MODE_HOST (ptr_mode env)\<rparr>
        in (blas_call env status, env))"

definition sgemv :: "'a cublas \<Rightarrow> call_env \<Rightarrow> int \<Rightarrow> int \<Rightarrow> 'a \<Rightarrow> 'a list \<Rightarrow> 'a list \<Rightarrow> 'a \<Rightarrow> 'a list \<Rightarrow> blas_error + 'a list" where
  "sgemv lib env m n alpha A x beta y = blas_call env (gemv lib (ptr_mode env) OP_T n m alpha A n x 1 beta y 1)"

definition dgemv :: "'a cublas \<Rightarrow> call_env \<Rightarrow> int \<Rightarrow> int \<Rightarrow> 'a \<Rightarrow> 'a list \<Rightarrow> 'a list \<Rightarrow> 'a \<Rightarrow> 'a list \<Rightarrow> blas_error + 'a list" where
  "dgemv lib env m n alpha A x beta y = blas_call env (gemv lib (ptr_mode env) OP_T n m alpha A n x 1 beta y 1)"

definition s_elementwise_multiply :: "'a cublas \<Rightarrow> call_env \<Rightarrow> int \<Rightarrow> 'a list \<Rightarrow> 'a list \<Rightarrow> 'a list \<Rightarrow> blas_error + 'a list" where
  "s_elementwise_multiply lib env n x y res = blas_call env (dgmm lib (ptr_mode env) SIDE_LEFT n 1 y n x 1 res n)"

definition d_elementwise_multiply :: "'a cublas \<Rightarrow> call_env \<Rightarrow> int \<Rightarrow> 'a list \<Rightarrow> 'a list \<Rightarrow> 'a list \<Rightarrow> blas_error + 'a list" where
  "d_elementwise_multiply lib env n x y res = blas_call env (dgmm lib (ptr_mode env) SIDE_LEFT n 1 y n x 1 res n)"

definition ssyrk :: "'a cublas \<Rightarrow> call_env \<Rightarrow> int \<Rightarrow> int \<Rightarrow> 'a \<Rightarrow> 'a list \<Rightarrow> 'a \<Rightarrow> 'a list \<Rightarrow> blas_error + 'a list" where
  "ssyrk lib env n k alpha A beta C = blas_call env (syrk lib (ptr_mode env) FILL_UPPER OP_T n k alpha A k beta C n)"

definition dsyrk :: "'a cublas \<Rightarrow> call_env \<Rightarrow> int \<Rightarrow> int \<Rightarrow> 'a \<Rightarrow> 'a list \<Rightarrow> 'a \<Rightarrow> 'a list \<Rightarrow> blas_error + 'a list" where
  "dsyrk lib env n k alpha A beta C = blas_call env (syrk lib (ptr_mode env) FILL_UPPER OP_T n k alpha A k beta C n)"

definition saxpy :: "'a cublas \<Rightarrow> call_env \<Rightarrow> int \<Rightarrow> 'a \<Rightarrow> 'a list \<Rightarrow> 'a list \<Rightarrow> blas_error + 'a list" where
  "saxpy lib env n alpha x y = blas_call env (axpy lib (ptr_mode env) n alpha x 1 y 1)"

definition daxpy :: "'a cublas \<Rightarrow> call_env \<Rightarrow> int \<Rightarrow> 'a \<Rightarrow> 'a list \<Rightarrow> 'a list \<Rightarrow> blas_error + 'a list" where
  "daxpy lib env n alpha x y = blas_call env (axpy lib (ptr_mode env) n alpha x 1 y 1)"

definition sscal :: "'a cublas \<Rightarrow> call_env \<Rightarrow> int \<Rightarrow> 'a \<Rightarrow> 'a list \<Rightarrow> blas_error + 'a list" where
  "sscal lib env n alpha x = blas_call env (scal lib (ptr_mode env) n alpha x 1)"

definition dscal :: "'a cublas \<Rightarrow> call_env \<Rightarrow> int \<Rightarrow> 'a \<Rightarrow> 'a list \<Rightarrow> blas_error + 'a list" where
  "dscal lib env n alpha x = blas_call env (scal lib (ptr_mode env) n alpha x 1)"

definition snrm2 :: "'a cublas \<Rightarrow> call_env \<Rightarrow> int \<Rightarrow> 'a list \<Rightarrow> 'a list \<Rightarrow> (blas_error + 'a list) \<times> call_env" where
  "snrm2 lib env n x res = device_result lib env (\<lambda>mode. nrm2 lib mode n x 1 res)"

definition dnrm2 :: "'a cublas \<Rightarrow> call_env \<Rightarrow> int \<Rightarrow> 'a list \<Rightarrow> 'a list \<Rightarrow> (blas_error + 'a list) \<times> call_env" where
  "dnrm2 lib env n x res = device_result lib env (\<lambda>mode. nrm2 lib mode n x 1 res)"

definition sdot :: "'a cublas \<Rightarrow> call_env \<Rightarrow> int \<Rightarrow> 'a list \<Rightarrow> 'a list \<Rightarrow> 'a list \<Rightarrow> (blas_error + 'a list) \<times> call_env" where
  "sdot lib env n x y res = device_result lib env (\<lambda>mode. dot lib mode n x 1 y 1 res)"

definition ddot :: "'a cublas \<Rightarrow> call_env \<Rightarrow> int \<Rightarrow> 'a list \<Rightarrow> 'a list \<Rightarrow> 'a list \<Rightarrow> (blas_error + 'a list) \<times> call_env" where
  "ddot lib env n x y res = device_result lib env (\<lambda>mode. dot lib mode n x 1 y 1 res)"

definition scopy :: "'a cublas \<Rightarrow> call_env \<Rightarrow> int \<Rightarrow> 'a list \<Rightarrow> 'a list \<Rightarrow> blas_error + 'a list" where
  "scopy lib env n x y = blas_call env (copy lib (ptr_mode env) n x 1 y 1)"

definition dcopy :: "'a cublas \<Rightarrow> call_env \<Rightarrow> int \<Rightarrow> 'a list \<Rightarrow> 'a list \<Rightarrow> blas_error + 'a list" where
  "dcopy lib env n x y = blas_call env (copy lib (ptr_mode env) n x 1 y 1)"

definition sgemm ::
    "'a cublas \<Rightarrow> call_env \<Rightarrow> int \<Rightarrow> int \<Rightarrow> int \<Rightarrow> 'a \<Rightarrow> 'a list \<Rightarrow> 'a list \<Rightarrow> 'a \<Rightarrow> 'a list \<Rightarrow> blas_error + 'a list" where
  "sgemm lib env m n k alpha A B beta C = blas_call env (gemm lib (ptr_mode env) OP_T OP_T n m k alpha B n A k beta C n)"

definition dgemm ::
    "'a cublas \<Rightarrow> call_env \<Rightarrow> int \<Rightarrow> int \<Rightarrow> int \<Rightarrow> 'a \<Rightarrow> 'a list \<Rightarrow> 'a list \<Rightarrow> 'a \<Rightarrow> 'a list \<Rightarrow> blas_error + 'a list" where
  "dgemm lib env m n k alpha A B beta C = blas_call env (gemm lib (ptr_mode env) OP_T OP_T n m k alpha B n A k beta C n)"

lemmas double_precision = dgemv_def d_elementwise_multiply_def dsyrk_def daxpy_def dscal_def ddot_def dnrm2_def dcopy_def dgemm_def
lemmas single_precision = sgemv_def s_elementwise_multiply_def ssyrk_def saxpy_def sscal_def sdot_def snrm2_def scopy_def sgemm_def

section \<open>Documented behaviour of the library\<close>

text \<open>
  Entry \<open>(i, j)\<close> of a column-major matrix with leading dimension \<open>ld\<close>, of the matrix after the operation
  \<open>OP_N\<close> or \<open>OP_T\<close>, and of a row-major matrix with \<open>n\<close> columns.
\<close>

definition col_entry :: "nat \<Rightarrow> 'a list \<Rightarrow> nat \<Rightarrow> nat \<Rightarrow> 'a" where
  "col_entry ld A i j = A ! (i + j * ld)"

definition op_entry :: "cublas_op \<Rightarrow> nat \<Rightarrow> 'a list \<Rightarrow> nat \<Rightarrow> nat \<Rightarrow> 'a" where
  "op_entry t ld A i j = (case t of OP_N \<Rightarrow> col_entry ld A i j | OP_T \<Rightarrow> col_entry ld A j i)"

definition row_entry :: "nat \<Rightarrow> 'a list \<Rightarrow> nat \<Rightarrow> nat \<Rightarrow> 'a" where
  "row_entry n A i j = A ! (i * n + j)"

text \<open>A buffer holds an \<open>m\<close> by \<open>n\<close> column-major matrix with leading dimension \<open>ld\<close>.\<close>

definition holds :: "nat \<Rightarrow> nat \<Rightarrow> nat \<Rightarrow> 'a list \<Rightarrow> bool" where
  "holds m n ld A \<longleftrightarrow> 0 < m \<and> 0 < n \<and> m \<le> ld \<and> ld * (n - 1) + m \<le> length A"

definition ref_gemv :: "cublas_op \<Rightarrow> nat \<Rightarrow> nat \<Rightarrow> 'a :: comm_ring_1 \<Rightarrow> 'a list \<Rightarrow> nat \<Rightarrow> 'a list \<Rightarrow> 'a \<Rightarrow> 'a list \<Rightarrow> 'a list" where
  "ref_gemv t m n alpha A lda x beta y =
     (let (rows, cols) = (case t of OP_N \<Rightarrow> (m, n) | OP_T \<Rightarrow> (n, m))
      in map (\<lambda>i. if i < rows then alpha * (\<Sum>j<cols. op_entry t lda A i j * x ! j) + beta * y ! i else y ! i) [0..<length y])"

definition ref_gemm ::
    "cublas_op \<Rightarrow> cublas_op \<Rightarrow> nat \<Rightarrow> nat \<Rightarrow> nat \<Rightarrow> 'a :: comm_ring_1 \<Rightarrow> 'a list \<Rightarrow> nat \<Rightarrow> 'a list \<Rightarrow> nat \<Rightarrow> 'a \<Rightarrow> 'a list \<Rightarrow> nat \<Rightarrow> 'a list" where
  "ref_gemm ta tb m n k alpha A lda B ldb beta C ldc =
     map (\<lambda>q. if q mod ldc < m \<and> q div ldc < n
       then alpha * (\<Sum>l<k. op_entry ta lda A (q mod ldc) l * op_entry tb ldb B l (q div ldc)) + beta * C ! q else C ! q) [0..<length C]"

definition ref_syrk ::
    "fill_mode \<Rightarrow> cublas_op \<Rightarrow> nat \<Rightarrow> nat \<Rightarrow> 'a :: comm_ring_1 \<Rightarrow> 'a list \<Rightarrow> nat \<Rightarrow> 'a \<Rightarrow> 'a list \<Rightarrow> nat \<Rightarrow> 'a list" where
  "ref_syrk u t n k alpha A lda beta C ldc =
     map (\<lambda>q. if q mod ldc < n \<and> q div ldc < n \<and> (case u of FILL_UPPER \<Rightarrow> q mod ldc \<le> q div ldc | FILL_LOWER \<Rightarrow> q div ldc \<le> q mod ldc)
       then alpha * (\<Sum>l<k. op_entry t lda A (q mod ldc) l * op_entry t lda A (q div ldc) l) + beta * C ! q else C ! q) [0..<length C]"

definition ref_dgmm :: "side_mode \<Rightarrow> nat \<Rightarrow> nat \<Rightarrow> 'a :: comm_ring_1 list \<Rightarrow> nat \<Rightarrow> 'a list \<Rightarrow> 'a list \<Rightarrow> nat \<Rightarrow> 'a list" where
  "ref_dgmm s m n A lda x C ldc =
     map (\<lambda>q. if q mod ldc < m \<and> q div ldc < n
       then (case s of SIDE_LEFT \<Rightarrow> x ! (q mod ldc) | SIDE_RIGHT \<Rightarrow> x ! (q div ldc)) * col_entry lda A (q mod ldc) (q div ldc)
       else C ! q) [0..<length C]"

text \<open>
  What the library's documentation says of the functions: the result for parameters that are in range and buffers
  that are large enough, with unit increments, and an error status for a leading dimension that is too small.
  Operations that read scalars from host memory need host mode, the scalar product with a result in device memory
  needs device mode. Nothing is said about the other mode, nor about buffers that are too small.
\<close>

definition gemv_ok :: "'a :: comm_ring_1 cublas \<Rightarrow> bool" where
  "gemv_ok lib \<longleftrightarrow> (\<forall>t m n alpha A lda x beta y. holds m n lda A \<and>
     (case t of OP_N \<Rightarrow> n \<le> length x \<and> m \<le> length y | OP_T \<Rightarrow> m \<le> length x \<and> n \<le> length y) \<longrightarrow>
     gemv lib POINTER_MODE_HOST t (int m) (int n) alpha A (int lda) x 1 beta y 1 = Some (ref_gemv t m n alpha A lda x beta y))"

definition gemm_ok :: "'a :: comm_ring_1 cublas \<Rightarrow> bool" where
  "gemm_ok lib \<longleftrightarrow> (\<forall>ta tb m n k alpha A lda B ldb beta C ldc. holds m n ldc C \<longrightarrow>
     (case ta of OP_N \<Rightarrow> holds m k lda A | OP_T \<Rightarrow> holds k m lda A) \<and> (case tb of OP_N \<Rightarrow> holds k n ldb B | OP_T \<Rightarrow> holds n k ldb B) \<longrightarrow>
     gemm lib POINTER_MODE_HOST ta tb (int m) (int n) (int k) alpha A (int lda) B (int ldb) beta C (int ldc)
       = Some (ref_gemm ta tb m n k alpha A lda B ldb beta C ldc)) \<and>
   (\<forall>ta tb m n k alpha A lda B ldb beta C ldc.
     lda < (case ta of OP_N \<Rightarrow> m | OP_T \<Rightarrow> k) \<or> ldb < (case tb of OP_N \<Rightarrow> k | OP_T \<Rightarrow> n) \<longrightarrow>
     gemm lib POINTER_MODE_HOST ta tb m n k alpha A lda B ldb beta C ldc = None)"

definition syrk_ok :: "'a :: comm_ring_1 cublas \<Rightarrow> bool" where
  "syrk_ok lib \<longleftrightarrow> (\<forall>u t n k alpha A lda beta C ldc. holds n n ldc C \<and>
     (case t of OP_N \<Rightarrow> holds n k lda A | OP_T \<Rightarrow> holds k n lda A) \<longrightarrow>
     syrk lib POINTER_MODE_HOST u t (int n) (int k) alpha A (int lda) beta C (int ldc) = Some (ref_syrk u t n k alpha A lda beta C ldc))"

definition dgmm_ok :: "'a :: comm_ring_1 cublas \<Rightarrow> bool" where
  "dgmm_ok lib \<longleftrightarrow> (\<forall>mode s m n A lda x C ldc. holds m n lda A \<and> holds m n ldc C \<and>
     (case s of SIDE_LEFT \<Rightarrow> m | SIDE_RIGHT \<Rightarrow> n) \<le> length x \<longrightarrow>
     dgmm lib mode s (int m) (int n) A (int lda) x 1 C (int ldc) = Some (ref_dgmm s m n A lda x C ldc))"

definition level1_ok :: "'a :: comm_ring_1 cublas \<Rightarrow> bool" where
  "level1_ok lib \<longleftrightarrow> (\<forall>mode n alpha x y. 0 < n \<and> n \<le> length x \<and> n \<le> length y \<longrightarrow>
      axpy lib POINTER_MODE_HOST (int n) alpha x 1 y 1 = Some (map (\<lambda>i. if i < n then alpha * x ! i + y ! i else y ! i) [0..<length y]) \<and>
      copy lib mode (int n) x 1 y 1 = Some (take n x @ drop n y)) \<and>
    (\<forall>n alpha x. 0 < n \<and> n \<le> length x \<longrightarrow>
      scal lib POINTER_MODE_HOST (int n) alpha x 1 = Some (map (\<lambda>i. if i < n then alpha * x ! i else x ! i) [0..<length x])) \<and>
    (\<forall>n x y res. 0 < n \<and> n \<le> length x \<and> n \<le> length y \<and> res \<noteq> [] \<longrightarrow>
      dot lib POINTER_MODE_DEVICE (int n) x 1 y 1 res = Some (res[0 := \<Sum>i<n. x ! i * y ! i]))"

definition cublas_ok :: "'a :: comm_ring_1 cublas \<Rightarrow> bool" where
  "cublas_ok lib \<longleftrightarrow> (\<forall>new old. set_pointer_mode lib new old = new) \<and> gemv_ok lib \<and> gemm_ok lib \<and> syrk_ok lib \<and> dgmm_ok lib \<and> level1_ok lib"

section \<open>Row-major results\<close>

definition env_ok :: "call_env \<Rightarrow> bool" where
  "env_ok env \<longleftrightarrow> has_handle env \<and> ctx_pushed env \<and> ctx_popped env \<and> ptr_mode env = POINTER_MODE_HOST"

lemma blas_call_ok [simp]: "env_ok env \<Longrightarrow> blas_call env (Some r) = Inr r" "env_ok env \<Longrightarrow> blas_call env None = Inl Library_error"
  by (simp_all add: env_ok_def blas_call_def)

lemma env_ok_mode [simp]: "env_ok env \<Longrightarrow> ptr_mode env = POINTER_MODE_HOST"
  by (simp add: env_ok_def)

text \<open>Whatever a scalar product or a norm does, the handle is in host mode afterwards.\<close>

lemma device_result_env:
  assumes "\<And>new old. set_pointer_mode lib new old = new" "env_ok env"
  shows "device_result lib env call = (blas_call env (call POINTER_MODE_DEVICE), env)"
  using assms by (simp add: device_result_def env_ok_def blas_call_def Let_def)

lemma blas_call_not_enabled: "\<not> has_handle env \<Longrightarrow> blas_call env r = Inl Not_enabled"
  by (simp add: blas_call_def)

text \<open>A row-major \<open>m\<close> by \<open>n\<close> matrix is a column-major \<open>n\<close> by \<open>m\<close> matrix.\<close>

lemma holds_row_major: "0 < m \<Longrightarrow> 0 < n \<Longrightarrow> length A = m * n \<Longrightarrow> holds n m n A"
  by (cases m) (simp_all add: holds_def algebra_simps)

lemma op_T_row_entry: "op_entry OP_T n A i j = row_entry n A i j"
  by (simp add: op_entry_def col_entry_def row_entry_def add.commute)

lemma sgemv_row_major:
  assumes "gemv_ok lib" "env_ok env" "0 < m" "0 < n" "length A = m * n" "length x = n" "length y = m"
  shows "sgemv lib env (int m) (int n) alpha A x beta y
    = Inr (map (\<lambda>i. alpha * (\<Sum>j<n. row_entry n A i j * x ! j) + beta * y ! i) [0..<m])"
proof -
  have "gemv lib POINTER_MODE_HOST OP_T (int n) (int m) alpha A (int n) x 1 beta y 1 = Some (ref_gemv OP_T n m alpha A n x beta y)"
    using assms holds_row_major[of m n A] by (simp add: gemv_ok_def)
  then show ?thesis using assms by (simp add: sgemv_def ref_gemv_def op_T_row_entry)
qed

text \<open>Index arithmetic: position \<open>i * n + j\<close> of a buffer is column \<open>i\<close>, row \<open>j\<close> of the column-major view.\<close>

lemma row_major_index:
  assumes "i < n" "j < (k :: nat)"
  shows "(i * k + j) mod k = j" "(i * k + j) div k = i" "i * k + j < n * k"
proof -
  show "(i * k + j) mod k = j" "(i * k + j) div k = i" using assms by simp_all
  have "i * k + j < Suc i * k" using assms by simp
  also have "\<dots> \<le> n * k" using assms by (intro mult_le_mono1) simp
  finally show "i * k + j < n * k" .
qed

lemma ssyrk_row_major:
  assumes "syrk_ok lib" "env_ok env" "0 < n" "0 < k" "length A = n * k" "length C = n * n"
  shows "\<exists>C'. ssyrk lib env (int n) (int k) alpha A beta C = Inr C' \<and> length C' = n * n \<and>
    (\<forall>i<n. \<forall>j<n. row_entry n C' i j = (if j \<le> i
       then alpha * (\<Sum>l<k. row_entry k A i l * row_entry k A j l) + beta * row_entry n C i j else row_entry n C i j))"
proof -
  have "syrk lib POINTER_MODE_HOST FILL_UPPER OP_T (int n) (int k) alpha A (int k) beta C (int n) = Some (ref_syrk FILL_UPPER OP_T n k alpha A k beta C n)"
    using assms holds_row_major[of n k A] holds_row_major[of n n C] by (simp add: syrk_ok_def)
  moreover have "row_entry n (ref_syrk FILL_UPPER OP_T n k alpha A k beta C n) i j = (if j \<le> i
       then alpha * (\<Sum>l<k. row_entry k A i l * row_entry k A j l) + beta * row_entry n C i j else row_entry n C i j)"
    if "i < n" "j < n" for i j
    using that assms row_major_index[OF that]
    by (simp add: ref_syrk_def row_entry_def[of n] op_T_row_entry mult.commute)
  ultimately show ?thesis using assms by (simp add: ssyrk_def ref_syrk_def)
qed

lemma elementwise_multiply:
  assumes "dgmm_ok lib" "env_ok env" "0 < n" "length x = n" "length y = n" "length res = n"
  shows "s_elementwise_multiply lib env (int n) x y res = Inr (map2 (*) x y)"
proof -
  have "dgmm lib POINTER_MODE_HOST SIDE_LEFT (int n) 1 y (int n) x 1 res (int n) = Some (ref_dgmm SIDE_LEFT n 1 y n x res n)"
    using assms dgmm_ok_def[THEN iffD1, OF assms(1), rule_format, where m = n and n = 1 and s = SIDE_LEFT and lda = n and ldc = n]
    by (simp add: holds_def)
  moreover have "ref_dgmm SIDE_LEFT n 1 y n x res n = map2 (*) x y"
    using assms by (intro nth_equalityI) (simp_all add: ref_dgmm_def col_entry_def)
  ultimately show ?thesis using assms by (simp add: s_elementwise_multiply_def)
qed

text \<open>The product of two square matrices, as it should be and as the transposed operands give it.\<close>

lemma sgemm_square:
  assumes "gemm_ok lib" "env_ok env" "0 < n" "length A = n * n" "length B = n * n" "length C = n * n"
  shows "\<exists>C'. sgemm lib env (int n) (int n) (int n) alpha A B beta C = Inr C' \<and> length C' = n * n \<and>
    (\<forall>i<n. \<forall>j<n. row_entry n C' i j = alpha * (\<Sum>l<n. row_entry n B j l * row_entry n A l i) + beta * row_entry n C i j)"
proof -
  have "gemm lib POINTER_MODE_HOST OP_T OP_T (int n) (int n) (int n) alpha B (int n) A (int n) beta C (int n)
    = Some (ref_gemm OP_T OP_T n n n alpha B n A n beta C n)"
    using assms holds_row_major[of n n A] holds_row_major[of n n B] holds_row_major[of n n C] by (simp add: gemm_ok_def)
  moreover have "row_entry n (ref_gemm OP_T OP_T n n n alpha B n A n beta C n) i j
      = alpha * (\<Sum>l<n. row_entry n B j l * row_entry n A l i) + beta * row_entry n C i j"
    if "i < n" "j < n" for i j
    using that assms row_major_index[OF that]
    by (simp add: ref_gemm_def row_entry_def[of n C] row_entry_def[of n "map _ _"] op_T_row_entry)
  ultimately show ?thesis using assms by (simp add: sgemm_def ref_gemm_def)
qed

lemma sgemm_rejected:
  assumes "gemm_ok lib" "env_ok env" "n < k \<or> k < m"
  shows "sgemm lib env m n k alpha A B beta C = Inl Library_error"
  using assms by (auto simp: sgemm_def gemm_ok_def)

section \<open>A reference library\<close>

text \<open>The documented behaviour is consistent: a library that computes the reference results has it.\<close>

definition ref_cublas :: "'a :: comm_ring_1 cublas" where
  "ref_cublas = \<lparr>
     set_pointer_mode = (\<lambda>new old. new),
     gemv = (\<lambda>mode t m n alpha A lda x incx beta y incy. if mode = POINTER_MODE_DEVICE then None
       else Some (ref_gemv t (nat m) (nat n) alpha A (nat lda) x beta y)),
     gemm = (\<lambda>mode ta tb m n k alpha A lda B ldb beta C ldc.
       if mode = POINTER_MODE_DEVICE \<or> lda < (case ta of OP_N \<Rightarrow> m | OP_T \<Rightarrow> k) \<or> ldb < (case tb of OP_N \<Rightarrow> k | OP_T \<Rightarrow> n) then None
       else Some (ref_gemm ta tb (nat m) (nat n) (nat k) alpha A (nat lda) B (nat ldb) beta C (nat ldc))),
     syrk = (\<lambda>mode u t n k alpha A lda beta C ldc. if mode = POINTER_MODE_DEVICE then None
       else Some (ref_syrk u t (nat n) (nat k) alpha A (nat lda) beta C (nat ldc))),
     dgmm = (\<lambda>mode s m n A lda x incx C ldc. Some (ref_dgmm s (nat m) (nat n) A (nat lda) x C (nat ldc))),
     axpy = (\<lambda>mode n alpha x incx y incy. if mode = POINTER_MODE_DEVICE then None
       else Some (map (\<lambda>i. if i < nat n then alpha * x ! i + y ! i else y ! i) [0..<length y])),
     scal = (\<lambda>mode n alpha x incx. if mode = POINTER_MODE_DEVICE then None
       else Some (map (\<lambda>i. if i < nat n then alpha * x ! i else x ! i) [0..<length x])),
     dot = (\<lambda>mode n x incx y incy res. if mode = POINTER_MODE_HOST then None
       else Some (res[0 := \<Sum>i<nat n. x ! i * y ! i])),
     nrm2 = (\<lambda>mode n x incx res. None),
     copy = (\<lambda>mode n x incx y incy. Some (take (nat n) x @ drop (nat n) y))\<rparr>"

lemma ref_cublas_ok: "cublas_ok ref_cublas"
proof -
  have "gemm_ok ref_cublas" by (auto simp: gemm_ok_def ref_cublas_def holds_def split: cublas_op.splits)
  moreover have "gemv_ok ref_cublas" "syrk_ok ref_cublas" "dgmm_ok ref_cublas" "level1_ok ref_cublas"
    by (simp_all add: gemv_ok_def syrk_ok_def dgmm_ok_def level1_ok_def ref_cublas_def)
  ultimately show ?thesis by (simp add: cublas_ok_def) (simp add: ref_cublas_def)
qed

definition good_env :: call_env where
  "good_env = \<lparr>has_handle = True, ctx_pushed = True, ctx_popped = True, ptr_mode = POINTER_MODE_HOST\<rparr>"

text \<open>The vector operations without a change of layout.\<close>

lemma vector_operations:
  assumes "level1_ok lib" "env_ok env" "0 < n" "length x = n" "length z = n"
  shows "saxpy lib env (int n) alpha x z = Inr (map2 (\<lambda>a b. alpha * a + b) x z)"
    and "sscal lib env (int n) alpha x = Inr (map (\<lambda>a. alpha * a) x)" "scopy lib env (int n) x z = Inr x"
proof -
  have "map (\<lambda>i. if i < n then alpha * x ! i + z ! i else z ! i) [0..<n] = map2 (\<lambda>a b. alpha * a + b) x z"
    "map (\<lambda>i. if i < n then alpha * x ! i else x ! i) [0..<n] = map (\<lambda>a. alpha * a) x"
    using assms by (auto intro!: nth_equalityI)
  then show "saxpy lib env (int n) alpha x z = Inr (map2 (\<lambda>a b. alpha * a + b) x z)"
    "sscal lib env (int n) alpha x = Inr (map (\<lambda>a. alpha * a) x)" "scopy lib env (int n) x z = Inr x"
    using assms by (simp_all add: level1_ok_def saxpy_def sscal_def scopy_def)
qed

section \<open>Properties\<close>



text \<open>
  C40: The matrix product does not compute the product of its row-major arguments. For square matrices the result
  is \<open>C = alpha (B A)\<^sup>T + beta C\<close> instead of \<open>alpha A B + beta C\<close>, and for an \<open>m\<close> by \<open>k\<close> times \<open>k\<close> by \<open>n\<close>
  product with \<open>n < k\<close> or \<open>k < m\<close> the call fails: the operands are already transposed by the change of layout,
  and the flags \<^verbatim>\<open>CUBLAS_OP_T\<close> transpose them again.
\<close>

theorem gemm_multiplies_transposed:
  assumes "cublas_ok lib" "env_ok env" "0 < n" "length A = n * n" "length B = n * n" "length C = n * n"
  shows "(\<exists>C'. sgemm lib env (int n) (int n) (int n) alpha A B beta C = Inr C' \<and> length C' = n * n \<and>
      (\<forall>i<n. \<forall>j<n. row_entry n C' i j = alpha * (\<Sum>l<n. row_entry n B j l * row_entry n A l i) + beta * row_entry n C i j)) \<and>
    (\<forall>m k c A' B' C'. c < k \<or> k < m \<longrightarrow> sgemm lib env m c k alpha A' B' beta C' = Inl Library_error) \<and>
    dgemm = (sgemm :: 'a :: comm_ring_1 cublas \<Rightarrow> _)"
proof -
  have lib: "gemm_ok lib" using assms(1) by (simp add: cublas_ok_def)
  have "dgemm = (sgemm :: 'a cublas \<Rightarrow> _)" by (simp add: fun_eq_iff sgemm_def dgemm_def)
  then show ?thesis using sgemm_square[OF lib assms(2-6)] sgemm_rejected[OF lib assms(2)] by blast
qed

text \<open>With \<open>A = [[1, 2], [0, 1]]\<close> and \<open>B = [[1, 0], [3, 1]]\<close> the entry at the top left is 1; in \<open>A B\<close> it is 7.\<close>

theorem gemm_multiplies_transposed_witness:
  "(\<exists>C'. sgemm ref_cublas good_env 2 2 2 1 [1, 2, 0, 1] [1, 0, 3, 1] 0 [0, 0, 0, 0 :: int] = Inr C' \<and> row_entry 2 C' 0 0 = 1) \<and>
   (\<Sum>l<2. row_entry 2 [1, 2, 0, 1] 0 l * row_entry 2 [1, 0, 3, 1 :: int] l 0) = 7 \<and>
   sgemm ref_cublas good_env 3 2 2 1 [1, 2, 3, 4, 5, 6] [1, 0, 3, 1] 0 [0, 0, 0, 0, 0, 0 :: int] = Inl Library_error"
proof -
  have "cublas_ok (ref_cublas :: int cublas)" "env_ok good_env" by (simp_all add: ref_cublas_ok env_ok_def good_env_def)
  note g = gemm_multiplies_transposed[OF this, of 2 "[1, 2, 0, 1]" "[1, 0, 3, 1]" "[0, 0, 0, 0]" 1 0]
  have "sgemm ref_cublas good_env 3 2 2 1 [1, 2, 3, 4, 5, 6] [1, 0, 3, 1] 0 [0, 0, 0, 0, 0, 0 :: int] = Inl Library_error"
    using g[THEN conjunct2, THEN conjunct1, rule_format, of 2 2 3] by simp
  moreover obtain C' where "sgemm ref_cublas good_env 2 2 2 1 [1, 2, 0, 1] [1, 0, 3, 1] 0 [0, 0, 0, 0 :: int] = Inr C'"
    "\<forall>i<2. \<forall>j<2. row_entry 2 C' i j = 1 * (\<Sum>l<2. row_entry 2 [1, 0, 3, 1] j l * row_entry 2 [1, 2, 0, 1] l i)
      + 0 * row_entry 2 [0, 0, 0, 0] i j"
    using g[THEN conjunct1] by auto
  moreover from this(2)[rule_format, of 0 0] have "row_entry 2 C' 0 0 = 1" by (simp add: row_entry_def numeral_eq_Suc)
  moreover have "(\<Sum>l<2. row_entry 2 [1, 2, 0, 1] 0 l * row_entry 2 [1, 0, 3, 1 :: int] l 0) = 7"
    by (simp add: row_entry_def numeral_eq_Suc)
  ultimately show ?thesis by blast
qed

end
