(* ===== verification/Spec2Isabelle.thy ===== *)
theory Spec2Isabelle
  imports Actor_Life Binary_Deserializer Length_Prefix Web_Socket_Delivery Basp_Queue Ip_Address
    Cuda_Scheduler Cuda_Memory Cuda_Streams Cuda_Blas
begin

text \<open>
  Verification library for the C++ Actor Framework (CAF).
\<close>

end
